(* ===== verification/Cheat_Prelude.thy ===== *)
theory Cheat_Prelude
  imports Main "HOL-Library.Word"
begin

text \<open>
  Shared vocabulary of the development: the machine types of the C++ code, little-endian
  encoding of machine words (the layout \<^verbatim>\<open>memcpy\<close> and \<^verbatim>\<open>fwrite\<close> give on x86), reading a
  character string as a number the way \<^verbatim>\<open>strtoull\<close> and \<^verbatim>\<open>std::stoull\<close> do, the number formats of
  \<^verbatim>\<open>snprintf\<close>, and generic lemmas on lists.  The collections \<open>bytes_simps\<close> and \<open>text_simps\<close>
  carry the facts on bytes and on text that the component theories hand to the simplifier.
\<close>

unbundle bit_operations_syntax

named_theorems bytes_simps
named_theorems text_simps

type_synonym u8 = "8 word"
type_synonym u16 = "16 word"
type_synonym u32 = "32 word"
type_synonym u64 = "64 word"
type_synonym bytes = "u8 list"

section \<open>Machine words\<close>

lemma unat_less_exp: "unat (w :: 'a::len word) < 2 ^ LENGTH('a)"
  by (rule unsigned_less)

lemma unat_u64_less: "unat (w :: u64) < 2 ^ 64"
  using unat_less_exp[of w] by simp

lemma unat_u32_less: "unat (w :: u32) < 2 ^ 32"
  using unat_less_exp[of w] by simp

lemma unat_u8_less: "unat (w :: u8) < 256"
  using unat_less_exp[of w] by simp

lemma unat_u32_of_nat: "n < 2 ^ 32 \<Longrightarrow> unat (of_nat n :: u32) = n"
  by (simp add: unat_of_nat take_bit_eq_mod)

lemma unat_u64_of_nat: "n < 2 ^ 64 \<Longrightarrow> unat (of_nat n :: u64) = n"
  by (simp add: unat_of_nat take_bit_eq_mod)

lemma sint_u32_of_int: "- (2 ^ 31) \<le> k \<Longrightarrow> k < 2 ^ 31 \<Longrightarrow> sint (word_of_int k :: u32) = k"
  by (simp add: sint_sbintrunc' signed_take_bit_int_eq_self)

lemma take_bit_word_add:
  "take_bit m (take_bit m a + take_bit m b) = take_bit m (a + b :: 'a::len word)"
  by transfer (simp add: take_bit_add)

section \<open>Little-endian encoding of machine words\<close>

primrec le_bytes :: "nat \<Rightarrow> 'a::len word \<Rightarrow> bytes" where
  "le_bytes 0 w = []"
| "le_bytes (Suc n) w = ucast w # le_bytes n (drop_bit 8 w)"

primrec le_val :: "bytes \<Rightarrow> 'a::len word" where
  "le_val [] = 0"
| "le_val (b # bs) = ucast b OR push_bit 8 (le_val bs)"

lemma le_bytes_numeral [bytes_simps]:
  "le_bytes (numeral k) w = ucast w # le_bytes (pred_numeral k) (drop_bit 8 w)"
  by (simp add: numeral_eq_Suc)

lemma length_le_bytes [simp, bytes_simps]: "length (le_bytes n w) = n"
  by (induction n arbitrary: w) simp_all

lemma le_val_le_bytes:
  "le_val (le_bytes n (w :: 'a::len word)) = take_bit (8 * n) w"
proof (induction n arbitrary: w)
  case 0
  show ?case by simp
next
  case (Suc n)
  have "le_val (le_bytes (Suc n) w) =
      (ucast (ucast w :: u8) OR push_bit 8 (take_bit (8 * n) (drop_bit 8 w)) :: 'a word)"
    by (simp add: Suc.IH)
  also have "\<dots> = take_bit (8 * Suc n) w"
    by (rule bit_eqI)
      (auto simp: bit_simps bit_imp_le_length)
  finally show ?case .
qed

lemma le_val_le_bytes_full [bytes_simps]:
  "LENGTH('a) \<le> 8 * n \<Longrightarrow> le_val (le_bytes n (w :: 'a::len word)) = w"
  by (simp add: le_val_le_bytes take_bit_word_eq_self)

lemma le_bytes_le_val:
  "8 * length bs \<le> LENGTH('a) \<Longrightarrow> le_bytes (length bs) (le_val bs :: 'a::len word) = bs"
proof (induction bs)
  case Nil
  show ?case by simp
next
  case (Cons b bs)
  have len: "8 * length bs + 8 \<le> LENGTH('a)"
    using Cons.prems by simp
  have bnd: "(le_val bs :: 'a word) = take_bit (8 * length bs) (le_val bs)"
    using Cons.IH len le_val_le_bytes[of "length bs" "le_val bs :: 'a word"] by simp
  have lo: "(ucast (ucast b OR push_bit 8 (le_val bs) :: 'a word) :: u8) = b"
    using len by (intro bit_eqI) (auto simp: bit_simps dest: bit_imp_le_length)
  have bitbnd: "bit (le_val bs :: 'a word) m \<Longrightarrow> m < 8 * length bs" for m
    by (subst (asm) bnd) (simp add: bit_simps)
  have hi: "drop_bit 8 (ucast b OR push_bit 8 (le_val bs) :: 'a word) = le_val bs"
    using len bitbnd
    by (intro bit_eqI) (fastforce simp: bit_simps dest: bit_imp_le_length)
  have ih: "le_bytes (length bs) (le_val bs :: 'a word) = bs"
    using Cons.IH len by simp
  show ?case
    by (simp only: list.size(4) add_Suc_right add_0_right One_nat_def
        le_val.simps le_bytes.simps lo hi ih)
qed

lemma le_bytes_take_bit:
  "le_bytes n (take_bit (8 * n) w) = le_bytes n (w :: 'a::len word)"
proof (induction n arbitrary: w)
  case 0
  show ?case by simp
next
  case (Suc n)
  have lo: "(ucast (take_bit (8 * Suc n) w) :: u8) = ucast w"
    by (rule bit_eqI) (auto simp: bit_simps)
  have hi: "drop_bit 8 (take_bit (8 * Suc n) w) = take_bit (8 * n) (drop_bit 8 w)"
    by (rule bit_eqI) (auto simp: bit_simps)
  show ?case by (simp add: lo hi Suc.IH del: mult_Suc_right)
qed

lemma le_bytes_inj:
  assumes "le_bytes n v = le_bytes n (w :: 'a::len word)" and "LENGTH('a) \<le> 8 * n"
  shows "v = w"
  using arg_cong[OF assms(1), of "le_val :: bytes \<Rightarrow> 'a word"] assms(2)
  by (simp add: le_val_le_bytes_full)

lemma le_bytes_append:
  "le_bytes (m + n) w = le_bytes m w @ le_bytes n (drop_bit (8 * m) (w :: 'a::len word))"
  by (induction m arbitrary: w) (simp_all add: algebra_simps)

section \<open>Lists\<close>

lemma upt_split: "i \<le> j \<Longrightarrow> j \<le> k \<Longrightarrow> [i..<k] = [i..<j] @ [j..<k]"
  by (metis le_add_diff_inverse upt_add_eq_append)

lemma upt_split_at: "j < k \<Longrightarrow> [0..<k] = [0..<j] @ j # [Suc j..<k]"
  using upt_split[of 0 j k] upt_conv_Cons[of j k] by simp

lemma concat_map_if: "concat (map (\<lambda>x. if p x then [f x] else []) xs) = map f (filter p xs)"
  by (induction xs) simp_all

end
