(* ===== verification/Text_Format.thy ===== *)
theory Text_Format
  imports Cheat_Prelude
begin

text \<open>
  Text the code reads and prints: \<^verbatim>\<open>strtoull\<close> and \<^verbatim>\<open>std::stoull\<close> of the C and C++ standard
  library (C17 rules: white space, a sign, a \<^verbatim>\<open>0x\<close> prefix for base 16, base 0 detection, range
  error), the \<^verbatim>\<open>%llx\<close>, \<^verbatim>\<open>%llu\<close>, \<^verbatim>\<open>%02X\<close> conversions of \<^verbatim>\<open>snprintf\<close>, and the members of
  \<^verbatim>\<open>std::string\<close> the code calls.  A \<^verbatim>\<open>std::string\<close> is a \<open>string\<close> (a list of 8-bit
  characters).  The main facts are that reading back a printed number gives the number.
\<close>

section \<open>Digits\<close>

definition char_code :: "char \<Rightarrow> nat" where
  "char_code c = (of_char c :: nat)"

definition digit_val :: "char \<Rightarrow> nat option" where
  "digit_val c =
     (let n = char_code c in
      if 48 \<le> n \<and> n \<le> 57 then Some (n - 48)
      else if 97 \<le> n \<and> n \<le> 122 then Some (n - 97 + 10)
      else if 65 \<le> n \<and> n \<le> 90 then Some (n - 65 + 10)
      else None)"

definition is_digit :: "char \<Rightarrow> bool" where
  "is_digit c = (48 \<le> char_code c \<and> char_code c \<le> 57)"

definition is_xdigit :: "char \<Rightarrow> bool" where
  "is_xdigit c = (case digit_val c of Some d \<Rightarrow> d < 16 | None \<Rightarrow> False)"

definition is_space :: "char \<Rightarrow> bool" where
  "is_space c = (char_code c = 32 \<or> (9 \<le> char_code c \<and> char_code c \<le> 13))"

definition hex_lower :: "nat \<Rightarrow> char" where
  "hex_lower d = ''0123456789abcdef'' ! d"

definition hex_upper :: "nat \<Rightarrow> char" where
  "hex_upper d = ''0123456789ABCDEF'' ! d"

lemma less_16_cases:
  "(d::nat) < 16 \<Longrightarrow> d = 0 \<or> d = 1 \<or> d = 2 \<or> d = 3 \<or> d = 4 \<or> d = 5 \<or> d = 6 \<or> d = 7 \<or>
     d = 8 \<or> d = 9 \<or> d = 10 \<or> d = 11 \<or> d = 12 \<or> d = 13 \<or> d = 14 \<or> d = 15"
  by arith

lemma digit_val_hex_lower [simp]: "d < 16 \<Longrightarrow> digit_val (hex_lower d) = Some d"
  by (drule less_16_cases) (auto simp: digit_val_def hex_lower_def char_code_def Let_def)

lemma digit_val_hex_upper [simp]: "d < 16 \<Longrightarrow> digit_val (hex_upper d) = Some d"
  by (drule less_16_cases) (auto simp: digit_val_def hex_upper_def char_code_def Let_def)

lemma is_xdigit_hex_lower [simp]: "d < 16 \<Longrightarrow> is_xdigit (hex_lower d)"
  by (simp add: is_xdigit_def)

lemma is_xdigit_hex_upper [simp]: "d < 16 \<Longrightarrow> is_xdigit (hex_upper d)"
  by (simp add: is_xdigit_def)

lemma hex_lower_plain:
  assumes "d < 16"
  shows "\<not> is_space (hex_lower d)" "hex_lower d \<noteq> CHR ''-''" "hex_lower d \<noteq> CHR ''+''"
    "hex_lower d \<noteq> CHR ''x''" "hex_lower d \<noteq> CHR ''X''" "hex_lower d \<noteq> CHR '':''"
    "hex_lower d \<noteq> CHR '' ''" "hex_lower d \<noteq> CHR 0x5D" "hex_lower d \<noteq> CHR 0x5B"
  using less_16_cases[OF assms] by (auto simp: hex_lower_def is_space_def char_code_def)

lemma hex_lower_zero: "d < 16 \<Longrightarrow> (hex_lower d = CHR ''0'') = (d = 0)"
  by (drule less_16_cases) (auto simp: hex_lower_def)

section \<open>Printing numbers\<close>

fun nat_digits :: "nat \<Rightarrow> nat \<Rightarrow> nat list" where
  "nat_digits b n = (if b < 2 \<or> n < b then [n] else nat_digits b (n div b) @ [n mod b])"

declare nat_digits.simps [simp del]

lemma nat_digits_not_Nil [simp]: "nat_digits b n \<noteq> []"
  by (subst nat_digits.simps) simp

lemma nat_digits_less: "2 \<le> b \<Longrightarrow> d \<in> set (nat_digits b n) \<Longrightarrow> d < b"
proof (induction b n rule: nat_digits.induct)
  case (1 b n)
  then show ?case
    by (subst (asm) nat_digits.simps) (auto split: if_splits)
qed

lemma nat_digits_length: "n < b ^ k \<Longrightarrow> 0 < k \<Longrightarrow> length (nat_digits b n) \<le> k"
proof (induction b n arbitrary: k rule: nat_digits.induct)
  case (1 b n)
  show ?case
  proof (cases "b < 2 \<or> n < b")
    case True
    then show ?thesis using "1.prems" by (subst nat_digits.simps) simp
  next
    case False
    then obtain j where j: "k = Suc j" "0 < j" using "1.prems" by (cases k; cases "k - 1") auto
    have "n div b < b ^ j" using "1.prems" j False by (simp add: less_mult_imp_div_less mult.commute)
    from "1.IH"[OF False this j(2)] False j(1) show ?thesis by (subst nat_digits.simps) simp
  qed
qed

lemma nat_digits_small: "n < b \<Longrightarrow> nat_digits b n = [n]"
  by (simp add: nat_digits.simps)

lemma nat_digits_hd: "2 \<le> b \<Longrightarrow> hd (nat_digits b n) = 0 \<Longrightarrow> n = 0"
proof (induction b n rule: nat_digits.induct)
  case (1 b n)
  show ?case
  proof (cases "n < b")
    case True
    with "1.prems" show ?thesis by (simp add: nat_digits_small)
  next
    case False
    have "hd (nat_digits b (n div b)) = 0"
      using False "1.prems" by (subst (asm) nat_digits.simps) simp
    then have "n div b = 0"
      using "1.IH" "1.prems" False by simp
    with False "1.prems" show ?thesis by (simp add: div_eq_0_iff)
  qed
qed

definition fmt_dec :: "nat \<Rightarrow> string" where
  "fmt_dec n = map hex_lower (nat_digits 10 n)"

definition fmt_hex :: "nat \<Rightarrow> string" where
  "fmt_hex n = map hex_lower (nat_digits 16 n)"

definition fmt_hex_upper :: "nat \<Rightarrow> string" where
  "fmt_hex_upper n = map hex_upper (nat_digits 16 n)"

definition fmt_02X :: "u8 \<Rightarrow> string" where
  "fmt_02X b = [hex_upper (unat b div 16), hex_upper (unat b mod 16)]"

definition fmt_02x :: "u8 \<Rightarrow> string" where
  "fmt_02x b = [hex_lower (unat b div 16), hex_lower (unat b mod 16)]"

definition fmt_int :: "int \<Rightarrow> string" where
  "fmt_int i = (if i < 0 then CHR ''-'' # fmt_dec (nat (- i)) else fmt_dec (nat i))"

section \<open>Reading numbers\<close>

fun scan_digits :: "nat \<Rightarrow> nat \<Rightarrow> string \<Rightarrow> nat \<times> string" where
  "scan_digits b acc [] = (acc, [])"
| "scan_digits b acc (c # cs) =
     (case digit_val c of
        Some d \<Rightarrow> if d < b then scan_digits b (acc * b + d) cs else (acc, c # cs)
      | None \<Rightarrow> (acc, c # cs))"

definition starts_digit :: "nat \<Rightarrow> string \<Rightarrow> bool" where
  "starts_digit b s =
     (case s of [] \<Rightarrow> False | c # _ \<Rightarrow> (case digit_val c of Some d \<Rightarrow> d < b | None \<Rightarrow> False))"

fun strip_0x :: "string \<Rightarrow> string option" where
  "strip_0x (z # x # cs) =
     (if z = CHR ''0'' \<and> (x = CHR ''x'' \<or> x = CHR ''X'') \<and> starts_digit 16 cs then Some cs else None)"
| "strip_0x _ = None"

definition number_base :: "nat \<Rightarrow> string \<Rightarrow> nat \<times> string" where
  "number_base b s =
     (case (if b = 0 \<or> b = 16 then strip_0x s else None) of
        Some cs \<Rightarrow> (16, cs)
      | None \<Rightarrow> if b = 0 then (if s \<noteq> [] \<and> hd s = CHR ''0'' then 8 else 10, s) else (b, s))"

fun strip_sign :: "string \<Rightarrow> bool \<times> string" where
  "strip_sign (c # cs) =
     (if c = CHR ''-'' then (True, cs) else if c = CHR ''+'' then (False, cs) else (False, c # cs))"
| "strip_sign [] = (False, [])"

text \<open>
  \<^verbatim>\<open>strtoull(s, &end, base)\<close>: \<open>None\<close> when no conversion is made (\<^verbatim>\<open>end == s\<close>), otherwise the
  value, the text at \<^verbatim>\<open>end\<close>, and whether \<^verbatim>\<open>errno\<close> is \<^verbatim>\<open>ERANGE\<close>.
\<close>

definition strtoull :: "nat \<Rightarrow> string \<Rightarrow> (u64 \<times> string \<times> bool) option" where
  "strtoull base s =
     (let (neg, s1) = strip_sign (dropWhile is_space s);
          (b, s2) = number_base base s1 in
      if \<not> starts_digit b s2 then None
      else let (v, rest) = scan_digits b 0 s2 in
        if 2 ^ 64 \<le> v then Some (- 1, rest, True)
        else Some (if neg then - of_nat v else of_nat v, rest, False))"

definition stoull :: "nat \<Rightarrow> string \<Rightarrow> u64 option" where
  "stoull base s =
     (case strtoull base s of
        None \<Rightarrow> None
      | Some (v, rest, erange) \<Rightarrow> if erange then None else Some v)"

subsection \<open>Reading back what was printed\<close>

definition stops_digits :: "nat \<Rightarrow> string \<Rightarrow> bool" where
  "stops_digits b s = (\<not> starts_digit b s)"

lemma stops_digits_Nil [simp]: "stops_digits b []"
  by (simp add: stops_digits_def starts_digit_def)

lemma scan_digits_stop: "stops_digits b rest \<Longrightarrow> scan_digits b acc rest = (acc, rest)"
  by (cases rest) (auto simp: stops_digits_def starts_digit_def split: option.splits)

lemma scan_digits_nat_digits_gen:
  assumes dig: "\<And>d. d < 16 \<Longrightarrow> digit_val (f d) = Some d" and "2 \<le> b" and "b \<le> 16"
  shows "scan_digits b acc (map f (nat_digits b n) @ rest) =
     scan_digits b (acc * b ^ length (nat_digits b n) + n) rest"
  using assms(2,3)
proof (induction b n arbitrary: acc rest rule: nat_digits.induct)
  case (1 b n)
  show ?case
  proof (cases "n < b")
    case True
    with "1.prems" dig show ?thesis by (simp add: nat_digits_small)
  next
    case False
    have m: "n mod b < b" using "1.prems" by simp
    then have m16: "n mod b < 16" using "1.prems" by linarith
    have eq: "nat_digits b n = nat_digits b (n div b) @ [n mod b]"
      using False "1.prems" by (subst nat_digits.simps) simp
    have "scan_digits b acc (map f (nat_digits b n) @ rest) =
        scan_digits b ((acc * b ^ length (nat_digits b (n div b)) + n div b) * b + n mod b) rest"
      using "1.IH"[of acc "f (n mod b) # rest"] False "1.prems" m m16 dig by (simp add: eq)
    then show ?thesis by (simp add: eq algebra_simps)
  qed
qed

lemmas scan_digits_lower = scan_digits_nat_digits_gen[where f = hex_lower, OF digit_val_hex_lower]
lemmas scan_digits_upper = scan_digits_nat_digits_gen[where f = hex_upper, OF digit_val_hex_upper]

lemma scan_digits_fmt_hex [text_simps]:
  "stops_digits 16 rest \<Longrightarrow> scan_digits 16 0 (fmt_hex n @ rest) = (n, rest)"
  by (simp add: fmt_hex_def scan_digits_lower scan_digits_stop)

lemma scan_digits_fmt_dec [text_simps]:
  "stops_digits 10 rest \<Longrightarrow> scan_digits 10 0 (fmt_dec n @ rest) = (n, rest)"
  by (simp add: fmt_dec_def scan_digits_lower scan_digits_stop)

lemma fmt_hex_Cons: "\<exists>d ds. fmt_hex n = hex_lower d # ds \<and> d < 16 \<and> (d = 0 \<longrightarrow> n = 0)"
proof (cases "nat_digits 16 n")
  case (Cons d ds)
  then show ?thesis
    using nat_digits_less[of 16 d n] nat_digits_hd[of 16 n] by (auto simp: fmt_hex_def)
qed simp

lemma fmt_dec_Cons: "\<exists>d ds. fmt_dec n = hex_lower d # ds \<and> d < 10 \<and> (d = 0 \<longrightarrow> n = 0)"
proof (cases "nat_digits 10 n")
  case (Cons d ds)
  then show ?thesis
    using nat_digits_less[of 10 d n] nat_digits_hd[of 10 n] by (auto simp: fmt_dec_def)
qed simp

lemma fmt_hex_zero: "fmt_hex 0 = ''0''"
  by (simp add: fmt_hex_def nat_digits.simps hex_lower_def)

lemma fmt_dec_zero: "fmt_dec 0 = ''0''"
  by (simp add: fmt_dec_def nat_digits.simps hex_lower_def)

lemma fmt_hex_set: "c \<in> set (fmt_hex n) \<Longrightarrow> \<exists>d < 16. c = hex_lower d"
  using nat_digits_less[of 16] by (auto simp: fmt_hex_def)

lemma fmt_dec_set: "c \<in> set (fmt_dec n) \<Longrightarrow> \<exists>d < 10. c = hex_lower d"
  using nat_digits_less[of 10] by (auto simp: fmt_dec_def)

lemma strip_0x_digits:
  assumes "\<And>c. c \<in> set s \<Longrightarrow> \<exists>d < 16. c = hex_lower d"
  shows "strip_0x s = None"
proof (cases s rule: strip_0x.cases)
  case (1 z x cs)
  then obtain d where "d < 16" "x = hex_lower d" using assms by auto
  with 1 show ?thesis by (simp add: hex_lower_plain)
qed simp_all

lemma strtoull_0x_hex:
  assumes "n < 2 ^ 64" "base = 0 \<or> base = 16" "stops_digits 16 rest"
  shows "strtoull base (CHR ''0'' # CHR ''x'' # fmt_hex n @ rest) = Some (of_nat n, rest, False)"
proof -
  obtain d ds where d: "fmt_hex n = hex_lower d # ds" "d < 16"
    using fmt_hex_Cons by blast
  have sp: "dropWhile is_space (CHR ''0'' # CHR ''x'' # fmt_hex n @ rest) =
      CHR ''0'' # CHR ''x'' # fmt_hex n @ rest"
    by (simp add: is_space_def char_code_def)
  have st: "starts_digit 16 (fmt_hex n @ rest)"
    using d by (simp add: starts_digit_def)
  have nb: "number_base base (CHR ''0'' # CHR ''x'' # fmt_hex n @ rest) = (16, fmt_hex n @ rest)"
    using assms(2) st by (auto simp: number_base_def)
  show ?thesis
    unfolding strtoull_def sp using assms st
    by (simp add: nb scan_digits_fmt_hex del: append.simps)
qed

lemma strtoull_dec:
  assumes "n < 2 ^ 64" "base = 0 \<or> base = 10" "stops_digits 10 rest" "base = 0 \<Longrightarrow> n = 0 \<Longrightarrow> rest = []"
    "base = 0 \<Longrightarrow> rest = []"
  shows "strtoull base (fmt_dec n @ rest) = Some (of_nat n, rest, False)"
proof (cases "n = 0 \<and> base = 0")
  case True
  with assms show ?thesis
    by (simp add: fmt_dec_zero strtoull_def is_space_def char_code_def number_base_def
        starts_digit_def digit_val_def)
next
  case False
  obtain d ds where d: "fmt_dec n = hex_lower d # ds" "d < 10" "d = 0 \<longrightarrow> n = 0"
    using fmt_dec_Cons by blast
  have d16: "d < 16" using d by simp
  have sp: "dropWhile is_space (fmt_dec n @ rest) = fmt_dec n @ rest"
    using d d16 by (simp add: hex_lower_plain)
  have sg: "strip_sign (fmt_dec n @ rest) = (False, fmt_dec n @ rest)"
    using d d16 by (simp add: hex_lower_plain)
  have no0x: "base = 0 \<Longrightarrow> strip_0x (fmt_dec n @ rest) = None"
    using assms(5) fmt_dec_set[of _ n] by (intro strip_0x_digits) (auto, force)
  have nb: "number_base base (fmt_dec n @ rest) = (10, fmt_dec n @ rest)"
    using assms(2) no0x False d d16 hex_lower_zero[OF d16]
    by (auto simp: number_base_def)
  have st: "starts_digit 10 (fmt_dec n @ rest)"
    using d d16 by (simp add: starts_digit_def)
  show ?thesis
    unfolding strtoull_def sp sg using assms st nb
    by (simp add: scan_digits_fmt_dec)
qed

lemma stoull_hex:
  assumes "n < 2 ^ 64"
  shows "stoull 16 (fmt_hex n) = Some (of_nat n)"
proof -
  obtain d ds where d: "fmt_hex n = hex_lower d # ds" "d < 16"
    using fmt_hex_Cons by blast
  have no0x: "strip_0x (fmt_hex n) = None"
    using fmt_hex_set by (rule strip_0x_digits)
  have "strtoull 16 (fmt_hex n) = Some (of_nat n, [], False)"
    using assms d no0x scan_digits_fmt_hex[of "[]" n]
    by (simp add: strtoull_def hex_lower_plain number_base_def starts_digit_def)
  then show ?thesis by (simp add: stoull_def)
qed

section \<open>Members of std::string\<close>

definition is_blank :: "char \<Rightarrow> bool" where
  "is_blank c = (c = CHR '' '' \<or> c = CHR 0x09)"

definition rtrim :: "(char \<Rightarrow> bool) \<Rightarrow> string \<Rightarrow> string" where
  "rtrim p s = rev (dropWhile p (rev s))"

definition trim_blank :: "string \<Rightarrow> string" where
  "trim_blank s = rtrim is_blank (dropWhile is_blank s)"

fun split_first :: "char \<Rightarrow> string \<Rightarrow> (string \<times> string) option" where
  "split_first c [] = None"
| "split_first c (x # xs) =
     (if x = c then Some ([], xs)
      else (case split_first c xs of None \<Rightarrow> None | Some (a, b) \<Rightarrow> Some (x # a, b)))"

lemma split_first_append [text_simps]:
  "c \<notin> set a \<Longrightarrow> split_first c (a @ c # b) = Some (a, b)"
  by (induction a) auto

lemma split_first_None [text_simps]: "split_first c s = None \<longleftrightarrow> c \<notin> set s"
  by (induction s) (auto split: option.splits)

lemma split_first_Some: "split_first c s = Some (a, b) \<Longrightarrow> s = a @ c # b \<and> c \<notin> set a"
  by (induction s arbitrary: a b) (auto split: if_splits option.splits)

text \<open>The lines \<^verbatim>\<open>std::getline\<close> reads with the delimiter \<open>c\<close>.\<close>

function getlines :: "char \<Rightarrow> string \<Rightarrow> string list" where
  "getlines c s =
     (if s = [] then []
      else case split_first c s of None \<Rightarrow> [s] | Some (l, rest) \<Rightarrow> l # getlines c rest)"
  by pat_completeness auto
termination
  by (relation "measure (\<lambda>(c, s). length s)") (auto dest: split_first_Some)

declare getlines.simps [simp del]

lemma getlines_Nil [simp]: "getlines c [] = []"
  by (simp add: getlines.simps)

lemma getlines_Cons: "c \<notin> set l \<Longrightarrow> getlines c (l @ c # rest) = l # getlines c rest"
  by (subst getlines.simps) (simp add: split_first_append)

lemma length_trim_blank: "length (trim_blank s) \<le> length s"
  using length_dropWhile_le[of is_blank s]
    length_dropWhile_le[of is_blank "rev (dropWhile is_blank s)"]
  by (simp add: trim_blank_def rtrim_def)

lemma rtrim_id: "s = [] \<or> \<not> p (last s) \<Longrightarrow> rtrim p s = s"
  by (cases s rule: rev_cases) (auto simp: rtrim_def)

lemma trim_blank_id:
  "s = [] \<or> (\<not> is_blank (hd s) \<and> \<not> is_blank (last s)) \<Longrightarrow> trim_blank s = s"
  by (cases s) (auto simp: trim_blank_def rtrim_id)

lemma trim_blank_hd: "trim_blank s \<noteq> [] \<Longrightarrow> \<not> is_blank (hd (trim_blank s))"
proof (cases "dropWhile is_blank s")
  case (Cons x xs)
  then have nx: "\<not> is_blank x" using hd_dropWhile[of is_blank s] by force
  then have "dropWhile is_blank (rev xs @ [x]) = dropWhile is_blank (rev xs) @ [x]"
    by (simp add: dropWhile_append)
  with Cons nx show ?thesis by (simp add: trim_blank_def rtrim_def)
qed (simp add: trim_blank_def rtrim_def)

end
