(* ===== verification/Value_Codec.thy ===== *)
theory Value_Codec
  imports Text_Format
begin

text \<open>
  Value codecs of \<^verbatim>\<open>src/src/core/value_codec.hpp\<close>: the reversible transform between the logical
  value the user works with and the obfuscated value in memory (xor, add, rotate), on a width of
  1 to 8 bytes, its textual form \<^verbatim>\<open>xor:0x..\<close>, \<^verbatim>\<open>add:N\<close>, and the interface \<open>reversible\<close> that the
  scalar transform of \<open>Value_Transform\<close> relies on.  Widths outside 1..8 make the C++ shifts
  undefined; the lemmas are about 1..8.
\<close>

datatype codec_op = OpNone | OpXor | OpAdd | OpRol | OpRor

record ValueCodec =
  cop :: codec_op
  ckey :: u64

definition maskFor :: "nat \<Rightarrow> u64" where
  "maskFor bytes = (if 8 \<le> bytes then - 1 else push_bit (bytes * 8) 1 - 1)"

definition rotl :: "u64 \<Rightarrow> u32 \<Rightarrow> nat \<Rightarrow> u64" where
  "rotl v0 n0 bytes =
     (let w = bytes * 8; n = unat n0 mod w; m = maskFor bytes; v = v0 AND m in
      if n \<noteq> 0 then (push_bit n v OR drop_bit (w - n) v) AND m else v)"

definition rotr :: "u64 \<Rightarrow> u32 \<Rightarrow> nat \<Rightarrow> u64" where
  "rotr v0 n0 bytes =
     (let w = bytes * 8; n = unat n0 mod w; m = maskFor bytes; v = v0 AND m in
      if n \<noteq> 0 then (drop_bit n v OR push_bit (w - n) v) AND m else v)"

definition encode :: "ValueCodec \<Rightarrow> u64 \<Rightarrow> nat \<Rightarrow> u64" where
  "encode c logical bytes =
     (let m = maskFor bytes; v = logical AND m in
      case cop c of
        OpNone \<Rightarrow> v
      | OpXor \<Rightarrow> (v XOR ckey c) AND m
      | OpAdd \<Rightarrow> (v + ckey c) AND m
      | OpRol \<Rightarrow> rotl v (ucast (ckey c)) bytes
      | OpRor \<Rightarrow> rotr v (ucast (ckey c)) bytes)"

definition decode :: "ValueCodec \<Rightarrow> u64 \<Rightarrow> nat \<Rightarrow> u64" where
  "decode c stored bytes =
     (let m = maskFor bytes; v = stored AND m in
      case cop c of
        OpNone \<Rightarrow> v
      | OpXor \<Rightarrow> (v XOR ckey c) AND m
      | OpAdd \<Rightarrow> (v - ckey c) AND m
      | OpRol \<Rightarrow> rotr v (ucast (ckey c)) bytes
      | OpRor \<Rightarrow> rotl v (ucast (ckey c)) bytes)"

definition active :: "ValueCodec \<Rightarrow> bool" where
  "active c = (cop c \<noteq> OpNone)"

definition c_str_end :: "string \<Rightarrow> bool" where
  "c_str_end s = (case s of [] \<Rightarrow> True | c # _ \<Rightarrow> c = CHR 0x00)"

definition codec_op_of_name :: "string \<Rightarrow> codec_op option" where
  "codec_op_of_name name =
     (if name = ''xor'' then Some OpXor
      else if name = ''add'' then Some OpAdd
      else if name = ''rol'' then Some OpRol
      else if name = ''ror'' then Some OpRor
      else None)"

definition parse_codec :: "string \<Rightarrow> ValueCodec option" where
  "parse_codec spec =
     (case split_first (CHR '':'') spec of
        None \<Rightarrow> None
      | Some (name, arg) \<Rightarrow>
          if arg = [] then None
          else (case strtoull 0 arg of
                  None \<Rightarrow> None
                | Some (key, end, erange) \<Rightarrow>
                    if \<not> c_str_end end \<or> erange then None
                    else (case codec_op_of_name name of
                            None \<Rightarrow> None
                          | Some op \<Rightarrow> Some \<lparr>cop = op, ckey = key\<rparr>)))"

definition describe :: "ValueCodec \<Rightarrow> string" where
  "describe c =
     (case cop c of
        OpNone \<Rightarrow> ''none''
      | OpXor \<Rightarrow> ''xor:0x'' @ fmt_hex (unat (ckey c))
      | OpAdd \<Rightarrow> ''add:'' @ fmt_dec (unat (ckey c))
      | OpRol \<Rightarrow> ''rol:'' @ fmt_dec (unat (ckey c))
      | OpRor \<Rightarrow> ''ror:'' @ fmt_dec (unat (ckey c)))"

section \<open>Widths and rotations\<close>

lemma maskFor_mask: "maskFor n = mask (8 * n)"
proof (cases "8 \<le> n")
  case True
  then have "mask (8 * n) = (- 1 :: u64)"
    by (intro bit_eqI) (auto simp: bit_simps)
  with True show ?thesis by (simp add: maskFor_def)
next
  case False
  then show ?thesis
    by (simp add: maskFor_def mask_eq_exp_minus_1 push_bit_eq_mult mult.commute)
qed

lemma and_maskFor: "v AND maskFor n = take_bit (8 * n) v"
  by (simp add: maskFor_mask take_bit_eq_mask)

lemma bit_rotl:
  assumes "1 \<le> n" "n \<le> 8"
  shows "bit (rotl v k n) i \<longleftrightarrow>
    i < 8 * n \<and> bit v (if unat k mod (8 * n) \<le> i then i - unat k mod (8 * n)
                         else i + 8 * n - unat k mod (8 * n))"
proof -
  have "unat k mod (8 * n) < 8 * n" using assms by simp
  then show ?thesis
    using assms
    by (auto simp: rotl_def Let_def and_maskFor bit_simps algebra_simps)
qed

lemma bit_rotr:
  assumes "1 \<le> n" "n \<le> 8"
  shows "bit (rotr v k n) i \<longleftrightarrow>
    i < 8 * n \<and> bit v (if i + unat k mod (8 * n) < 8 * n then i + unat k mod (8 * n)
                         else i + unat k mod (8 * n) - 8 * n)"
proof -
  have q: "unat k mod (8 * n) < 8 * n" using assms by simp
  then have "i < 8 * n \<Longrightarrow> i + unat k mod (8 * n) - 8 * n < 8 * n" by linarith
  with q show ?thesis
    using assms
    by (auto simp: rotr_def Let_def and_maskFor bit_simps mult.commute[of n 8] add.commute)
qed

lemma rotr_rotl:
  assumes "1 \<le> n" "n \<le> 8"
  shows "rotr (rotl v k n) k n = take_bit (8 * n) v"
proof (rule bit_eqI)
  fix i
  obtain q where q: "unat k mod (8 * n) = q" "q < 8 * n" using assms by simp
  have "i + q - 8 * n < q" if "i < 8 * n" "\<not> i + q < 8 * n"
    using that q by linarith
  then show "bit (rotr (rotl v k n) k n) i = bit (take_bit (8 * n) v) i"
    using assms q by (auto simp: bit_rotl bit_rotr bit_simps)
qed

lemma rotl_rotr:
  assumes "1 \<le> n" "n \<le> 8"
  shows "rotl (rotr v k n) k n = take_bit (8 * n) v"
proof (rule bit_eqI)
  fix i
  obtain q where q: "unat k mod (8 * n) = q" "q < 8 * n" using assms by simp
  have lo: "i + 8 * n - q + q = i + 8 * n" if "i < 8 * n" "\<not> q \<le> i"
    using that q by linarith
  show "bit (rotl (rotr v k n) k n) i = bit (take_bit (8 * n) v) i"
    using assms q lo by (auto simp: bit_rotl bit_rotr bit_simps)
qed

lemma rot_take_bit:
  assumes "1 \<le> n" "n \<le> 8"
  shows "rotl (take_bit (8 * n) v) k n = rotl v k n"
    and "rotr (take_bit (8 * n) v) k n = rotr v k n"
  by (simp_all add: rotl_def rotr_def and_maskFor)

lemma rot_bounded:
  assumes "1 \<le> n" "n \<le> 8"
  shows "take_bit (8 * n) (rotl v k n) = rotl v k n"
    and "take_bit (8 * n) (rotr v k n) = rotr v k n"
  using assms by (auto intro!: bit_eqI simp: bit_rotl bit_rotr bit_simps)

lemmas rot_simps = rotr_rotl rotl_rotr rot_take_bit rot_bounded

lemma take_bit_cancel_add:
  "take_bit m (take_bit m (take_bit m v + k) - k) = take_bit m (v :: u64)"
proof -
  have "take_bit m (take_bit m (take_bit m v + k) + (- k)) =
      take_bit m (take_bit m (take_bit m (take_bit m v + k)) + take_bit m (- k))"
    by (simp only: take_bit_word_add)
  also have "\<dots> = take_bit m (take_bit m v + k + (- k))"
    by (simp only: take_bit_word_add take_bit_take_bit min.idem)
  finally show ?thesis by simp
qed

lemma take_bit_cancel_sub:
  "take_bit m (take_bit m (take_bit m v - k) + k) = take_bit m (v :: u64)"
  using take_bit_cancel_add[of m v "- k"] by simp

section \<open>The interface: a reversible transform on a byte width\<close>

locale reversible =
  fixes enc :: "'c \<Rightarrow> u64 \<Rightarrow> nat \<Rightarrow> u64"
    and dec :: "'c \<Rightarrow> u64 \<Rightarrow> nat \<Rightarrow> u64"
  assumes dec_enc: "1 \<le> n \<Longrightarrow> n \<le> 8 \<Longrightarrow> dec c (enc c v n) n = take_bit (8 * n) v"
    and enc_dec: "1 \<le> n \<Longrightarrow> n \<le> 8 \<Longrightarrow> enc c (dec c v n) n = take_bit (8 * n) v"
    and enc_bounded: "1 \<le> n \<Longrightarrow> n \<le> 8 \<Longrightarrow> take_bit (8 * n) (enc c v n) = enc c v n"
    and dec_bounded: "1 \<le> n \<Longrightarrow> n \<le> 8 \<Longrightarrow> take_bit (8 * n) (dec c v n) = dec c v n"
begin

lemma dec_stored_bytes:
  "1 \<le> n \<Longrightarrow> n \<le> 8 \<Longrightarrow>
   dec c (le_val (le_bytes n (enc c v n))) n = take_bit (8 * n) v"
  by (simp add: le_val_le_bytes enc_bounded dec_enc)

lemma enc_loaded_bytes:
  "length bs = n \<Longrightarrow> 1 \<le> n \<Longrightarrow> n \<le> 8 \<Longrightarrow> le_bytes n (enc c (dec c (le_val bs) n) n) = bs"
  using le_bytes_le_val[of bs, where 'a = 64]
  by (simp add: enc_dec le_bytes_take_bit)

lemma enc_inj:
  "1 \<le> n \<Longrightarrow> n \<le> 8 \<Longrightarrow> enc c v n = enc c v' n \<Longrightarrow> take_bit (8 * n) v = take_bit (8 * n) v'"
  by (metis dec_enc)

end

lemma decode_encode:
  "1 \<le> n \<Longrightarrow> n \<le> 8 \<Longrightarrow> decode c (encode c v n) n = take_bit (8 * n) v"
  by (cases "cop c")
    (simp_all add: encode_def decode_def Let_def and_maskFor rot_simps take_bit_cancel_add xor.assoc)

lemma encode_decode:
  "1 \<le> n \<Longrightarrow> n \<le> 8 \<Longrightarrow> encode c (decode c v n) n = take_bit (8 * n) v"
  by (cases "cop c")
    (simp_all add: encode_def decode_def Let_def and_maskFor rot_simps take_bit_cancel_sub xor.assoc)

interpretation vc: reversible encode decode
  by unfold_locales
    (simp add: decode_encode, simp add: encode_decode,
      auto simp: encode_def decode_def Let_def and_maskFor rot_simps split: codec_op.splits)

section \<open>Properties\<close>

text \<open>
  C14: for every operation, key and width of 1 to 8 bytes, decoding the stored form of a value
  gives the value back, truncated to the width.
\<close>

theorem codec_roundtrip:
  assumes "1 \<le> n" and "n \<le> 8"
  shows "decode c (encode c v n) n = v AND maskFor n \<and> encode c (decode c v n) n = v AND maskFor n"
  using assms by (simp add: vc.dec_enc vc.enc_dec and_maskFor)

theorem codec_roundtrip_witness:
  "decode \<lparr>cop = OpRol, ckey = 37\<rparr> (encode \<lparr>cop = OpRol, ckey = 37\<rparr> 0x12345 2) 2 = 0x2345"
  using codec_roundtrip[of 2 "\<lparr>cop = OpRol, ckey = 37\<rparr>" "0x12345"]
  by (simp add: maskFor_def push_bit_eq_mult)

lemma describe_parse_aux: "c_str_end []"
  by (simp add: c_str_end_def)

lemma parse_dec:
  assumes "codec_op_of_name name = Some op" "CHR '':'' \<notin> set name"
  shows "parse_codec (name @ CHR '':'' # fmt_dec (unat (k :: u64))) = Some \<lparr>cop = op, ckey = k\<rparr>"
proof -
  have ne: "fmt_dec (unat k) \<noteq> []" using fmt_dec_Cons[of "unat k"] by auto
  have bnd: "unat k < 2 ^ 64" using unat_u64_less[of k] by simp
  have st: "strtoull 0 (fmt_dec (unat k)) = Some (k, [], False)"
    using strtoull_dec[of "unat k" 0 "[]"] bnd by simp
  show ?thesis
    using assms ne by (simp add: parse_codec_def split_first_append st describe_parse_aux)
qed

lemma parse_hex:
  assumes "codec_op_of_name name = Some op" "CHR '':'' \<notin> set name"
  shows "parse_codec (name @ CHR '':'' # CHR ''0'' # CHR ''x'' # fmt_hex (unat (k :: u64))) =
    Some \<lparr>cop = op, ckey = k\<rparr>"
proof -
  have bnd: "unat k < 2 ^ 64" using unat_u64_less[of k] by simp
  have st: "strtoull 0 (CHR ''0'' # CHR ''x'' # fmt_hex (unat k)) = Some (k, [], False)"
    using strtoull_0x_hex[of "unat k" 0 "[]"] bnd by simp
  show ?thesis
    using assms by (simp add: parse_codec_def split_first_append st describe_parse_aux)
qed

text \<open>
  the textual form of an active codec is read back as the same codec (operation and full
  64-bit key); the inactive codec prints \<^verbatim>\<open>none\<close>, which is not accepted.
\<close>

theorem parse_describe:
  "parse_codec (describe c) = (if active c then Some c else None)"
proof (cases "cop c")
  case OpNone
  then show ?thesis by (simp add: describe_def active_def parse_codec_def)
next
  case OpXor
  then show ?thesis
    using parse_hex[of "''xor''" OpXor "ckey c"]
    by (simp add: describe_def active_def codec_op_of_name_def)
next
  case OpAdd
  then show ?thesis
    using parse_dec[of "''add''" OpAdd "ckey c"]
    by (simp add: describe_def active_def codec_op_of_name_def)
next
  case OpRol
  then show ?thesis
    using parse_dec[of "''rol''" OpRol "ckey c"]
    by (simp add: describe_def active_def codec_op_of_name_def)
next
  case OpRor
  then show ?thesis
    using parse_dec[of "''ror''" OpRor "ckey c"]
    by (simp add: describe_def active_def codec_op_of_name_def)
qed

end
