(* ===== verification/Core_Types.thy ===== *)
theory Core_Types
  imports Text_Format
begin

text \<open>
  The core types of \<^verbatim>\<open>src/src/core/types.hpp\<close> and \<^verbatim>\<open>types.cpp\<close> (memory protection, regions,
  modules, value types, freeze modes), the module-relative display of an address, the pane choice
  of \<^verbatim>\<open>core/memview_nav.hpp\<close>, and the flag decoding of \<^verbatim>\<open>arch/cpu_flags.hpp\<close>.
  Addresses are 64-bit words, so \<^verbatim>\<open>base + size\<close> wraps around as it does in the code.
\<close>

section \<open>Types\<close>

type_synonym MemProt = u32

definition ProtNone :: MemProt where "ProtNone = 0"
definition ProtRead :: MemProt where "ProtRead = 1"
definition ProtWrite :: MemProt where "ProtWrite = 2"
definition ProtExec :: MemProt where "ProtExec = 4"

definition prot_or :: "MemProt \<Rightarrow> MemProt \<Rightarrow> MemProt" where
  "prot_or a b = a OR b"

definition prot_and :: "MemProt \<Rightarrow> MemProt \<Rightarrow> bool" where
  "prot_and a b = (a AND b \<noteq> 0)"

datatype MemState = StateFree | Committed
datatype MemType = Private | Mapped | Image

record MemoryRegion =
  r_base :: u64
  r_size :: u64
  r_protection :: MemProt
  r_type :: MemType
  r_state :: MemState
  r_path :: string

record ModuleInfo =
  m_base :: u64
  m_size :: u64
  m_name :: string
  m_path :: string
  m_is64bit :: bool

datatype ValueType =
  VByte | VInt16 | VInt32 | VInt64 | VFloat | VDouble | VString | VUnicodeString
  | VByteArray | VBinary | VAll | VGrouped | VCustom | VPointer

fun valueTypeName :: "ValueType \<Rightarrow> string" where
  "valueTypeName VByte = ''Byte''"
| "valueTypeName VInt16 = ''2 Bytes''"
| "valueTypeName VInt32 = ''4 Bytes''"
| "valueTypeName VInt64 = ''8 Bytes''"
| "valueTypeName VFloat = ''Float''"
| "valueTypeName VDouble = ''Double''"
| "valueTypeName VString = ''String''"
| "valueTypeName VUnicodeString = ''Unicode String''"
| "valueTypeName VByteArray = ''Array of byte''"
| "valueTypeName VBinary = ''Binary''"
| "valueTypeName VAll = ''All''"
| "valueTypeName VGrouped = ''Grouped''"
| "valueTypeName VCustom = ''Custom''"
| "valueTypeName VPointer = ''Pointer''"

datatype FreezeMode = Normal | IncreaseOnly | DecreaseOnly | NeverIncrease | NeverDecrease

fun freezeShouldWrite :: "FreezeMode \<Rightarrow> 'a::ord \<Rightarrow> 'a \<Rightarrow> bool" where
  "freezeShouldWrite IncreaseOnly current frozen = (current < frozen)"
| "freezeShouldWrite NeverDecrease current frozen = (current < frozen)"
| "freezeShouldWrite DecreaseOnly current frozen = (frozen < current)"
| "freezeShouldWrite NeverIncrease current frozen = (frozen < current)"
| "freezeShouldWrite Normal current frozen = True"

datatype MemViewPane = Disassembler | HexDump

definition chooseMemViewPane :: "bool \<Rightarrow> bool \<Rightarrow> bool \<Rightarrow> MemViewPane" where
  "chooseMemViewPane executable shiftHeld ctrlHeld =
     (if shiftHeld then Disassembler
      else if ctrlHeld then HexDump
      else if executable then Disassembler else HexDump)"

section \<open>Regions and modules that hold an address\<close>

definition region_holds :: "MemoryRegion \<Rightarrow> u64 \<Rightarrow> bool" where
  "region_holds r addr = (r_base r \<le> addr \<and> addr < r_base r + r_size r)"

definition module_holds :: "ModuleInfo \<Rightarrow> u64 \<Rightarrow> bool" where
  "module_holds m addr = (m_base m \<le> addr \<and> addr < m_base m + m_size m)"

definition best_step :: "u64 \<Rightarrow> ModuleInfo \<Rightarrow> ModuleInfo option \<Rightarrow> ModuleInfo option" where
  "best_step addr m best =
     (if m_size m = 0 then best
      else if module_holds m addr
      then (case best of
              None \<Rightarrow> Some m
            | Some b \<Rightarrow> if m_size m < m_size b then Some m else best)
      else best)"

definition best_module :: "ModuleInfo list \<Rightarrow> u64 \<Rightarrow> ModuleInfo option" where
  "best_module modules addr = fold (best_step addr) modules None"

text \<open>\<^verbatim>\<open>name.find_last_of('/')\<close> and the \<^verbatim>\<open>substr\<close> after it.\<close>

definition after_last :: "char \<Rightarrow> string \<Rightarrow> string" where
  "after_last c s = rev (takeWhile (\<lambda>x. x \<noteq> c) (rev s))"

definition moduleOffsetString :: "ModuleInfo list \<Rightarrow> u64 \<Rightarrow> string" where
  "moduleOffsetString modules addr =
     (case best_module modules addr of
        None \<Rightarrow> ''''
      | Some b \<Rightarrow>
          after_last (CHR ''/'') (if m_name b \<noteq> '''' then m_name b else m_path b)
          @ ''+0x'' @ fmt_hex_upper (unat (addr - m_base b)))"

lemma best_step_fold:
  assumes "fold (best_step addr) ms acc = Some b"
    and "\<And>x. acc = Some x \<Longrightarrow> module_holds x addr \<and> m_size x \<noteq> 0"
  shows "(b \<in> set ms \<or> acc = Some b) \<and> module_holds b addr \<and> m_size b \<noteq> 0 \<and>
    (\<forall>x. acc = Some x \<longrightarrow> m_size b \<le> m_size x) \<and>
    (\<forall>x \<in> set ms. module_holds x addr \<and> m_size x \<noteq> 0 \<longrightarrow> m_size b \<le> m_size x)"
  using assms
proof (induction ms arbitrary: acc)
  case Nil
  then show ?case by auto
next
  case (Cons m ms)
  let ?acc = "best_step addr m acc"
  have pre: "\<And>x. ?acc = Some x \<Longrightarrow> module_holds x addr \<and> m_size x \<noteq> 0"
    using Cons.prems(2) by (auto simp: best_step_def split: if_splits option.splits)
  have ih: "(b \<in> set ms \<or> ?acc = Some b) \<and> module_holds b addr \<and> m_size b \<noteq> 0 \<and>
    (\<forall>x. ?acc = Some x \<longrightarrow> m_size b \<le> m_size x) \<and>
    (\<forall>x \<in> set ms. module_holds x addr \<and> m_size x \<noteq> 0 \<longrightarrow> m_size b \<le> m_size x)"
    using Cons.IH[of ?acc] Cons.prems(1) pre by simp
  have le: "m_size b \<le> m_size y" if "?acc = Some y" for y
    using ih that by blast
  show ?case
    using ih le
    by (auto simp: best_step_def not_less split: if_splits option.splits)
qed

lemma best_step_None:
  "fold (best_step addr) ms acc = None \<longleftrightarrow>
     acc = None \<and> (\<forall>x \<in> set ms. module_holds x addr \<longrightarrow> m_size x = 0)"
  by (induction ms arbitrary: acc) (auto simp: best_step_def split: option.splits)

lemma holds_word_offset:
  assumes "base \<le> addr" "addr < base + (sz :: u64)"
  shows "unat base + unat sz < 2 ^ 64 \<Longrightarrow> unat (addr - base) < unat sz"
proof -
  assume bnd: "unat base + unat sz < 2 ^ 64"
  have "unat (base + sz) = unat base + unat sz"
    using bnd by (simp add: unat_word_ariths)
  moreover have "unat (addr - base) = unat addr - unat base"
    using assms(1) by (simp add: unat_sub word_le_nat_alt)
  ultimately show "unat (addr - base) < unat sz"
    using assms by (simp add: word_less_nat_alt word_le_nat_alt)
qed

text \<open>
  the module-relative text of an address names a smallest non-empty module that contains the
  address, followed by the offset from its base in upper-case hexadecimal, and is empty exactly
  when no non-empty module contains the address.
\<close>

theorem moduleOffsetString_smallest:
  "(moduleOffsetString modules addr = '''' \<longrightarrow>
      (\<forall>m \<in> set modules. module_holds m addr \<longrightarrow> m_size m = 0)) \<and>
   (\<forall>m0 \<in> set modules. module_holds m0 addr \<and> m_size m0 \<noteq> 0 \<longrightarrow>
      (\<exists>b \<in> set modules. module_holds b addr \<and> m_size b \<le> m_size m0 \<and>
         moduleOffsetString modules addr =
           after_last (CHR ''/'') (if m_name b \<noteq> '''' then m_name b else m_path b)
           @ ''+0x'' @ fmt_hex_upper (unat (addr - m_base b))))"
proof (cases "best_module modules addr")
  case None
  then have "\<forall>m \<in> set modules. module_holds m addr \<longrightarrow> m_size m = 0"
    using best_step_None[of addr modules None] by (simp add: best_module_def)
  then show ?thesis by auto
next
  case (Some b)
  have "b \<in> set modules \<and> module_holds b addr \<and>
      (\<forall>x \<in> set modules. module_holds x addr \<and> m_size x \<noteq> 0 \<longrightarrow> m_size b \<le> m_size x)"
    using best_step_fold[of addr modules None b] Some by (simp add: best_module_def)
  then show ?thesis
    using Some unfolding moduleOffsetString_def by auto
qed

definition demo_module :: "u64 \<Rightarrow> u64 \<Rightarrow> string \<Rightarrow> ModuleInfo" where
  "demo_module b s n = \<lparr>m_base = b, m_size = s, m_name = n, m_path = n, m_is64bit = True\<rparr>"

lemma moduleOffsetString_example:
  "moduleOffsetString [demo_module 0x1000 0x8000 ''/usr/lib/outer.so'',
     demo_module 0x2000 0x1000 ''/opt/inner.so''] 0x2ABC = ''inner.so+0xABC''"
  by code_simp

theorem moduleOffsetString_smallest_witness:
  "\<exists>b \<in> {demo_module 0x1000 0x8000 ''/usr/lib/outer.so'', demo_module 0x2000 0x1000 ''/opt/inner.so''}.
     module_holds b 0x2ABC \<and> m_size b \<le> 0x8000"
  using moduleOffsetString_smallest[of "[demo_module 0x1000 0x8000 ''/usr/lib/outer.so'',
     demo_module 0x2000 0x1000 ''/opt/inner.so'']" "0x2ABC"]
  by (auto simp: demo_module_def module_holds_def)

section \<open>Freezing\<close>

definition freeze_apply :: "FreezeMode \<Rightarrow> 'a::ord \<Rightarrow> 'a \<Rightarrow> 'a" where
  "freeze_apply mode current frozen = (if freezeShouldWrite mode current frozen then frozen else current)"

text \<open>
  re-writing a frozen value when \<^verbatim>\<open>freezeShouldWrite\<close> says so clamps the value: the two
  floor modes keep it at or above the frozen value, the two ceiling modes at or below, and the
  normal mode pins it; a value that already satisfies the bound is left alone.
\<close>

theorem freeze_clamps:
  fixes current frozen :: "'a::linorder"
  shows "freeze_apply mode current frozen =
    (case mode of
       Normal \<Rightarrow> frozen
     | IncreaseOnly \<Rightarrow> max current frozen | NeverDecrease \<Rightarrow> max current frozen
     | DecreaseOnly \<Rightarrow> min current frozen | NeverIncrease \<Rightarrow> min current frozen)"
  by (cases mode) (auto simp: freeze_apply_def max_def min_def)

end
