(* ===== verification/Cpu_Flags.thy ===== *)
theory Cpu_Flags
  imports Cheat_Prelude
begin

text \<open>
  The x86 flag decoder of \<^verbatim>\<open>src/src/arch/cpu_flags.hpp\<close>: the named flags of an RFLAGS value and
  whether a conditional jump is taken.  The specification of a conditional jump is the comparison
  that set the flags: \<open>cmp_flags\<close> gives the flags the processor sets for \<^verbatim>\<open>cmp a, b\<close> on 64-bit
  operands, and the decoder's answer is the unsigned or signed comparison the mnemonic names.
\<close>

definition eflag_table :: "(nat \<times> string) list" where
  "eflag_table =
     [(0, ''CF''), (2, ''PF''), (4, ''AF''), (6, ''ZF''), (7, ''SF''), (8, ''TF''), (9, ''IF''),
      (10, ''DF''), (11, ''OF'')]"

definition add_flag :: "u64 \<Rightarrow> nat \<times> string \<Rightarrow> string \<Rightarrow> string" where
  "add_flag rflags f out =
     (if rflags AND push_bit (fst f) 1 \<noteq> 0
      then (if out \<noteq> '''' then out @ '' '' else out) @ snd f else out)"

definition describeEflags :: "u64 \<Rightarrow> string" where
  "describeEflags rflags = fold (add_flag rflags) eflag_table ''''"

definition eflag_table_verbose :: "(nat \<times> string) list" where
  "eflag_table_verbose =
     [(0, ''CF''), (2, ''PF''), (4, ''AF''), (6, ''ZF''), (7, ''SF''), (10, ''DF''), (11, ''OF'')]"

definition add_flag_verbose :: "u64 \<Rightarrow> nat \<times> string \<Rightarrow> string \<Rightarrow> string" where
  "add_flag_verbose rflags f out =
     (if out \<noteq> '''' then out @ '' '' else out) @ snd f @
     (if rflags AND push_bit (fst f) 1 \<noteq> 0 then ''=1'' else ''=0'')"

definition describeEflagsVerbose :: "u64 \<Rightarrow> string" where
  "describeEflagsVerbose rflags = fold (add_flag_verbose rflags) eflag_table_verbose ''''"

definition flag_at :: "u64 \<Rightarrow> nat \<Rightarrow> bool" where
  "flag_at rflags n = (rflags AND push_bit n 1 \<noteq> 0)"

definition conditionalJumpTaken :: "string \<Rightarrow> u64 \<Rightarrow> bool option" where
  "conditionalJumpTaken m rflags =
     (let cf = flag_at rflags 0; pf = flag_at rflags 2; zf = flag_at rflags 6;
          sf = flag_at rflags 7; ovf = flag_at rflags 11 in
      if m = ''jmp'' then Some True
      else if m = ''je'' \<or> m = ''jz'' then Some zf
      else if m = ''jne'' \<or> m = ''jnz'' then Some (\<not> zf)
      else if m = ''js'' then Some sf
      else if m = ''jns'' then Some (\<not> sf)
      else if m = ''jo'' then Some ovf
      else if m = ''jno'' then Some (\<not> ovf)
      else if m = ''jp'' \<or> m = ''jpe'' then Some pf
      else if m = ''jnp'' \<or> m = ''jpo'' then Some (\<not> pf)
      else if m = ''jc'' \<or> m = ''jb'' \<or> m = ''jnae'' then Some cf
      else if m = ''jnc'' \<or> m = ''jae'' \<or> m = ''jnb'' then Some (\<not> cf)
      else if m = ''ja'' \<or> m = ''jnbe'' then Some (\<not> cf \<and> \<not> zf)
      else if m = ''jbe'' \<or> m = ''jna'' then Some (cf \<or> zf)
      else if m = ''jg'' \<or> m = ''jnle'' then Some (\<not> zf \<and> sf = ovf)
      else if m = ''jge'' \<or> m = ''jnl'' then Some (sf = ovf)
      else if m = ''jl'' \<or> m = ''jnge'' then Some (sf \<noteq> ovf)
      else if m = ''jle'' \<or> m = ''jng'' then Some (zf \<or> sf \<noteq> ovf)
      else None)"

lemma flag_at_bit: "flag_at rflags n = bit rflags n"
  by (simp add: flag_at_def push_bit_eq_mult and_exp_eq_0_iff_not_bit)

section \<open>The flags a comparison sets\<close>

definition cmp_overflow :: "u64 \<Rightarrow> u64 \<Rightarrow> bool" where
  "cmp_overflow a b = (sint (a - b) \<noteq> sint a - sint b)"

definition cmp_flags :: "u64 \<Rightarrow> u64 \<Rightarrow> u64 \<Rightarrow> bool" where
  "cmp_flags a b rflags \<longleftrightarrow>
     (bit rflags 0 \<longleftrightarrow> a < b) \<and> (bit rflags 6 \<longleftrightarrow> a - b = 0) \<and>
     (bit rflags 7 \<longleftrightarrow> sint (a - b) < 0) \<and> (bit rflags 11 \<longleftrightarrow> cmp_overflow a b)"

lemma sint_range_u64: "- (2 ^ 63) \<le> sint (a :: u64)" "sint (a :: u64) < 2 ^ 63"
  using sint_greater_eq[of a] sint_less[of a] by simp_all

lemma sint_diff_cases:
  "sint (a - b :: u64) = sint a - sint b \<or>
   sint (a - b) = sint a - sint b - 2 ^ 64 \<and> 2 ^ 63 \<le> sint a - sint b \<or>
   sint (a - b) = sint a - sint b + 2 ^ 64 \<and> sint a - sint b < - (2 ^ 63)"
proof -
  have eq: "sint (a - b) = signed_take_bit 63 (sint a - sint b)"
    by (simp add: sint_word_ariths)
  define d where "d = sint a - sint b"
  have rng: "- (2 ^ 64) < d" "d < 2 ^ 64"
    using sint_range_u64[of a] sint_range_u64[of b] by (simp_all add: d_def)
  consider "d < - (2 ^ 63)" | "- (2 ^ 63) \<le> d \<and> d < 2 ^ 63" | "2 ^ 63 \<le> d" by linarith
  then have "signed_take_bit 63 d = d \<or> signed_take_bit 63 d = d - 2 ^ 64 \<and> 2 ^ 63 \<le> d \<or>
      signed_take_bit 63 d = d + 2 ^ 64 \<and> d < - (2 ^ 63)"
  proof cases
    case 1
    have "(d + 2 ^ 63) mod 2 ^ 64 = (d + 2 ^ 63 + 2 ^ 64) mod 2 ^ 64"
      by (rule mod_add_self2 [symmetric])
    also have "\<dots> = d + 2 ^ 63 + 2 ^ 64"
      using 1 rng by (intro mod_pos_pos_trivial) simp_all
    finally show ?thesis
      using 1 by (simp add: signed_take_bit_eq_take_bit_shift take_bit_eq_mod)
  next
    case 2
    then show ?thesis
      by (simp add: signed_take_bit_int_eq_self)
  next
    case 3
    have "(d + 2 ^ 63) mod 2 ^ 64 = (d + 2 ^ 63 - 2 ^ 64) mod 2 ^ 64"
      by (rule minus_mod_self2 [symmetric])
    also have "\<dots> = d + 2 ^ 63 - 2 ^ 64"
      using 3 rng by (intro mod_pos_pos_trivial) simp_all
    finally show ?thesis
      using 3 by (simp add: signed_take_bit_eq_take_bit_shift take_bit_eq_mod)
  qed
  then show ?thesis using eq by (simp add: d_def)
qed

lemma sign_neq_overflow: "((sint (a - b) < 0) \<noteq> cmp_overflow a b) \<longleftrightarrow> sint a < sint (b :: u64)"
  using sint_diff_cases[of a b] sint_range_u64[of "a - b"] sint_range_u64[of a] sint_range_u64[of b]
  by (auto simp: cmp_overflow_def)

text \<open>
  on the flags a 64-bit comparison of \<open>a\<close> with \<open>b\<close> sets, the decoder says that \<^verbatim>\<open>je\<close>,
  \<^verbatim>\<open>jb\<close>, \<^verbatim>\<open>jbe\<close>, \<^verbatim>\<open>ja\<close>, \<^verbatim>\<open>jae\<close> branch on the unsigned order and \<^verbatim>\<open>jl\<close>, \<^verbatim>\<open>jle\<close>, \<^verbatim>\<open>jg\<close>, \<^verbatim>\<open>jge\<close>
  on the signed order of the operands.
\<close>

theorem jump_taken_after_cmp:
  assumes "cmp_flags a b rflags"
  shows "conditionalJumpTaken ''je'' rflags = Some (a = b) \<and>
    conditionalJumpTaken ''jne'' rflags = Some (a \<noteq> b) \<and>
    conditionalJumpTaken ''jb'' rflags = Some (a < b) \<and>
    conditionalJumpTaken ''jae'' rflags = Some (b \<le> a) \<and>
    conditionalJumpTaken ''ja'' rflags = Some (b < a) \<and>
    conditionalJumpTaken ''jbe'' rflags = Some (a \<le> b) \<and>
    conditionalJumpTaken ''jl'' rflags = Some (sint a < sint b) \<and>
    conditionalJumpTaken ''jge'' rflags = Some (sint b \<le> sint a) \<and>
    conditionalJumpTaken ''jg'' rflags = Some (sint b < sint a) \<and>
    conditionalJumpTaken ''jle'' rflags = Some (sint a \<le> sint b)"
proof -
  have cf: "flag_at rflags 0 = (a < b)" and zf: "flag_at rflags 6 = (a = b)"
    and so: "(flag_at rflags 7 \<noteq> flag_at rflags 11) = (sint a < sint b)"
    using assms sign_neq_overflow[of a b] by (auto simp: flag_at_bit cmp_flags_def)
  have eqs: "a = b \<longleftrightarrow> sint a = sint b" by (simp add: word_eq_iff_signed)
  note flags = conditionalJumpTaken_def Let_def cf zf
  have unsigned: "conditionalJumpTaken ''je'' rflags = Some (a = b) \<and>
    conditionalJumpTaken ''jne'' rflags = Some (a \<noteq> b) \<and>
    conditionalJumpTaken ''jb'' rflags = Some (a < b) \<and>
    conditionalJumpTaken ''jae'' rflags = Some (b \<le> a) \<and>
    conditionalJumpTaken ''ja'' rflags = Some (b < a) \<and>
    conditionalJumpTaken ''jbe'' rflags = Some (a \<le> b)"
    by (auto simp: flags not_less)
  have signed: "conditionalJumpTaken ''jl'' rflags = Some (sint a < sint b) \<and>
    conditionalJumpTaken ''jge'' rflags = Some (sint b \<le> sint a)"
    using so by (auto simp: flags not_less)
  have signed_strict: "conditionalJumpTaken ''jg'' rflags = Some (sint b < sint a) \<and>
    conditionalJumpTaken ''jle'' rflags = Some (sint a \<le> sint b)"
    using so eqs by (auto simp: flags)
  show ?thesis using unsigned signed signed_strict by blast
qed

theorem jump_taken_after_cmp_witness:
  "conditionalJumpTaken ''jl'' 0x81 = Some (sint (3 :: u64) < sint (5 :: u64))"
proof -
  have "cmp_flags 3 5 0x81"
    by (simp add: cmp_flags_def cmp_overflow_def bit_simps)
  then show ?thesis using jump_taken_after_cmp[of 3 5 "0x81"] by blast
qed

end
