(* ===== verification/Value_Transform.thy ===== *)
theory Value_Transform
  imports Value_Codec Core_Types
begin

text \<open>
  The scalar value transform of \<^verbatim>\<open>src/src/core/value_transform.hpp\<close>: stored bytes, possibly
  big-endian and obfuscated by a codec, against the logical value; and the textual form of an
  integer value with its parser.  The transform relies on its codec only through the interface
  \<open>reversible\<close>: the round trips are \<open>vc.dec_stored_bytes\<close> and \<open>vc.enc_loaded_bytes\<close>.
  Formatting of floating-point values is left out: it is \<^verbatim>\<open>snprintf\<close> of the C library.
\<close>

fun scalarWidth :: "ValueType \<Rightarrow> nat" where
  "scalarWidth VByte = 1"
| "scalarWidth VInt16 = 2"
| "scalarWidth VInt32 = 4"
| "scalarWidth VFloat = 4"
| "scalarWidth VInt64 = 8"
| "scalarWidth VDouble = 8"
| "scalarWidth VPointer = 8"
| "scalarWidth _ = 0"

definition isIntegerScalar :: "ValueType \<Rightarrow> bool" where
  "isIntegerScalar t = (t = VByte \<or> t = VInt16 \<or> t = VInt32 \<or> t = VInt64)"

definition decodeScalarBits :: "ValueType \<Rightarrow> bytes \<Rightarrow> bool \<Rightarrow> ValueCodec \<Rightarrow> u64" where
  "decodeScalarBits t stored bigEndian codec =
     (let w = scalarWidth t in
      if w = 0 then 0
      else
        let buf = take w stored;
            buf = (if bigEndian \<and> 1 < w then rev buf else buf);
            raw = le_val buf
        in if active codec \<and> isIntegerScalar t then decode codec raw w else raw)"

definition encodeScalarBits :: "ValueType \<Rightarrow> u64 \<Rightarrow> bool \<Rightarrow> ValueCodec \<Rightarrow> bytes" where
  "encodeScalarBits t logicalBits bigEndian codec =
     (let w = scalarWidth t in
      if w = 0 then []
      else
        let raw = (if active codec \<and> isIntegerScalar t then encode codec logicalBits w else logicalBits);
            out = le_bytes w raw
        in if bigEndian \<and> 1 < w then rev out else out)"

definition integer_text :: "u64 \<Rightarrow> nat \<Rightarrow> int" where
  "integer_text u width =
     (if width = 1 then sint (ucast u :: u8)
      else if width = 2 then sint (ucast u :: u16)
      else if width = 4 then sint (ucast u :: u32)
      else sint u)"

definition formatIntegerScalar :: "u64 \<Rightarrow> int \<Rightarrow> bool \<Rightarrow> bool \<Rightarrow> string" where
  "formatIntegerScalar bits width0 isSigned hex =
     (let width1 = (if width0 < 1 then 1 else width0);
          width = nat (if 8 < width1 then 8 else width1);
          mask = (if 8 \<le> width then - 1 else push_bit (width * 8) 1 - 1);
          u = bits AND mask
      in if hex then ''0x'' @ fmt_hex (unat u)
         else if isSigned then fmt_int (integer_text u width)
         else fmt_dec (unat u))"

fun parse_int_digits :: "nat \<Rightarrow> u64 \<Rightarrow> string \<Rightarrow> u64 option" where
  "parse_int_digits base val [] = Some val"
| "parse_int_digits base val (c # cs) =
     (case (if is_xdigit c then digit_val c else None) of
        None \<Rightarrow> None
      | Some d \<Rightarrow> if base \<le> d then None
                  else parse_int_digits base (val * of_nat base + of_nat d) cs)"

text \<open>
  \<^verbatim>\<open>parseIntegerScalar\<close> returns the value when it sets \<^verbatim>\<open>ok\<close>, and \<open>None\<close> when it leaves
  \<^verbatim>\<open>ok\<close> false.
\<close>

definition parse_magnitude :: "bool \<Rightarrow> string \<Rightarrow> u64 option" where
  "parse_magnitude hex t =
     (let prefix = (1 < length t \<and> t ! 0 = CHR ''0'' \<and> (t ! 1 = CHR ''x'' \<or> t ! 1 = CHR ''X''));
          base = (if prefix then 16 else if hex then 16 else 10);
          digits = (if prefix then drop 2 t else t)
      in if digits = [] then None else parse_int_digits base 0 digits)"

definition parseIntegerScalar :: "string \<Rightarrow> bool \<Rightarrow> u64 option" where
  "parseIntegerScalar s hex =
     (let t = trim_blank s in
      if t = [] then None
      else
        let neg = (hd t = CHR ''-'')
        in map_option (\<lambda>v. if neg then - v else v)
             (parse_magnitude hex (if hd t = CHR ''-'' \<or> hd t = CHR ''+'' then tl t else t)))"

section \<open>Stored bytes\<close>

lemma scalarWidth_le: "scalarWidth t \<le> 8"
  by (cases t) simp_all

lemma isInteger_width: "isIntegerScalar t \<Longrightarrow> 1 \<le> scalarWidth t"
  by (auto simp: isIntegerScalar_def)

lemma length_encodeScalarBits [simp]: "length (encodeScalarBits t v be c) = scalarWidth t"
  by (simp add: encodeScalarBits_def Let_def)

lemma decodeScalarBits_cases:
  assumes "length stored = scalarWidth t" "scalarWidth t \<noteq> 0"
  shows "decodeScalarBits t stored be c =
    (if active c \<and> isIntegerScalar t
     then decode c (le_val (if be \<and> 1 < scalarWidth t then rev stored else stored)) (scalarWidth t)
     else le_val (if be \<and> 1 < scalarWidth t then rev stored else stored))"
  using assms by (simp add: decodeScalarBits_def Let_def)

lemma encodeScalarBits_cases:
  assumes "scalarWidth t \<noteq> 0"
  shows "encodeScalarBits t v be c =
    (if be \<and> 1 < scalarWidth t then rev else (\<lambda>x. x))
      (le_bytes (scalarWidth t)
        (if active c \<and> isIntegerScalar t then encode c v (scalarWidth t) else v))"
  using assms by (simp add: encodeScalarBits_def Let_def)

text \<open>
  decoding the bytes written for a logical value returns that value truncated to the width of
  its type, whatever the byte order and codec.
\<close>

theorem scalar_store_load:
  "decodeScalarBits t (encodeScalarBits t v be c) be c = take_bit (8 * scalarWidth t) v"
proof (cases "scalarWidth t = 0")
  case True
  then show ?thesis by (simp add: decodeScalarBits_def)
next
  case False
  then have w: "1 \<le> scalarWidth t" by simp
  have undo: "(if be \<and> 1 < scalarWidth t then rev (encodeScalarBits t v be c) else encodeScalarBits t v be c) =
      le_bytes (scalarWidth t)
        (if active c \<and> isIntegerScalar t then encode c v (scalarWidth t) else v)"
    by (simp add: encodeScalarBits_cases[OF False])
  show ?thesis
    unfolding decodeScalarBits_cases[OF length_encodeScalarBits False] undo
    using vc.dec_stored_bytes[OF w scalarWidth_le, of c v]
    by (cases "active c"; cases "isIntegerScalar t") (simp_all add: le_val_le_bytes)
qed

text \<open>
  writing back the logical value decoded from stored bytes reproduces the stored bytes, so an
  edit that keeps the value never changes memory.
\<close>

theorem scalar_load_store:
  assumes "length stored = scalarWidth t"
  shows "encodeScalarBits t (decodeScalarBits t stored be c) be c = stored"
proof (cases "scalarWidth t = 0")
  case True
  with assms show ?thesis by (simp add: encodeScalarBits_def)
next
  case False
  then have w: "1 \<le> scalarWidth t" by simp
  define b where "b = (if be \<and> 1 < scalarWidth t then rev stored else stored)"
  have len: "length b = scalarWidth t" using assms by (simp add: b_def)
  have enc: "le_bytes (scalarWidth t) (encode c (decode c (le_val b) (scalarWidth t)) (scalarWidth t)) = b"
    by (rule vc.enc_loaded_bytes[OF len w scalarWidth_le])
  have raw: "le_bytes (scalarWidth t) (le_val b :: u64) = b"
    using le_bytes_le_val[of b, where 'a = 64] len scalarWidth_le[of t] by simp
  have dec: "decodeScalarBits t stored be c =
      (if active c \<and> isIntegerScalar t then decode c (le_val b) (scalarWidth t) else le_val b)"
    unfolding b_def by (rule decodeScalarBits_cases[OF assms False])
  have "le_bytes (scalarWidth t)
     (if active c \<and> isIntegerScalar t
      then encode c (decodeScalarBits t stored be c) (scalarWidth t)
      else decodeScalarBits t stored be c) = b"
    by (cases "active c"; cases "isIntegerScalar t") (simp_all add: dec enc raw)
  then show ?thesis
    unfolding encodeScalarBits_cases[OF False] by (simp add: b_def)
qed

theorem scalar_load_store_witness:
  "encodeScalarBits VInt16 (decodeScalarBits VInt16 [0x12, 0x34] True \<lparr>cop = OpXor, ckey = 0xFF\<rparr>)
     True \<lparr>cop = OpXor, ckey = 0xFF\<rparr> = [0x12, 0x34]"
  by (rule scalar_load_store) simp

section \<open>Integer text\<close>

lemma parse_int_digits_nat_digits:
  assumes "2 \<le> b" "b \<le> 16"
  shows "parse_int_digits b acc (map hex_lower (nat_digits b n) @ rest) =
    parse_int_digits b (acc * of_nat (b ^ length (nat_digits b n)) + of_nat n) rest"
  using assms
proof (induction b n arbitrary: acc rest rule: nat_digits.induct)
  case (1 b n)
  show ?case
  proof (cases "n < b")
    case True
    with "1.prems" show ?thesis by (simp add: nat_digits_small)
  next
    case False
    have m: "n mod b < b" using "1.prems" by simp
    then have m16: "n mod b < 16" using "1.prems" by linarith
    have eq: "nat_digits b n = nat_digits b (n div b) @ [n mod b]"
      using False "1.prems" by (subst nat_digits.simps) simp
    have sp: "of_nat n = (of_nat (n div b) * of_nat b + of_nat (n mod b) :: u64)"
      by (simp flip: of_nat_mult of_nat_add)
    show ?thesis
      using "1.IH"[of acc "hex_lower (n mod b) # rest"] False "1.prems" m m16
      by (simp add: eq sp algebra_simps)
  qed
qed

lemma parse_int_hex: "parse_int_digits 16 0 (fmt_hex n) = Some (of_nat n)"
  using parse_int_digits_nat_digits[of 16 0 n "[]"] by (simp add: fmt_hex_def)

lemma parse_int_dec: "parse_int_digits 10 0 (fmt_dec n) = Some (of_nat n)"
  using parse_int_digits_nat_digits[of 10 0 n "[]"] by (simp add: fmt_dec_def)

lemma not_blank_hex_lower: "d < 16 \<Longrightarrow> \<not> is_blank (hex_lower d)"
  by (drule less_16_cases) (auto simp: is_blank_def hex_lower_def)

lemma fmt_last_plain:
  "\<not> is_blank (last (fmt_hex n))" "\<not> is_blank (last (fmt_dec n))"
  "\<not> is_blank (hd (fmt_hex n))" "\<not> is_blank (hd (fmt_dec n))"
proof -
  have ne: "fmt_hex n \<noteq> []" "fmt_dec n \<noteq> []"
    using fmt_hex_Cons[of n] fmt_dec_Cons[of n] by auto
  show "\<not> is_blank (last (fmt_hex n))" "\<not> is_blank (hd (fmt_hex n))"
    using fmt_hex_set[OF last_in_set[OF ne(1)]] fmt_hex_set[OF hd_in_set[OF ne(1)]]
    by (auto simp: not_blank_hex_lower)
  show "\<not> is_blank (last (fmt_dec n))" "\<not> is_blank (hd (fmt_dec n))"
    using fmt_dec_set[OF last_in_set[OF ne(2)]] fmt_dec_set[OF hd_in_set[OF ne(2)]]
    by (force simp: not_blank_hex_lower)+
qed

lemma fmt_dec_no_prefix:
  "(1 < length (fmt_dec n) \<and> fmt_dec n ! 0 = CHR ''0'' \<and>
      (fmt_dec n ! 1 = CHR ''x'' \<or> fmt_dec n ! 1 = CHR ''X'')) = False"
proof (rule iffI)
  assume h: "1 < length (fmt_dec n) \<and> fmt_dec n ! 0 = CHR ''0'' \<and>
      (fmt_dec n ! 1 = CHR ''x'' \<or> fmt_dec n ! 1 = CHR ''X'')"
  then have "fmt_dec n ! 1 \<in> set (fmt_dec n)" by auto
  then obtain d where "d < 10" "fmt_dec n ! 1 = hex_lower d"
    using fmt_dec_set by blast
  with h show False by (auto simp: hex_lower_plain)
qed simp

lemma parse_magnitude_dec: "parse_magnitude False (fmt_dec n) = Some (of_nat n)"
proof -
  have "fmt_dec n \<noteq> []" using fmt_dec_Cons[of n] by auto
  then show ?thesis
    unfolding parse_magnitude_def Let_def fmt_dec_no_prefix by (simp add: parse_int_dec)
qed

lemma parse_magnitude_0x: "parse_magnitude h (''0x'' @ fmt_hex n) = Some (of_nat n)"
  using fmt_hex_Cons[of n] by (auto simp: parse_magnitude_def Let_def parse_int_hex)

lemma parse_format_hex: "parseIntegerScalar (''0x'' @ fmt_hex n) h = Some (of_nat n)"
proof -
  have ne: "fmt_hex n \<noteq> []" using fmt_hex_Cons[of n] by auto
  then have "trim_blank (''0x'' @ fmt_hex n) = ''0x'' @ fmt_hex n"
    using fmt_last_plain by (intro trim_blank_id) (auto simp: is_blank_def)
  then show ?thesis
    using parse_magnitude_0x[of h n] by (simp add: parseIntegerScalar_def)
qed

lemma parse_format_dec: "parseIntegerScalar (fmt_dec n) False = Some (of_nat n)"
proof -
  obtain d ds where d: "fmt_dec n = hex_lower d # ds" "d < 10"
    using fmt_dec_Cons by blast
  have d16: "d < 16" using d by simp
  have tr: "trim_blank (fmt_dec n) = fmt_dec n"
    using fmt_last_plain by (intro trim_blank_id) auto
  have hd: "hd (fmt_dec n) \<noteq> CHR ''-''" "hd (fmt_dec n) \<noteq> CHR ''+''" "fmt_dec n \<noteq> []"
    using d hex_lower_plain[OF d16] by auto
  show ?thesis
    using hd parse_magnitude_dec[of n] by (simp add: parseIntegerScalar_def tr)
qed

lemma parse_format_neg: "parseIntegerScalar (CHR ''-'' # fmt_dec n) False = Some (- of_nat n)"
proof -
  have ne: "fmt_dec n \<noteq> []" using fmt_dec_Cons[of n] by auto
  then have tr: "trim_blank (CHR ''-'' # fmt_dec n) = CHR ''-'' # fmt_dec n"
    using fmt_last_plain by (intro trim_blank_id) (auto simp: is_blank_def)
  show ?thesis
    using parse_magnitude_dec[of n] by (simp add: parseIntegerScalar_def tr)
qed

lemma parse_format_int: "parseIntegerScalar (fmt_int i) False = Some (of_int i)"
proof (cases "i < 0")
  case True
  then have "of_nat (nat (- i)) = (- of_int i :: u64)" by simp
  with True parse_format_neg[of "nat (- i)"] show ?thesis by (simp add: fmt_int_def)
next
  case False
  then show ?thesis using parse_format_dec[of "nat i"] by (simp add: fmt_int_def)
qed

lemma scast_ucast_low_bits:
  "LENGTH('a) = 8 * w \<Longrightarrow>
   take_bit (8 * w) (scast (ucast (u :: u64) :: 'a::len word) :: u64) = take_bit (8 * w) u"
  by (intro bit_eqI) (auto simp: bit_simps)

lemma integer_text_bits:
  assumes "w \<in> {1, 2, 4, 8}"
  shows "take_bit (8 * w) (of_int (integer_text u w) :: u64) = take_bit (8 * w) u"
proof -
  consider "w = 1" | "w = 2" | "w = 4" | "w = 8" using assms by blast
  then show ?thesis
  proof cases
    case 1
    then show ?thesis
      using scast_ucast_low_bits[where 'a = 8, of 1 u] by (simp only: integer_text_def scast_eq) simp
  next
    case 2
    then show ?thesis
      using scast_ucast_low_bits[where 'a = 16, of 2 u] by (simp only: integer_text_def scast_eq) simp
  next
    case 3
    then show ?thesis
      using scast_ucast_low_bits[where 'a = 32, of 4 u] by (simp only: integer_text_def scast_eq) simp
  next
    case 4
    then show ?thesis by (simp add: integer_text_def)
  qed
qed

text \<open>
  the text shown for an integer of 1, 2, 4 or 8 bytes, in hexadecimal, signed or unsigned
  decimal, is read back by the parser with the same flag as a value with the same bits.
\<close>

theorem integer_text_roundtrip:
  assumes "w \<in> {1, 2, 4, 8}"
  shows "\<exists>r. parseIntegerScalar (formatIntegerScalar bits (int w) isSigned hex) hex = Some r \<and>
             take_bit (8 * w) r = take_bit (8 * w) bits"
proof -
  have m: "(if 8 \<le> w then - 1 else push_bit (w * 8) 1 - 1) = (mask (8 * w) :: u64)"
    using maskFor_mask[of w] unfolding maskFor_def .
  have wr: "nat (if 8 < (if int w < 1 then 1 else int w) then 8 else (if int w < 1 then 1 else int w)) = w"
    using assms by auto
  have fmt: "formatIntegerScalar bits (int w) isSigned hex =
    (if hex then ''0x'' @ fmt_hex (unat (take_bit (8 * w) bits))
     else if isSigned then fmt_int (integer_text (take_bit (8 * w) bits) w)
     else fmt_dec (unat (take_bit (8 * w) bits)))"
    unfolding formatIntegerScalar_def Let_def wr m take_bit_eq_mask by (rule refl)
  consider (hex) "hex" | (signed) "\<not> hex" "isSigned" | (unsigned) "\<not> hex" "\<not> isSigned" by blast
  then show ?thesis
  proof cases
    case hex
    then show ?thesis unfolding fmt by (simp only: if_True parse_format_hex) simp
  next
    case signed
    then show ?thesis
      unfolding fmt using integer_text_bits[OF assms, of "take_bit (8 * w) bits"]
      by (simp only: if_True if_False parse_format_int) simp
  next
    case unsigned
    then show ?thesis unfolding fmt by (simp only: if_False parse_format_dec) simp
  qed
qed

theorem integer_text_roundtrip_witness:
  "\<exists>r. parseIntegerScalar (formatIntegerScalar 0xFFFE 2 True False) False = Some r \<and>
     take_bit 16 r = take_bit 16 (0xFFFE :: u64)"
  using integer_text_roundtrip[of 2 "0xFFFE" True False] by simp

end
