(* ===== verification/Address_Rows.thy ===== *)
theory Address_Rows
  imports Cheat_Prelude "HOL-Library.Multiset"
begin

text \<open>
  The row algorithms of the cheat table in \<^verbatim>\<open>src/src/core/address_list.hpp\<close>.  A table is a list
  of indent depths, one per row; a group is a row together with the contiguous rows after it that
  are deeper.  \<open>in_group\<close> is the specification of "row \<open>i\<close> is nested under row \<open>j\<close>"; the loops of
  the code (the range scan, the stack of collapsed groups, the block move, the grouping plan, the
  deletion closure) are related to it.
\<close>

section \<open>The range of a group\<close>

function desc_end :: "int list \<Rightarrow> int \<Rightarrow> nat \<Rightarrow> nat" where
  "desc_end indents parent e =
     (if e < length indents \<and> parent < indents ! e then desc_end indents parent (Suc e) else e)"
  by pat_completeness auto
termination
  by (relation "measure (\<lambda>(indents, parent, e). length indents - e)") auto

declare desc_end.simps [simp del]

definition descendantRange :: "int list \<Rightarrow> nat \<Rightarrow> nat \<times> nat" where
  "descendantRange indents row =
     (if length indents \<le> row then (row + 1, row + 1)
      else (row + 1, desc_end indents (indents ! row) (row + 1)))"

definition in_group :: "int list \<Rightarrow> nat \<Rightarrow> nat \<Rightarrow> bool" where
  "in_group indents j i \<longleftrightarrow>
     j < i \<and> i < length indents \<and> (\<forall>k. j < k \<and> k \<le> i \<longrightarrow> indents ! j < indents ! k)"

lemma desc_end_spec:
  "e \<le> length indents \<Longrightarrow>
   e \<le> desc_end indents p e \<and> desc_end indents p e \<le> length indents \<and>
   (\<forall>k. e \<le> k \<and> k < desc_end indents p e \<longrightarrow> p < indents ! k) \<and>
   (desc_end indents p e < length indents \<longrightarrow> indents ! desc_end indents p e \<le> p)"
proof (induction indents p e rule: desc_end.induct)
  case (1 indents p e)
  show ?case
  proof (cases "e < length indents \<and> p < indents ! e")
    case True
    then have "desc_end indents p e = desc_end indents p (Suc e)"
      by (subst desc_end.simps) simp
    moreover have "p < indents ! k"
      if "e \<le> k" "k < desc_end indents p (Suc e)" for k
      using that True "1.IH" by (cases "k = e") auto
    ultimately show ?thesis using "1.IH" True by auto
  next
    case False
    with "1.prems" show ?thesis by (subst (1 2 3 4 5) desc_end.simps) auto
  qed
qed

lemma descendantRange_in_group:
  "fst (descendantRange indents j) \<le> i \<and> i < snd (descendantRange indents j) \<longleftrightarrow> in_group indents j i"
proof (cases "length indents \<le> j")
  case True
  then show ?thesis by (auto simp: descendantRange_def in_group_def)
next
  case False
  then have sp: "j + 1 \<le> desc_end indents (indents ! j) (j + 1) \<and>
      desc_end indents (indents ! j) (j + 1) \<le> length indents \<and>
      (\<forall>k. j + 1 \<le> k \<and> k < desc_end indents (indents ! j) (j + 1) \<longrightarrow> indents ! j < indents ! k) \<and>
      (desc_end indents (indents ! j) (j + 1) < length indents \<longrightarrow>
        indents ! desc_end indents (indents ! j) (j + 1) \<le> indents ! j)"
    by (intro desc_end_spec) simp
  show ?thesis
  proof
    assume "fst (descendantRange indents j) \<le> i \<and> i < snd (descendantRange indents j)"
    then show "in_group indents j i"
      using False sp by (auto simp: descendantRange_def in_group_def)
  next
    assume g: "in_group indents j i"
    have "i < desc_end indents (indents ! j) (j + 1)"
    proof (rule ccontr)
      assume n: "\<not> ?thesis"
      then have "desc_end indents (indents ! j) (j + 1) < length indents"
        using g by (auto simp: in_group_def)
      then have "indents ! desc_end indents (indents ! j) (j + 1) \<le> indents ! j"
        using sp by blast
      moreover have "indents ! j < indents ! desc_end indents (indents ! j) (j + 1)"
        using g n sp by (auto simp: in_group_def)
      ultimately show False by simp
    qed
    then show "fst (descendantRange indents j) \<le> i \<and> i < snd (descendantRange indents j)"
      using g False by (auto simp: descendantRange_def in_group_def)
  qed
qed

lemma in_group_trans: "in_group xs a b \<Longrightarrow> in_group xs b c \<Longrightarrow> in_group xs a c"
  unfolding in_group_def
proof (intro conjI allI impI)
  assume ab: "a < b \<and> b < length xs \<and> (\<forall>k. a < k \<and> k \<le> b \<longrightarrow> xs ! a < xs ! k)"
    and bc: "b < c \<and> c < length xs \<and> (\<forall>k. b < k \<and> k \<le> c \<longrightarrow> xs ! b < xs ! k)"
  show "a < c" "c < length xs" using ab bc by auto
  fix k
  assume k: "a < k \<and> k \<le> c"
  show "xs ! a < xs ! k"
  proof (cases "k \<le> b")
    case True
    with k ab show ?thesis by blast
  next
    case False
    then have "xs ! b < xs ! k" using k bc by auto
    moreover have "xs ! a < xs ! b" using ab by auto
    ultimately show ?thesis by simp
  qed
qed

section \<open>Collapsed groups\<close>

fun hide_rows :: "bool list \<Rightarrow> nat \<Rightarrow> int list \<Rightarrow> int list \<Rightarrow> bool list" where
  "hide_rows collapsed i stack [] = []"
| "hide_rows collapsed i stack (d # ds) =
     (let stack = dropWhile (\<lambda>x. d \<le> x) stack in
      (stack \<noteq> []) #
      hide_rows collapsed (Suc i)
        (if i < length collapsed \<and> collapsed ! i then d # stack else stack) ds)"

text \<open>The head of the list is the back of the C++ stack \<^verbatim>\<open>activeCollapsedIndents\<close>.\<close>

definition hiddenByCollapse :: "int list \<Rightarrow> bool list \<Rightarrow> bool list" where
  "hiddenByCollapse indents collapsed = hide_rows collapsed 0 [] indents"

definition open_groups :: "bool list \<Rightarrow> int list \<Rightarrow> int set" where
  "open_groups collapsed pre =
     {pre ! j | j. j < length pre \<and> j < length collapsed \<and> collapsed ! j \<and>
                   (\<forall>k. j < k \<and> k < length pre \<longrightarrow> pre ! j < pre ! k)}"

lemma open_groups_snoc:
  "open_groups c (pre @ [d]) =
     {x \<in> open_groups c pre. x < d} \<union>
     (if length pre < length c \<and> c ! length pre then {d} else {})"
proof -
  have "x \<in> open_groups c (pre @ [d]) \<longleftrightarrow>
      (x \<in> open_groups c pre \<and> x < d) \<or> (x = d \<and> length pre < length c \<and> c ! length pre)" for x
  proof
    assume "x \<in> open_groups c (pre @ [d])"
    then obtain j where j: "x = (pre @ [d]) ! j" "j < Suc (length pre)" "j < length c" "c ! j"
      "\<forall>k. j < k \<and> k < Suc (length pre) \<longrightarrow> (pre @ [d]) ! j < (pre @ [d]) ! k"
      by (auto simp: open_groups_def)
    show "(x \<in> open_groups c pre \<and> x < d) \<or> (x = d \<and> length pre < length c \<and> c ! length pre)"
    proof (cases "j = length pre")
      case True
      with j show ?thesis by simp
    next
      case False
      then have lt: "j < length pre" using j by simp
      then have "x < d" using j(1) j(5)[rule_format, of "length pre"] by (simp add: nth_append)
      moreover have "pre ! j < pre ! k" if "j < k" "k < length pre" for k
        using j(5)[rule_format, of k] that lt by (simp add: nth_append)
      ultimately show ?thesis
        using j lt by (auto simp: open_groups_def nth_append)
    qed
  next
    assume "(x \<in> open_groups c pre \<and> x < d) \<or> (x = d \<and> length pre < length c \<and> c ! length pre)"
    then show "x \<in> open_groups c (pre @ [d])"
    proof
      assume "x \<in> open_groups c pre \<and> x < d"
      then obtain j where j: "x = pre ! j" "x < d" "j < length pre" "j < length c" "c ! j"
        "\<forall>k. j < k \<and> k < length pre \<longrightarrow> pre ! j < pre ! k"
        by (auto simp: open_groups_def)
      have "(pre @ [d]) ! j < (pre @ [d]) ! k" if "j < k" "k < Suc (length pre)" for k
        using that j by (cases "k = length pre") (auto simp: nth_append)
      then show ?thesis
        using j by (auto simp: open_groups_def nth_append intro!: exI[of _ j])
    next
      assume "x = d \<and> length pre < length c \<and> c ! length pre"
      then show ?thesis by (auto simp: open_groups_def nth_append intro!: exI[of _ "length pre"])
    qed
  qed
  then show ?thesis by auto
qed

lemma dropWhile_sorted_set:
  "sorted_wrt (>) (st :: int list) \<Longrightarrow> set (dropWhile (\<lambda>x. d \<le> x) st) = {x \<in> set st. x < d}"
  by (induction st) auto

lemma sorted_dropWhile: "sorted_wrt (>) (st :: int list) \<Longrightarrow> sorted_wrt (>) (dropWhile P st)"
  by (metis dropWhile_eq_drop sorted_wrt_drop)

lemma hide_rows_spec:
  assumes "sorted_wrt (>) stack" and "set stack = open_groups c pre"
  shows "length (hide_rows c (length pre) stack ds) = length ds \<and>
    (\<forall>i < length ds. hide_rows c (length pre) stack ds ! i \<longleftrightarrow>
       (\<exists>x \<in> open_groups c (pre @ take i ds). x < ds ! i))"
  using assms
proof (induction ds arbitrary: pre stack)
  case Nil
  then show ?case by simp
next
  case (Cons d ds)
  define st where "st = dropWhile (\<lambda>x. d \<le> x) stack"
  define st' where "st' = (if length pre < length c \<and> c ! length pre then d # st else st)"
  have set_st: "set st = {x \<in> open_groups c pre. x < d}"
    using Cons.prems by (simp add: st_def dropWhile_sorted_set)
  have srt: "sorted_wrt (>) st'"
    using set_st sorted_dropWhile[OF Cons.prems(1)] by (auto simp: st'_def st_def)
  have set_st': "set st' = open_groups c (pre @ [d])"
    using set_st by (auto simp: st'_def open_groups_snoc)
  define hrest where "hrest = hide_rows c (length (pre @ [d])) st' ds"
  have eq: "hide_rows c (length pre) stack (d # ds) = (st \<noteq> []) # hrest"
    by (simp add: st_def st'_def hrest_def Let_def)
  have hd: "(st \<noteq> []) \<longleftrightarrow> (\<exists>x \<in> open_groups c pre. x < d)"
  proof -
    have "st \<noteq> [] \<longleftrightarrow> set st \<noteq> {}" by simp
    also have "\<dots> \<longleftrightarrow> (\<exists>x \<in> open_groups c pre. x < d)" unfolding set_st by blast
    finally show ?thesis .
  qed
  have len: "length hrest = length ds"
    and tail: "\<And>i. i < length ds \<Longrightarrow>
      hrest ! i \<longleftrightarrow> (\<exists>x \<in> open_groups c ((pre @ [d]) @ take i ds). x < ds ! i)"
    using Cons.IH[OF srt set_st'] by (simp_all add: hrest_def)
  have "((st \<noteq> []) # hrest) ! i \<longleftrightarrow> (\<exists>x \<in> open_groups c (pre @ take i (d # ds)). x < (d # ds) ! i)"
    if "i < length (d # ds)" for i
  proof (cases i)
    case 0
    then show ?thesis using hd by simp
  next
    case (Suc i')
    then show ?thesis using tail[of i'] that by simp
  qed
  then show ?case unfolding eq using len by simp
qed

text \<open>
  C30: a row is hidden exactly when it lies in the subtree of some collapsed row; one pass with a
  stack of open collapsed groups computes it for nested and overlapping groups alike.
\<close>

theorem hiddenByCollapse_spec:
  "length (hiddenByCollapse indents collapsed) = length indents \<and>
   (\<forall>i < length indents. hiddenByCollapse indents collapsed ! i \<longleftrightarrow>
      (\<exists>j. j < length collapsed \<and> collapsed ! j \<and>
           fst (descendantRange indents j) \<le> i \<and> i < snd (descendantRange indents j)))"
proof -
  have spec: "length (hiddenByCollapse indents collapsed) = length indents \<and>
    (\<forall>i < length indents. hiddenByCollapse indents collapsed ! i \<longleftrightarrow>
       (\<exists>x \<in> open_groups collapsed (take i indents). x < indents ! i))"
    using hide_rows_spec[of "[]" collapsed "[]" indents]
    by (simp add: hiddenByCollapse_def open_groups_def)
  have "(\<exists>x \<in> open_groups collapsed (take i indents). x < indents ! i) \<longleftrightarrow>
      (\<exists>j. j < length collapsed \<and> collapsed ! j \<and> in_group indents j i)"
    if i: "i < length indents" for i
  proof
    assume "\<exists>x \<in> open_groups collapsed (take i indents). x < indents ! i"
    then obtain j where "j < i" "j < length collapsed" "collapsed ! j" "indents ! j < indents ! i"
      "\<forall>k. j < k \<and> k < i \<longrightarrow> indents ! j < indents ! k"
      using i by (auto simp: open_groups_def)
    then show "\<exists>j. j < length collapsed \<and> collapsed ! j \<and> in_group indents j i"
      using i by (auto simp: in_group_def le_less)
  next
    assume "\<exists>j. j < length collapsed \<and> collapsed ! j \<and> in_group indents j i"
    then obtain j where "j < length collapsed" "collapsed ! j" "in_group indents j i" by blast
    then show "\<exists>x \<in> open_groups collapsed (take i indents). x < indents ! i"
      using i by (auto simp: open_groups_def in_group_def intro!: exI[of _ "indents ! j"] exI[of _ j])
  qed
  then show ?thesis using spec unfolding descendantRange_in_group by auto
qed

theorem hiddenByCollapse_spec_witness:
  "hiddenByCollapse [0, 1, 2, 1, 0] [True, False, False, False, False] ! 2 \<longleftrightarrow>
     (\<exists>j. j < 5 \<and> [True, False, False, False, False] ! j \<and>
        fst (descendantRange [0, 1, 2, 1, 0] j) \<le> 2 \<and> 2 < snd (descendantRange [0, 1, 2, 1, 0] j))"
  using hiddenByCollapse_spec[of "[0, 1, 2, 1, 0]" "[True, False, False, False, False]"]
  by (simp add: numeral_eq_Suc)

section \<open>Moving a block of rows\<close>

definition moveRangePermutation :: "int \<Rightarrow> int \<Rightarrow> int \<Rightarrow> int \<Rightarrow> int list" where
  "moveRangePermutation cnt start len dest =
     (if cnt \<le> 0 \<or> len \<le> 0 \<or> start < 0 \<or> cnt < start + len then [0..cnt - 1]
      else
        let rest = filter (\<lambda>i. i < start \<or> start + len \<le> i) [0..cnt - 1];
            insertPos = length (takeWhile (\<lambda>r. r < dest) rest)
        in take insertPos rest @ [start..start + len - 1] @ drop insertPos rest)"

lemma upto_split3:
  assumes "0 \<le> (start::int)" "0 < len" "start + len \<le> cnt"
  shows "[0..cnt - 1] = [0..start - 1] @ [start..start + len - 1] @ [start + len..cnt - 1]"
proof -
  have "[0..cnt - 1] = [0..start - 1] @ [start..cnt - 1]"
    using assms by (intro upto_split1) simp_all
  moreover have "[start..cnt - 1] = [start..start + len - 1] @ [start + len..cnt - 1]"
  proof (cases "start + len = cnt")
    case False
    then show ?thesis using assms by (intro upto_split1) simp_all
  qed simp
  ultimately show ?thesis by simp
qed

lemma takeWhile_less_sorted:
  "sorted xs \<Longrightarrow> takeWhile (\<lambda>r. r < (d::int)) xs = filter (\<lambda>r. r < d) xs \<and>
     dropWhile (\<lambda>r. r < d) xs = filter (\<lambda>r. d \<le> r) xs"
proof (induction xs)
  case (Cons x xs)
  show ?case
  proof (cases "x < d")
    case True
    then show ?thesis using Cons by simp
  next
    case False
    then have "\<forall>y \<in> set xs. d \<le> y" using Cons.prems by auto
    then have "filter (\<lambda>r. r < d) xs = []" "filter (\<lambda>r. d \<le> r) xs = xs"
      by (auto simp: filter_empty_conv)
    then show ?thesis using False by simp
  qed
qed simp

text \<open>
  a valid move yields the rows below the drop row that are outside the block, then the block,
  then the other rows, each in the old order.
\<close>

theorem moveRange_layout:
  assumes "0 < len" and "0 \<le> start" and "start + len \<le> cnt"
  shows "moveRangePermutation cnt start len dest =
      filter (\<lambda>i. (i < start \<or> start + len \<le> i) \<and> i < dest) [0..cnt - 1]
      @ [start..start + len - 1]
      @ filter (\<lambda>i. (i < start \<or> start + len \<le> i) \<and> dest \<le> i) [0..cnt - 1] \<and>
    mset (moveRangePermutation cnt start len dest) = mset [0..cnt - 1]"
proof -
  define rest where "rest = filter (\<lambda>i. i < start \<or> start + len \<le> i) [0..cnt - 1]"
  have srt: "sorted rest" by (simp add: rest_def sorted_wrt_filter)
  have eq: "moveRangePermutation cnt start len dest =
      takeWhile (\<lambda>r. r < dest) rest @ [start..start + len - 1] @ dropWhile (\<lambda>r. r < dest) rest"
    using assms
    by (simp add: moveRangePermutation_def Let_def rest_def
        takeWhile_eq_take[symmetric] dropWhile_eq_drop[symmetric])
  have lay: "takeWhile (\<lambda>r. r < dest) rest = filter (\<lambda>i. (i < start \<or> start + len \<le> i) \<and> i < dest) [0..cnt - 1]"
    "dropWhile (\<lambda>r. r < dest) rest = filter (\<lambda>i. (i < start \<or> start + len \<le> i) \<and> dest \<le> i) [0..cnt - 1]"
    using takeWhile_less_sorted[OF srt, of dest] by (simp_all add: rest_def conj_commute)
  have "rest = [0..start - 1] @ [start + len..cnt - 1]"
    unfolding rest_def upto_split3[OF assms(2,1,3)]
    using assms by (auto simp: filter_id_conv filter_empty_conv)
  then have "mset rest + mset [start..start + len - 1] = mset [0..cnt - 1]"
    unfolding upto_split3[OF assms(2,1,3)] by simp
  moreover have "mset (moveRangePermutation cnt start len dest) = mset rest + mset [start..start + len - 1]"
  proof -
    have "mset rest = mset (takeWhile (\<lambda>r. r < dest) rest) + mset (dropWhile (\<lambda>r. r < dest) rest)"
      by (simp only: takeWhile_dropWhile_id flip: mset_append)
    then show ?thesis unfolding eq by simp
  qed
  ultimately show ?thesis using eq lay by simp
qed

theorem moveRange_layout_witness:
  "mset (moveRangePermutation 5 1 2 4) = mset [0..4]"
  using moveRange_layout[of 2 1 5 4, THEN conjunct2] by simp

lemma moveRange_identity:
  assumes "0 < len" "0 \<le> start" "start + len \<le> cnt" "start \<le> dest" "dest \<le> start + len"
  shows "moveRangePermutation cnt start len dest = [0..cnt - 1]"
proof -
  have "filter (\<lambda>i. (i < start \<or> start + len \<le> i) \<and> i < dest) [0..cnt - 1] = [0..start - 1]"
    "filter (\<lambda>i. (i < start \<or> start + len \<le> i) \<and> dest \<le> i) [0..cnt - 1] = [start + len..cnt - 1]"
    unfolding upto_split3[OF assms(2,1,3)]
    using assms by (auto simp: filter_id_conv filter_empty_conv)
  then show ?thesis
    using assms
      moveRange_layout[of len start cnt dest] upto_split3[OF assms(2,1,3)]
    by simp
qed

section \<open>Deleting groups\<close>

definition mark_group :: "int list \<Rightarrow> nat \<Rightarrow> bool list \<Rightarrow> bool list" where
  "mark_group indents r mark =
     (if length indents \<le> r then mark
      else
        let sub = descendantRange indents r
        in fold (\<lambda>i m. m[i := True]) [fst sub..<snd sub] (mark[r := True]))"

definition expandGroupDeletion :: "int list \<Rightarrow> nat list \<Rightarrow> nat list" where
  "expandGroupDeletion indents selected =
     (let mark = fold (mark_group indents) selected (replicate (length indents) False)
      in filter (\<lambda>i. mark ! i) [0..<length mark])"

lemma fold_set_true:
  "length (fold (\<lambda>i m. m[i := True]) is m) = length m \<and>
   (\<forall>k < length m. fold (\<lambda>i m. m[i := True]) is m ! k \<longleftrightarrow> m ! k \<or> k \<in> set is)"
proof (induction "is" arbitrary: m)
  case (Cons i "is")
  show ?case
    using Cons.IH[of "m[i := True]"]
    by (cases "i < length m") (auto simp: nth_list_update list_update_beyond)
qed simp

lemma mark_group_spec:
  assumes "length m = length indents"
  shows "length (mark_group indents r m) = length indents \<and>
    (\<forall>k < length indents. mark_group indents r m ! k \<longleftrightarrow>
       m ! k \<or> (r < length indents \<and> (k = r \<or> in_group indents r k)))"
proof (cases "length indents \<le> r")
  case True
  then show ?thesis using assms by (simp add: mark_group_def)
next
  case False
  show ?thesis
    using fold_set_true[of "[fst (descendantRange indents r)..<snd (descendantRange indents r)]" "m[r := True]"]
      False assms descendantRange_in_group[of indents r]
    by (auto simp: mark_group_def Let_def nth_list_update)
qed

lemma mark_groups_spec:
  assumes "length m = length indents"
  shows "length (fold (mark_group indents) sel m) = length indents \<and>
    (\<forall>k < length indents. fold (mark_group indents) sel m ! k \<longleftrightarrow>
       m ! k \<or> (\<exists>r \<in> set sel. r < length indents \<and> (k = r \<or> in_group indents r k)))"
  using assms
proof (induction sel arbitrary: m)
  case Nil
  then show ?case by simp
next
  case (Cons r sel)
  show ?case
    using mark_group_spec[OF Cons.prems, of r] Cons.IH[of "mark_group indents r m"] by auto
qed

text \<open>
  the rows removed for a selection, in ascending order and without repetition, are the
  selected rows and their subtrees; the set is closed under nesting, so no child of a removed
  group is left behind.
\<close>

theorem expandGroupDeletion_closed:
  "sorted (expandGroupDeletion indents selected) \<and> distinct (expandGroupDeletion indents selected) \<and>
   set (expandGroupDeletion indents selected) =
     {i. i < length indents \<and> (\<exists>r \<in> set selected. r < length indents \<and> (i = r \<or> in_group indents r i))} \<and>
   (\<forall>j \<in> set (expandGroupDeletion indents selected). \<forall>i. in_group indents j i \<longrightarrow>
      i \<in> set (expandGroupDeletion indents selected))"
proof -
  let ?mark = "fold (mark_group indents) selected (replicate (length indents) False)"
  have m: "length ?mark = length indents"
    "\<And>k. k < length indents \<Longrightarrow> ?mark ! k \<longleftrightarrow>
       (\<exists>r \<in> set selected. r < length indents \<and> (k = r \<or> in_group indents r k))"
    using mark_groups_spec[of "replicate (length indents) False" indents selected] by auto
  have st: "set (expandGroupDeletion indents selected) =
     {i. i < length indents \<and> (\<exists>r \<in> set selected. r < length indents \<and> (i = r \<or> in_group indents r i))}"
    using m by (auto simp: expandGroupDeletion_def Let_def)
  have cl: "i \<in> set (expandGroupDeletion indents selected)"
    if "j \<in> set (expandGroupDeletion indents selected)" "in_group indents j i" for i j
  proof -
    have "i < length indents" using that(2) by (simp add: in_group_def)
    then show ?thesis using that in_group_trans unfolding st by blast
  qed
  have "sorted (expandGroupDeletion indents selected)" "distinct (expandGroupDeletion indents selected)"
    by (simp_all add: expandGroupDeletion_def Let_def sorted_wrt_filter)
  with st cl show ?thesis by blast
qed

theorem expandGroupDeletion_closed_witness:
  "set (expandGroupDeletion [0, 1, 2, 0] [0]) =
     {i. i < 4 \<and> (\<exists>r \<in> {0}. r < 4 \<and> (i = r \<or> in_group [0, 1, 2, 0] r i))}"
  using expandGroupDeletion_closed[of "[0, 1, 2, 0]" "[0]"] by (simp add: numeral_eq_Suc)

section \<open>Grouping a selection\<close>

definition drop_out_of_range :: "nat \<Rightarrow> nat list \<Rightarrow> nat list" where
  "drop_out_of_range n xs = rev (dropWhile (\<lambda>s. n \<le> s) (rev xs))"

record GroupSelectionPlan =
  plan_order :: "int list"
  plan_indent :: "int list"

definition plan_row :: "int list \<Rightarrow> nat list \<Rightarrow> int \<Rightarrow> nat \<Rightarrow> nat \<Rightarrow> (int \<times> int) list" where
  "plan_row indents selected minSel insertAt i =
     (if i = insertAt
      then (- 1, minSel) # map (\<lambda>s. (int s, indents ! s + 1)) selected else [])
     @ (if i \<in> set selected then [] else [(int i, indents ! i)])"

text \<open>\<open>None\<close> is the plan with \<^verbatim>\<open>ok == false\<close> (both vectors empty).\<close>

definition groupSelection :: "int list \<Rightarrow> nat list \<Rightarrow> GroupSelectionPlan option" where
  "groupSelection indents selected0 =
     (let n = length indents;
          selected = drop_out_of_range n (remdups_adj (sort selected0))
      in if selected = [] then None
         else
           let insertAt = hd selected;
               minSel = fold (\<lambda>s m. min m (indents ! s)) selected (indents ! hd selected);
               rows = concat (map (plan_row indents selected minSel insertAt) [0..<n])
           in Some \<lparr>plan_order = map fst rows, plan_indent = map snd rows\<rparr>)"

lemma sorted_drop_out_of_range: "sorted xs \<Longrightarrow> drop_out_of_range n xs = filter (\<lambda>s. s < n) xs"
proof (induction xs rule: rev_induct)
  case (snoc x xs)
  show ?case
  proof (cases "n \<le> x")
    case True
    then show ?thesis using snoc by (simp add: drop_out_of_range_def sorted_append)
  next
    case False
    then have "\<forall>y \<in> set xs. y < n" using snoc.prems by (auto simp: sorted_append)
    then have "filter (\<lambda>s. s < n) xs = xs" by simp
    then show ?thesis using False by (simp add: drop_out_of_range_def)
  qed
qed (simp add: drop_out_of_range_def)

lemma sorted_remdups_adj_distinct: "sorted xs \<Longrightarrow> distinct (remdups_adj xs)"
proof (induction xs rule: remdups_adj.induct)
  case (3 x y xs)
  then show ?case by (cases "x = y") (auto simp: order.antisym)
qed simp_all

lemma fold_min_le:
  "s \<in> set xs \<Longrightarrow> fold (\<lambda>s m. min m (f s :: int)) xs a \<le> f s"
  "fold (\<lambda>s m. min m (f s :: int)) xs a \<le> a"
proof (induction xs arbitrary: a)
  case (Cons x xs)
  { case 1 show ?case
      using Cons.IH(1)[of "min a (f x)"] Cons.IH(2)[of "min a (f x)"] 1 by auto }
  { case 2 show ?case using Cons.IH(2)[of "min a (f x)"] by simp }
qed simp_all

lemma plan_rows_layout:
  assumes srt: "sorted sel" "distinct sel" and ne: "sel \<noteq> []" and rng: "\<forall>s \<in> set sel. s < length indents"
  shows "concat (map (plan_row indents sel m (hd sel)) [0..<length indents]) =
    map (\<lambda>i. (int i, indents ! i)) [0..<hd sel] @ (- 1, m) # map (\<lambda>s. (int s, indents ! s + 1)) sel
    @ map (\<lambda>i. (int i, indents ! i)) (filter (\<lambda>i. i \<notin> set sel) [hd sel..<length indents])"
proof -
  have h: "hd sel < length indents" "hd sel \<in> set sel" using rng ne by simp_all
  have least: "\<And>s. s \<in> set sel \<Longrightarrow> hd sel \<le> s"
    using srt ne by (cases sel) auto
  have split: "[0..<length indents] = [0..<hd sel] @ hd sel # [Suc (hd sel)..<length indents]"
    using h(1) by (rule upt_split_at)
  have before: "map (plan_row indents sel m (hd sel)) [0..<hd sel] =
      map (\<lambda>i. [(int i, indents ! i)]) [0..<hd sel]"
    using least by (intro map_cong) (auto simp: plan_row_def dest: leD)
  have after: "concat (map (plan_row indents sel m (hd sel)) xs) =
      map (\<lambda>i. (int i, indents ! i)) (filter (\<lambda>i. i \<notin> set sel) xs)" if "hd sel \<notin> set xs" for xs
    using that by (induction xs) (auto simp: plan_row_def)
  have at: "plan_row indents sel m (hd sel) (hd sel) =
      (- 1, m) # map (\<lambda>s. (int s, indents ! s + 1)) sel"
    using h by (simp add: plan_row_def)
  have up: "filter (\<lambda>i. i \<notin> set sel) [hd sel..<length indents] =
      filter (\<lambda>i. i \<notin> set sel) [Suc (hd sel)..<length indents]"
    using h by (simp add: upt_conv_Cons)
  have cm: "concat (map (\<lambda>i. [(int i, indents ! i)]) xs) = map (\<lambda>i. (int i, indents ! i)) xs" for xs
    by (induction xs) auto
  show ?thesis
    unfolding split up by (simp add: before after at cm del: upt_Suc)
qed

lemma groupSelection_Some:
  assumes "groupSelection indents selected = Some plan"
  obtains sel m where "sorted sel" "distinct sel" "sel \<noteq> []"
    "set sel = {s \<in> set selected. s < length indents}" "\<forall>s \<in> set sel. m \<le> indents ! s"
    "plan_order plan = map int [0..<hd sel] @ - 1 # map int sel
       @ map int (filter (\<lambda>i. i \<notin> set sel) [hd sel..<length indents])"
    "plan_indent plan = map ((!) indents) [0..<hd sel] @ m # map (\<lambda>s. indents ! s + 1) sel
       @ map ((!) indents) (filter (\<lambda>i. i \<notin> set sel) [hd sel..<length indents])"
proof -
  define sel where "sel = drop_out_of_range (length indents) (remdups_adj (sort selected))"
  define m where "m = fold (\<lambda>s m. min m (indents ! s)) sel (indents ! hd sel)"
  have srt: "sorted (remdups_adj (sort selected))" by (simp add: sorted_remdups_adj)
  have sel: "sel = filter (\<lambda>s. s < length indents) (remdups_adj (sort selected))"
    using srt by (simp add: sel_def sorted_drop_out_of_range)
  have p: "sorted sel" "distinct sel" "set sel = {s \<in> set selected. s < length indents}"
    using srt sorted_remdups_adj_distinct[of "sort selected"] by (auto simp: sel sorted_wrt_filter)
  have ne: "sel \<noteq> []" and plan: "plan = \<lparr>plan_order = map fst (concat (map (plan_row indents sel m (hd sel)) [0..<length indents])),
      plan_indent = map snd (concat (map (plan_row indents sel m (hd sel)) [0..<length indents]))\<rparr>"
    using assms by (auto simp: groupSelection_def Let_def sel_def[symmetric] m_def split: if_splits)
  have rng: "\<forall>s \<in> set sel. s < length indents" using p by simp
  have "\<forall>s \<in> set sel. m \<le> indents ! s"
    using fold_min_le(1)[where f = "\<lambda>s. indents ! s"] by (simp add: m_def)
  then show thesis
    using that[of sel m] p ne unfolding plan plan_rows_layout[OF p(1,2) ne rng]
    by (simp add: comp_def)
qed

lemma mset_filter_split: "mset (filter P xs) + mset (filter (\<lambda>x. \<not> P x) xs) = mset xs"
  by (induction xs) auto

text \<open>
  grouping a selection is a permutation of the rows plus one new header; every selected row
  ends up one level deeper and inside the subtree of the header, every other row keeps its indent.
\<close>

theorem groupSelection_plan:
  assumes "groupSelection indents selected = Some plan"
  shows "mset (plan_order plan) = add_mset (- 1) (mset (map int [0..<length indents])) \<and>
    length (plan_indent plan) = length (plan_order plan) \<and>
    (\<exists>h < length (plan_order plan). plan_order plan ! h = - 1 \<and>
      (\<forall>s < length indents. \<exists>k < length (plan_order plan). plan_order plan ! k = int s \<and>
         (if s \<in> set selected
          then plan_indent plan ! k = indents ! s + 1 \<and> in_group (plan_indent plan) h k
          else plan_indent plan ! k = indents ! s)))"
proof -
  obtain sel m where sel: "sorted sel" "distinct sel" "sel \<noteq> []"
    "set sel = {s \<in> set selected. s < length indents}" "\<forall>s \<in> set sel. m \<le> indents ! s"
    and ord: "plan_order plan = map int [0..<hd sel] @ - 1 # map int sel
       @ map int (filter (\<lambda>i. i \<notin> set sel) [hd sel..<length indents])"
    and ind: "plan_indent plan = map ((!) indents) [0..<hd sel] @ m # map (\<lambda>s. indents ! s + 1) sel
       @ map ((!) indents) (filter (\<lambda>i. i \<notin> set sel) [hd sel..<length indents])"
    by (rule groupSelection_Some[OF assms])
  define out where "out = filter (\<lambda>i. i \<notin> set sel) [hd sel..<length indents]"
  have hdin: "hd sel \<in> set sel" "hd sel \<le> length indents"
    using sel(3,4) hd_in_set[OF sel(3)] by auto
  have least: "s \<in> set sel \<Longrightarrow> hd sel \<le> s" for s using sel by (cases sel) auto
  have len: "length (plan_order plan) = Suc (hd sel + length sel + length out)"
    by (simp add: ord out_def)
  have upt: "[0..<length indents] = [0..<hd sel] @ [hd sel..<length indents]"
    using hdin by (intro upt_split) simp_all
  have "mset sel = mset (filter (\<lambda>i. i \<in> set sel) [hd sel..<length indents])"
    using sel least by (subst set_eq_iff_mset_eq_distinct[symmetric]) auto
  then have "mset sel + mset out = mset [hd sel..<length indents]"
    using mset_filter_split[of "\<lambda>i. i \<in> set sel" "[hd sel..<length indents]"]
    unfolding out_def by metis
  then have "image_mset int (mset sel) + image_mset int (mset out) = image_mset int (mset [hd sel..<length indents])"
    by (metis image_mset_union)
  then have perm: "mset (plan_order plan) = add_mset (- 1) (mset (map int [0..<length indents]))"
    unfolding ord upt by (simp add: out_def)
  have member: "\<exists>k < length (plan_order plan). plan_order plan ! k = int s \<and>
      plan_indent plan ! k = indents ! s + 1 \<and> in_group (plan_indent plan) (hd sel) k"
    if s: "s \<in> set sel" for s
  proof -
    obtain q where q: "q < length sel" "sel ! q = s" using s by (auto simp: in_set_conv_nth)
    have "in_group (plan_indent plan) (hd sel) (Suc (hd sel + q))"
      unfolding in_group_def ind using q sel(5)
      by (auto simp: nth_append nth_Cons' less_Suc_eq_le)
    then show ?thesis
      using q by (intro exI[of _ "Suc (hd sel + q)"]) (simp add: len, simp add: ord ind nth_append)
  qed
  have outsider: "\<exists>k < length (plan_order plan). plan_order plan ! k = int s \<and> plan_indent plan ! k = indents ! s"
    if s: "s < length indents" "s \<notin> set sel" for s
  proof (cases "s < hd sel")
    case True
    then show ?thesis by (intro exI[of _ s]) (simp add: len, simp add: ord ind nth_append)
  next
    case False
    then have "s \<in> set out" using s by (simp add: out_def)
    then obtain q where "q < length out" "out ! q = s" by (auto simp: in_set_conv_nth)
    then show ?thesis
      by (intro exI[of _ "Suc (hd sel + length sel + q)"])
        (simp add: len, simp add: ord ind nth_append out_def)
  qed
  have "plan_order plan ! hd sel = - 1" "hd sel < length (plan_order plan)"
    by (simp_all add: ord nth_append)
  moreover have "length (plan_indent plan) = length (plan_order plan)"
    by (simp add: ord ind)
  moreover have "\<exists>k < length (plan_order plan). plan_order plan ! k = int s \<and>
      (if s \<in> set selected
       then plan_indent plan ! k = indents ! s + 1 \<and> in_group (plan_indent plan) (hd sel) k
       else plan_indent plan ! k = indents ! s)" if "s < length indents" for s
  proof (cases "s \<in> set selected")
    case True
    then show ?thesis using member[of s] sel(4) that by simp
  next
    case False
    then show ?thesis using outsider[of s] sel(4) that by simp
  qed
  ultimately show ?thesis using perm by blast
qed

theorem groupSelection_plan_witness:
  "mset (plan_order \<lparr>plan_order = [-1, 0, 2, 1], plan_indent = [0, 1, 1, 0]\<rparr>) =
     add_mset (- 1) (mset (map int [0..<length [0, 0, 0 :: int]]))"
proof -
  have "groupSelection [0, 0, 0] [2, 0] =
      Some \<lparr>plan_order = [-1, 0, 2, 1], plan_indent = [0, 1, 1, 0]\<rparr>"
    by code_simp
  then show ?thesis using groupSelection_plan[of "[0, 0, 0]" "[2, 0]"] by blast
qed

end
