(* ===== verification/Id_Store.thy ===== *)
theory Id_Store
  imports Cheat_Prelude
begin

text \<open>
  The contract two components share: records kept in a vector, each with an integer id handed out
  by a counter that only grows.  The cheat table (\<open>Simple_Address_List\<close>) and the breakpoint
  manager (\<open>Breakpoint_Manager\<close>) both look records up by id, change the record found in place, and
  erase by id; the locale \<open>id_records\<close> proves once that ids stay distinct and what a lookup gives
  after each operation.  Ids are integers: the 2^31 additions that would overflow the C++
  \<^verbatim>\<open>int\<close> counter are outside the model.
\<close>

section \<open>Searching and changing a vector by id\<close>

fun indexOf :: "('e \<Rightarrow> int) \<Rightarrow> 'e list \<Rightarrow> int \<Rightarrow> nat option" where
  "indexOf ident [] i = None"
| "indexOf ident (e # es) i =
     (if ident e = i then Some 0 else map_option Suc (indexOf ident es i))"

definition lookup_id :: "('e \<Rightarrow> int) \<Rightarrow> 'e list \<Rightarrow> int \<Rightarrow> 'e option" where
  "lookup_id ident es i = map_option (\<lambda>k. es ! k) (indexOf ident es i)"

definition update_at :: "('e \<Rightarrow> int) \<Rightarrow> 'e list \<Rightarrow> int \<Rightarrow> ('e \<Rightarrow> 'e) \<Rightarrow> 'e list" where
  "update_at ident es i f =
     (case indexOf ident es i of None \<Rightarrow> es | Some k \<Rightarrow> es[k := f (es ! k)])"

definition erase_at :: "nat \<Rightarrow> 'e list \<Rightarrow> 'e list" where
  "erase_at k es = take k es @ drop (Suc k) es"

definition erase_id :: "('e \<Rightarrow> int) \<Rightarrow> 'e list \<Rightarrow> int \<Rightarrow> 'e list" where
  "erase_id ident es i = (case indexOf ident es i of None \<Rightarrow> es | Some k \<Rightarrow> erase_at k es)"

definition ids_ok :: "('e \<Rightarrow> int) \<Rightarrow> int \<Rightarrow> 'e list \<Rightarrow> bool" where
  "ids_ok ident next es = (distinct (map ident es) \<and> (\<forall>e \<in> set es. ident e < next))"

lemma indexOf_None: "indexOf ident es i = None \<longleftrightarrow> i \<notin> ident ` set es"
  by (induction es) auto

lemma indexOf_Some:
  "indexOf ident es i = Some k \<Longrightarrow>
     k < length es \<and> ident (es ! k) = i \<and> (\<forall>j < k. ident (es ! j) \<noteq> i)"
proof (induction es arbitrary: k)
  case (Cons e es)
  show ?case
  proof (cases "ident e = i")
    case True
    with Cons.prems show ?thesis by simp
  next
    case False
    with Cons.prems obtain k' where k': "indexOf ident es i = Some k'" "k = Suc k'"
      by auto
    with Cons.IH[OF k'(1)] False show ?thesis
      by (auto simp: less_Suc_eq_0_disj)
  qed
qed simp

lemma lookup_id_None [simp]: "lookup_id ident es i = None \<longleftrightarrow> i \<notin> ident ` set es"
  by (simp add: lookup_id_def indexOf_None)

lemma lookup_id_find: "lookup_id ident es i = find (\<lambda>e. ident e = i) es"
  by (induction es) (auto simp: lookup_id_def option.map_comp comp_def)

lemma lookup_id_Some:
  "lookup_id ident es i = Some e \<Longrightarrow> e \<in> set es \<and> ident e = i"
  by (auto simp: lookup_id_find find_Some_iff)

lemma lookup_id_distinct:
  "distinct (map ident es) \<Longrightarrow> lookup_id ident es i = Some e \<longleftrightarrow> e \<in> set es \<and> ident e = i"
proof (induction es)
  case (Cons x es)
  then show ?case by (auto simp: lookup_id_find)
qed (simp add: lookup_id_find)

lemma set_erase_at: "set (erase_at k es) \<subseteq> set es"
  using set_take_subset[of k es] set_drop_subset[of "Suc k" es] by (auto simp: erase_at_def)

lemma erase_at_update [simp]: "erase_at k (es[k := e]) = erase_at k es"
  by (simp add: erase_at_def)

lemma erase_id_filter:
  "distinct (map ident es) \<Longrightarrow> erase_id ident es i = filter (\<lambda>e. ident e \<noteq> i) es"
proof (induction es)
  case (Cons x es)
  have nx: "\<forall>e \<in> set es. ident e \<noteq> ident x" using Cons.prems by (simp add: image_iff) metis
  then have "ident x = i \<Longrightarrow> filter (\<lambda>e. ident e \<noteq> i) es = es"
    using Cons.prems by auto
  moreover have "ident x \<noteq> i \<Longrightarrow> erase_id ident (x # es) i = x # erase_id ident es i"
    by (cases "indexOf ident es i") (simp_all add: erase_id_def erase_at_def)
  ultimately show ?case using Cons by (auto simp: erase_id_def erase_at_def)
qed (simp add: erase_id_def)

lemma update_at_map:
  "distinct (map ident es) \<Longrightarrow> update_at ident es i f = map (\<lambda>e. if ident e = i then f e else e) es"
proof (induction es)
  case (Cons x es)
  have nx: "\<forall>e \<in> set es. ident e \<noteq> ident x" using Cons.prems by (simp add: image_iff) metis
  then have "ident x = i \<Longrightarrow> map (\<lambda>e. if ident e = i then f e else e) es = es"
    using Cons.prems by (intro map_idI) auto
  moreover have "ident x \<noteq> i \<Longrightarrow> update_at ident (x # es) i f = x # update_at ident es i f"
    by (cases "indexOf ident es i") (simp_all add: update_at_def)
  ultimately show ?case using Cons by (auto simp: update_at_def)
qed (simp add: update_at_def)

section \<open>The interface\<close>

locale id_records =
  fixes ident :: "'e \<Rightarrow> int"
    and tag :: "int \<Rightarrow> 'e \<Rightarrow> 'e"
  assumes ident_tag: "ident (tag i e) = i"
begin

lemma ok_add: "ids_ok ident n es \<Longrightarrow> ids_ok ident (n + 1) (es @ [tag n e])"
  by (force simp: ids_ok_def ident_tag)

lemma ok_erase: "ids_ok ident n es \<Longrightarrow> ids_ok ident n (erase_id ident es i)"
  by (auto simp: ids_ok_def erase_id_filter distinct_map_filter)

lemma ok_filter: "ids_ok ident n es \<Longrightarrow> ids_ok ident n (filter p es)"
  by (auto simp: ids_ok_def distinct_map_filter)

lemma ok_update:
  "ids_ok ident n es \<Longrightarrow> (\<And>e. ident (f e) = ident e) \<Longrightarrow> ids_ok ident n (update_at ident es i f)"
  by (auto simp: ids_ok_def update_at_map comp_def if_distrib cong: if_cong)

lemma ok_map: "ids_ok ident n es \<Longrightarrow> (\<And>e. ident (f e) = ident e) \<Longrightarrow> ids_ok ident n (map f es)"
  by (auto simp: ids_ok_def comp_def)

lemma lookup_add:
  assumes "ids_ok ident n es"
  shows "lookup_id ident (es @ [tag n e]) i = (if i = n then Some (tag n e) else lookup_id ident es i)"
proof -
  have fresh: "n \<notin> ident ` set es" using assms by (force simp: ids_ok_def)
  have "n \<notin> ident ` set xs \<Longrightarrow> find (\<lambda>x. ident x = i) (xs @ [tag n e]) =
    (if i = n then Some (tag n e) else find (\<lambda>x. ident x = i) xs)" for xs
    by (induction xs) (auto simp: ident_tag)
  with fresh show ?thesis by (simp add: lookup_id_find)
qed

lemma lookup_erase:
  assumes "ids_ok ident n es"
  shows "lookup_id ident (erase_id ident es i) j = (if j = i then None else lookup_id ident es j)"
proof -
  have d: "distinct (map ident es)" using assms by (simp add: ids_ok_def)
  have "find (\<lambda>e. ident e = j) (filter (\<lambda>e. ident e \<noteq> i) xs) =
    (if j = i then None else find (\<lambda>e. ident e = j) xs)" for xs
    by (induction xs) auto
  then show ?thesis by (simp add: erase_id_filter[OF d] lookup_id_find)
qed

lemma lookup_update:
  assumes ok: "ids_ok ident n es" and f: "\<And>e. ident (f e) = ident e"
  shows "lookup_id ident (update_at ident es i f) j =
    (if j = i then map_option f (lookup_id ident es j) else lookup_id ident es j)"
proof -
  have d: "distinct (map ident es)" using ok by (simp add: ids_ok_def)
  have "find (\<lambda>e. ident e = j) (map (\<lambda>e. if ident e = i then f e else e) xs) =
    (if j = i then map_option f (find (\<lambda>e. ident e = j) xs) else find (\<lambda>e. ident e = j) xs)" for xs
    by (induction xs) (auto simp: f)
  then show ?thesis by (simp add: update_at_map[OF d] lookup_id_find)
qed

end

end
