(* ===== verification/Simple_Address_List.thy ===== *)
theory Simple_Address_List
  imports Id_Store Core_Types
begin

text \<open>
  The headless cheat table of \<^verbatim>\<open>src/src/core/simple_address_list.hpp\<close> with the record
  \<^verbatim>\<open>AddressEntrySnapshot\<close> of \<^verbatim>\<open>core/address_list.hpp\<close>.  Every operation takes the table and
  returns the new one with its result; the calls made to the activation callback are logged in the
  state.  The specification is a finite map from ids to records.
\<close>

record AddressEntry =
  e_id :: int
  e_description :: string
  e_address :: u64
  e_type :: ValueType
  e_value :: string
  e_color :: string
  e_script :: string
  e_hotkeyKeys :: string
  e_active :: bool
  e_isGroup :: bool
  e_showAsHex :: bool
  e_indent :: int

definition default_entry :: AddressEntry where
  "default_entry =
     \<lparr>e_id = 0, e_description = '''', e_address = 0, e_type = VInt32, e_value = '''', e_color = '''',
      e_script = '''', e_hotkeyKeys = '''', e_active = False, e_isGroup = False,
      e_showAsHex = False, e_indent = 0\<rparr>"

record address_list =
  al_entries :: "AddressEntry list"
  al_nextId :: int
  al_callback :: bool
  al_calls :: "(int \<times> bool) list"

definition new_list :: address_list where
  "new_list = \<lparr>al_entries = [], al_nextId = 1, al_callback = False, al_calls = []\<rparr>"

definition al_count :: "address_list \<Rightarrow> int" where
  "al_count l = int (length (al_entries l))"

definition al_at :: "address_list \<Rightarrow> int \<Rightarrow> AddressEntry option" where
  "al_at l index =
     (if index < 0 \<or> int (length (al_entries l)) \<le> index then None
      else Some (al_entries l ! nat index))"

definition al_byId :: "address_list \<Rightarrow> int \<Rightarrow> AddressEntry option" where
  "al_byId l i =
     (case indexOf e_id (al_entries l) i of None \<Rightarrow> None | Some k \<Rightarrow> Some (al_entries l ! k))"

definition al_findIdByDescription :: "address_list \<Rightarrow> string \<Rightarrow> int" where
  "al_findIdByDescription l desc =
     (case find (\<lambda>e. e_description e = desc) (al_entries l) of Some e \<Rightarrow> e_id e | None \<Rightarrow> - 1)"

definition al_ids :: "address_list \<Rightarrow> int list" where
  "al_ids l = map e_id (al_entries l)"

definition al_createEntry :: "address_list \<Rightarrow> u64 \<Rightarrow> ValueType \<Rightarrow> string \<Rightarrow> address_list \<times> int" where
  "al_createEntry l addr t description =
     (let e = default_entry\<lparr>e_id := al_nextId l, e_address := addr, e_type := t,
                            e_description := description\<rparr>
      in (l\<lparr>al_entries := al_entries l @ [e], al_nextId := al_nextId l + 1\<rparr>, e_id e))"

definition al_createGroup :: "address_list \<Rightarrow> string \<Rightarrow> address_list \<times> int" where
  "al_createGroup l description =
     (let e = default_entry\<lparr>e_id := al_nextId l, e_description := description, e_isGroup := True\<rparr>
      in (l\<lparr>al_entries := al_entries l @ [e], al_nextId := al_nextId l + 1\<rparr>, e_id e))"

definition al_deleteById :: "address_list \<Rightarrow> int \<Rightarrow> address_list \<times> bool" where
  "al_deleteById l i =
     (case indexOf e_id (al_entries l) i of
        None \<Rightarrow> (l, False)
      | Some k \<Rightarrow> (l\<lparr>al_entries := erase_at k (al_entries l)\<rparr>, True))"

definition al_disableAllWithoutExecute :: "address_list \<Rightarrow> address_list \<times> bool" where
  "al_disableAllWithoutExecute l =
     (l\<lparr>al_entries := map (\<lambda>e. e\<lparr>e_active := False\<rparr>) (al_entries l)\<rparr>, True)"

definition al_set :: "address_list \<Rightarrow> int \<Rightarrow> (AddressEntry \<Rightarrow> AddressEntry) \<Rightarrow> address_list \<times> bool" where
  "al_set l i fn =
     (case indexOf e_id (al_entries l) i of
        None \<Rightarrow> (l, False)
      | Some k \<Rightarrow> (l\<lparr>al_entries := (al_entries l)[k := fn (al_entries l ! k)]\<rparr>, True))"

definition al_setDescription :: "address_list \<Rightarrow> int \<Rightarrow> string \<Rightarrow> address_list \<times> bool" where
  "al_setDescription l i desc = al_set l i (\<lambda>e. e\<lparr>e_description := desc\<rparr>)"

definition al_setAddress :: "address_list \<Rightarrow> int \<Rightarrow> u64 \<Rightarrow> address_list \<times> bool" where
  "al_setAddress l i addr = al_set l i (\<lambda>e. e\<lparr>e_address := addr\<rparr>)"

definition al_setType :: "address_list \<Rightarrow> int \<Rightarrow> ValueType \<Rightarrow> address_list \<times> bool" where
  "al_setType l i t = al_set l i (\<lambda>e. e\<lparr>e_type := t\<rparr>)"

definition al_setValue :: "address_list \<Rightarrow> int \<Rightarrow> string \<Rightarrow> address_list \<times> bool" where
  "al_setValue l i v = al_set l i (\<lambda>e. e\<lparr>e_value := v\<rparr>)"

definition al_setActive :: "address_list \<Rightarrow> int \<Rightarrow> bool \<Rightarrow> address_list \<times> bool" where
  "al_setActive l i a =
     (let (l', ok) = al_set l i (\<lambda>e. e\<lparr>e_active := a\<rparr>)
      in (if ok \<and> al_callback l then l'\<lparr>al_calls := al_calls l' @ [(i, a)]\<rparr> else l', ok))"

definition al_setColor :: "address_list \<Rightarrow> int \<Rightarrow> string \<Rightarrow> address_list \<times> bool" where
  "al_setColor l i c = al_set l i (\<lambda>e. e\<lparr>e_color := c\<rparr>)"

definition al_setScript :: "address_list \<Rightarrow> int \<Rightarrow> string \<Rightarrow> address_list \<times> bool" where
  "al_setScript l i s = al_set l i (\<lambda>e. e\<lparr>e_script := s\<rparr>)"

definition al_setHexView :: "address_list \<Rightarrow> int \<Rightarrow> bool \<Rightarrow> address_list \<times> bool" where
  "al_setHexView l i hex = al_set l i (\<lambda>e. e\<lparr>e_showAsHex := hex\<rparr>)"

definition al_setIndent :: "address_list \<Rightarrow> int \<Rightarrow> int \<Rightarrow> address_list \<times> bool" where
  "al_setIndent l i indent = al_set l i (\<lambda>e. e\<lparr>e_indent := if indent < 0 then 0 else indent\<rparr>)"

definition al_liveValue :: "address_list \<Rightarrow> int \<Rightarrow> string" where
  "al_liveValue l i = (case al_byId l i of Some e \<Rightarrow> e_value e | None \<Rightarrow> '''')"

definition al_setActivationCallback :: "address_list \<Rightarrow> bool \<Rightarrow> address_list" where
  "al_setActivationCallback l present = l\<lparr>al_callback := present\<rparr>"

section \<open>The operations as one type\<close>

datatype al_op =
  CreateEntry u64 ValueType string
| CreateGroup string
| DeleteById int
| DisableAll
| SetDescription int string
| SetAddress int u64
| SetType int ValueType
| SetValue int string
| SetActive int bool
| SetColor int string
| SetScript int string
| SetHexView int bool
| SetIndent int int
| SetCallback bool

fun al_exec :: "address_list \<Rightarrow> al_op \<Rightarrow> address_list" where
  "al_exec l (CreateEntry a t d) = fst (al_createEntry l a t d)"
| "al_exec l (CreateGroup d) = fst (al_createGroup l d)"
| "al_exec l (DeleteById i) = fst (al_deleteById l i)"
| "al_exec l DisableAll = fst (al_disableAllWithoutExecute l)"
| "al_exec l (SetDescription i d) = fst (al_setDescription l i d)"
| "al_exec l (SetAddress i a) = fst (al_setAddress l i a)"
| "al_exec l (SetType i t) = fst (al_setType l i t)"
| "al_exec l (SetValue i v) = fst (al_setValue l i v)"
| "al_exec l (SetActive i a) = fst (al_setActive l i a)"
| "al_exec l (SetColor i c) = fst (al_setColor l i c)"
| "al_exec l (SetScript i s) = fst (al_setScript l i s)"
| "al_exec l (SetHexView i h) = fst (al_setHexView l i h)"
| "al_exec l (SetIndent i n) = fst (al_setIndent l i n)"
| "al_exec l (SetCallback p) = al_setActivationCallback l p"

definition al_ok :: "address_list \<Rightarrow> bool" where
  "al_ok l = (ids_ok e_id (al_nextId l) (al_entries l) \<and> (\<forall>e \<in> set (al_entries l). 0 \<le> e_indent e))"

interpretation al: id_records e_id "\<lambda>i e. e\<lparr>e_id := i\<rparr>"
  by unfold_locales simp

lemma al_byId_lookup: "al_byId l i = lookup_id e_id (al_entries l) i"
  by (auto simp: al_byId_def lookup_id_def split: option.splits)

lemma al_set_update: "al_entries (fst (al_set l i f)) = update_at e_id (al_entries l) i f"
  by (simp add: al_set_def update_at_def split: option.splits)

lemma al_set_frame [simp]:
  "al_nextId (fst (al_set l i f)) = al_nextId l" "al_callback (fst (al_set l i f)) = al_callback l"
  "al_calls (fst (al_set l i f)) = al_calls l"
  by (simp_all add: al_set_def split: option.splits)

lemma al_set_result: "snd (al_set l i f) \<longleftrightarrow> al_byId l i \<noteq> None"
  by (simp add: al_set_def al_byId_def split: option.splits)

lemma al_delete_erase: "al_entries (fst (al_deleteById l i)) = erase_id e_id (al_entries l) i"
  by (simp add: al_deleteById_def erase_id_def split: option.splits)

lemma update_at_set: "e \<in> set (update_at ident es i f) \<Longrightarrow> e \<in> set es \<or> (\<exists>x \<in> set es. e = f x)"
  by (auto simp: update_at_def dest!: indexOf_Some split: option.splits
      dest: set_update_subset_insert[THEN subsetD])

lemma al_set_ok:
  assumes "al_ok l" "\<And>e. e_id (f e) = e_id e" "\<And>e. 0 \<le> e_indent e \<Longrightarrow> 0 \<le> e_indent (f e)"
  shows "al_ok (fst (al_set l i f))"
  using assms al.ok_update[of "al_nextId l" "al_entries l" f i]
  by (auto simp: al_ok_def al_set_update dest!: update_at_set)

lemma al_ok_calls [simp]: "al_ok (l\<lparr>al_calls := cs\<rparr>) = al_ok l"
  by (simp add: al_ok_def)

lemmas al_setters = al_setDescription_def al_setAddress_def al_setType_def al_setValue_def
  al_setColor_def al_setScript_def al_setHexView_def al_setIndent_def

lemma al_exec_ok: "al_ok l \<Longrightarrow> al_ok (al_exec l op)"
proof (cases op)
  case (CreateEntry a t d)
  assume ok: "al_ok l"
  then show ?thesis
    using al.ok_add[of "al_nextId l" "al_entries l"
        "default_entry\<lparr>e_address := a, e_type := t, e_description := d\<rparr>"] CreateEntry
    by (auto simp: al_ok_def al_createEntry_def Let_def default_entry_def)
next
  case (CreateGroup d)
  assume ok: "al_ok l"
  then show ?thesis
    using al.ok_add[of "al_nextId l" "al_entries l"
        "default_entry\<lparr>e_description := d, e_isGroup := True\<rparr>"] CreateGroup
    by (auto simp: al_ok_def al_createGroup_def Let_def default_entry_def)
next
  case (DeleteById i)
  assume ok: "al_ok l"
  have n: "al_nextId (fst (al_deleteById l i)) = al_nextId l"
    by (simp add: al_deleteById_def split: option.splits)
  have "set (erase_id e_id (al_entries l) i) \<subseteq> set (al_entries l)"
    using set_erase_at[THEN subsetD] by (fastforce simp: erase_id_def split: option.splits)
  then show ?thesis
    using ok DeleteById al.ok_erase[of "al_nextId l" "al_entries l" i]
    by (auto simp: al_ok_def al_delete_erase n)
next
  case DisableAll
  assume ok: "al_ok l"
  then show ?thesis
    using DisableAll al.ok_map[of "al_nextId l" "al_entries l" "\<lambda>e. e\<lparr>e_active := False\<rparr>"]
    by (auto simp: al_ok_def al_disableAllWithoutExecute_def)
next
  case (SetActive i a)
  assume ok: "al_ok l"
  then have "al_ok (fst (al_set l i (\<lambda>e. e\<lparr>e_active := a\<rparr>)))" by (rule al_set_ok) simp_all
  then show ?thesis using SetActive by (auto simp: al_setActive_def case_prod_beta Let_def)
next
  case (SetCallback p)
  assume "al_ok l"
  then show ?thesis using SetCallback by (simp add: al_ok_def al_setActivationCallback_def)
qed (auto simp: al_setters intro!: al_set_ok)

section \<open>Properties\<close>

text \<open>
  whatever sequence of operations a script runs on a new table, record ids stay distinct and
  below the id counter, indents stay non-negative, and every record of the table is the one
  \<^verbatim>\<open>byId\<close> returns for its id.
\<close>

theorem address_list_ids:
  "al_ok (fold (\<lambda>op l. al_exec l op) ops new_list) \<and>
   (\<forall>k e. al_at (fold (\<lambda>op l. al_exec l op) ops new_list) k = Some e \<longrightarrow>
      al_byId (fold (\<lambda>op l. al_exec l op) ops new_list) (e_id e) = Some e)"
proof -
  have run: "al_ok l \<Longrightarrow> al_ok (fold (\<lambda>op l. al_exec l op) xs l)" for xs l
    by (induction xs arbitrary: l) (simp_all add: al_exec_ok)
  have ok: "al_ok (fold (\<lambda>op l. al_exec l op) ops new_list)"
    by (rule run) (simp add: al_ok_def new_list_def ids_ok_def)
  moreover have "al_byId l (e_id e) = Some e" if "al_ok l" "al_at l k = Some e" for l k e
  proof -
    have "e \<in> set (al_entries l)" using that(2) by (auto simp: al_at_def split: if_splits)
    then show ?thesis
      using that(1) by (simp add: al_byId_lookup al_ok_def ids_ok_def lookup_id_distinct)
  qed
  ultimately show ?thesis by blast
qed

theorem address_list_ids_witness:
  "al_byId (fold (\<lambda>op l. al_exec l op) [CreateGroup ''g'', CreateEntry 16 VByte ''hp'', DeleteById 1] new_list) 2 =
     Some (default_entry\<lparr>e_id := 2, e_address := 16, e_type := VByte, e_description := ''hp''\<rparr>)"
proof -
  have id: "e_id (default_entry\<lparr>e_id := 2, e_address := 16, e_type := VByte, e_description := ''hp''\<rparr>) = 2"
    by simp
  have "al_at (fold (\<lambda>op l. al_exec l op) [CreateGroup ''g'', CreateEntry 16 VByte ''hp'', DeleteById 1] new_list) 0 =
     Some (default_entry\<lparr>e_id := 2, e_address := 16, e_type := VByte, e_description := ''hp''\<rparr>)"
    by (simp add: al_createGroup_def al_createEntry_def al_deleteById_def erase_at_def al_at_def
        new_list_def default_entry_def)
  from address_list_ids[THEN conjunct2, rule_format, OF this] show ?thesis by (simp only: id)
qed

text \<open>
  on a well-formed table the operations act on the map from ids to records: creation binds
  exactly a fresh id, deletion unbinds exactly the given id, a setter changes exactly the record
  it names and reports whether there was one.
\<close>

theorem address_list_refines_map:
  assumes "al_ok l"
  shows "al_byId l (al_nextId l) = None \<and>
    al_byId (fst (al_createEntry l a t d)) =
      (al_byId l)(snd (al_createEntry l a t d) \<mapsto>
        default_entry\<lparr>e_id := al_nextId l, e_address := a, e_type := t, e_description := d\<rparr>) \<and>
    al_byId (fst (al_createGroup l d)) =
      (al_byId l)(snd (al_createGroup l d) \<mapsto>
        default_entry\<lparr>e_id := al_nextId l, e_description := d, e_isGroup := True\<rparr>) \<and>
    al_byId (fst (al_deleteById l i)) = (al_byId l)(i := None) \<and>
    (snd (al_deleteById l i) \<longleftrightarrow> al_byId l i \<noteq> None) \<and>
    al_byId (fst (al_setValue l i v)) =
      (al_byId l)(i := map_option (\<lambda>e. e\<lparr>e_value := v\<rparr>) (al_byId l i)) \<and>
    al_byId (fst (al_setActive l i b)) =
      (al_byId l)(i := map_option (\<lambda>e. e\<lparr>e_active := b\<rparr>) (al_byId l i)) \<and>
    (snd (al_setActive l i b) \<longleftrightarrow> al_byId l i \<noteq> None)"
proof -
  have ids: "ids_ok e_id (al_nextId l) (al_entries l)" using assms by (simp add: al_ok_def)
  note look = al_byId_lookup fun_eq_iff
  have fresh: "al_byId l (al_nextId l) = None"
    using ids by (force simp: al_byId_lookup ids_ok_def)
  have ce: "al_byId (fst (al_createEntry l a t d)) = (al_byId l)(snd (al_createEntry l a t d) \<mapsto>
      default_entry\<lparr>e_id := al_nextId l, e_address := a, e_type := t, e_description := d\<rparr>)"
    using al.lookup_add[OF ids, of "default_entry\<lparr>e_address := a, e_type := t, e_description := d\<rparr>"]
    by (simp add: look al_createEntry_def Let_def default_entry_def)
  have cg: "al_byId (fst (al_createGroup l d)) = (al_byId l)(snd (al_createGroup l d) \<mapsto>
      default_entry\<lparr>e_id := al_nextId l, e_description := d, e_isGroup := True\<rparr>)"
    using al.lookup_add[OF ids, of "default_entry\<lparr>e_description := d, e_isGroup := True\<rparr>"]
    by (simp add: look al_createGroup_def Let_def default_entry_def)
  have del: "al_byId (fst (al_deleteById l i)) = (al_byId l)(i := None)"
    using al.lookup_erase[OF ids, of i] by (simp add: look al_delete_erase)
  have del_found: "snd (al_deleteById l i) \<longleftrightarrow> al_byId l i \<noteq> None"
    by (cases "indexOf e_id (al_entries l) i") (simp_all add: al_deleteById_def al_byId_def)
  have st: "al_byId (fst (al_set l i f)) = (al_byId l)(i := map_option f (al_byId l i))"
    if "\<And>e. e_id (f e) = e_id e" for f
    using al.lookup_update[OF ids that, of i] by (auto simp: look al_set_update)
  have sa: "al_byId (fst (al_setActive l i b)) = al_byId (fst (al_set l i (\<lambda>e. e\<lparr>e_active := b\<rparr>)))"
    "snd (al_setActive l i b) = snd (al_set l i (\<lambda>e. e\<lparr>e_active := b\<rparr>))"
    by (simp_all add: al_setActive_def case_prod_beta Let_def look)
  show ?thesis
    using fresh ce cg del del_found st[of "\<lambda>e. e\<lparr>e_value := v\<rparr>"] st[of "\<lambda>e. e\<lparr>e_active := b\<rparr>"] sa
      al_set_result[of l i "\<lambda>e. e\<lparr>e_active := b\<rparr>"]
    by (simp add: al_setValue_def)
qed

theorem address_list_refines_map_witness:
  "al_byId (fst (al_deleteById (fst (al_createGroup new_list ''g'')) 1)) =
     (al_byId (fst (al_createGroup new_list ''g'')))(1 := None)"
proof -
  have "al_ok (fst (al_createGroup new_list ''g''))"
    using al_exec_ok[of new_list "CreateGroup ''g''"] by (simp add: al_ok_def new_list_def ids_ok_def)
  then show ?thesis using address_list_refines_map by blast
qed

end
