(* ===== verification/Breakpoint_Manager.thy ===== *)
theory Breakpoint_Manager
  imports Id_Store Core_Types
begin

text \<open>
  The breakpoint manager of \<^verbatim>\<open>src/src/debug/breakpoint_manager.hpp\<close> and \<^verbatim>\<open>.cpp\<close>: breakpoints with
  ids, hardware registers, hit logs, and the delivery of hits.  The Lua interpreter that evaluates
  a condition is vendored code and a parameter (record \<open>lua\<close>: a fresh sandboxed state with the
  register globals, and running one chunk in it); so is the \<^verbatim>\<open>Debugger\<close> that programs the debug
  registers.  \<^verbatim>\<open>recordHit\<close> takes its lock twice, with the condition evaluated in between, so it is
  modelled as two atomic steps that other threads' calls may interleave with.
\<close>

section \<open>Data\<close>

datatype BpType = BpExecute | BpWrite | BpRead | BpAccess
datatype BpAction = BreakAction | FindCode | FindAccess | TraceAction | OnBreakpoint
datatype BpMethod = Hardware | Software

record CpuContext =
  rax :: u64
  rbx :: u64
  rcx :: u64
  rdx :: u64
  rsi :: u64
  rdi :: u64
  rbp :: u64
  rsp :: u64
  r8 :: u64
  r9 :: u64
  r10 :: u64
  r11 :: u64
  r12 :: u64
  r13 :: u64
  r14 :: u64
  r15 :: u64
  rip :: u64
  rflags :: u64

record Breakpoint =
  bp_id :: int
  bp_address :: u64
  bp_type :: BpType
  bp_action :: BpAction
  bp_method :: BpMethod
  bp_hwRegister :: int
  bp_size :: int
  bp_enabled :: bool
  bp_oneShot :: bool
  bp_threadFilter :: int
  bp_condition :: string
  bp_description :: string
  bp_hitCount :: int

record BreakpointHit =
  hit_bpId :: int
  hit_address :: u64
  hit_rip :: u64
  hit_tid :: int
  hit_context :: CpuContext
  hit_bytes :: bytes
  hit_text :: string

record manager =
  bm_breakpoints :: "Breakpoint list"
  bm_hitLog :: "int \<Rightarrow> BreakpointHit list"
  bm_nextId :: int

text \<open>An id with no entry in the C++ map of hit logs is an id with the empty log.\<close>

definition new_manager :: manager where
  "new_manager = \<lparr>bm_breakpoints = [], bm_hitLog = (\<lambda>_. []), bm_nextId = 1\<rparr>"

section \<open>Operations\<close>

definition hw_used :: "Breakpoint list \<Rightarrow> int \<Rightarrow> bool" where
  "hw_used bps r = (\<exists>b \<in> set bps. bp_enabled b \<and> 0 \<le> bp_hwRegister b \<and> bp_hwRegister b < 4 \<and> bp_hwRegister b = r)"

definition findFreeHwRegister :: "manager \<Rightarrow> int" where
  "findFreeHwRegister m =
     (case find (\<lambda>i. \<not> hw_used (bm_breakpoints m) i) [0, 1, 2, 3] of Some i \<Rightarrow> i | None \<Rightarrow> - 1)"

definition bm_add :: "manager \<Rightarrow> Breakpoint \<Rightarrow> manager \<times> int" where
  "bm_add m bp =
     (let b = bp\<lparr>bp_id := bm_nextId m\<rparr>;
          b = (if bp_method b = Hardware \<and> bp_hwRegister b < 0
               then b\<lparr>bp_hwRegister := findFreeHwRegister m\<rparr> else b)
      in (m\<lparr>bm_nextId := bm_nextId m + 1, bm_breakpoints := bm_breakpoints m @ [b]\<rparr>, bp_id b))"

definition bm_remove :: "manager \<Rightarrow> int \<Rightarrow> manager" where
  "bm_remove m i =
     m\<lparr>bm_breakpoints := filter (\<lambda>b. bp_id b \<noteq> i) (bm_breakpoints m),
       bm_hitLog := (bm_hitLog m)(i := [])\<rparr>"

definition bm_setEnabled :: "manager \<Rightarrow> int \<Rightarrow> bool \<Rightarrow> manager" where
  "bm_setEnabled m i en =
     m\<lparr>bm_breakpoints := update_at bp_id (bm_breakpoints m) i (\<lambda>b. b\<lparr>bp_enabled := en\<rparr>)\<rparr>"

definition bm_get :: "manager \<Rightarrow> int \<Rightarrow> Breakpoint option" where
  "bm_get m i = find (\<lambda>b. bp_id b = i) (bm_breakpoints m)"

definition bm_getHits :: "manager \<Rightarrow> int \<Rightarrow> BreakpointHit list" where
  "bm_getHits m i = bm_hitLog m i"

definition bm_clearHits :: "manager \<Rightarrow> int \<Rightarrow> manager" where
  "bm_clearHits m i = m\<lparr>bm_hitLog := (bm_hitLog m)(i := [])\<rparr>"

subsection \<open>Programming the debug registers\<close>

text \<open>
  The debugger: its state, \<^verbatim>\<open>setBreakpoint(tid, reg, address, type, size)\<close> and
  \<^verbatim>\<open>removeBreakpoint(tid, reg)\<close> with their success.
\<close>

record 'd debugger =
  dbg_set :: "'d \<Rightarrow> int \<Rightarrow> int \<Rightarrow> u64 \<Rightarrow> int \<Rightarrow> int \<Rightarrow> 'd \<times> bool"
  dbg_remove :: "'d \<Rightarrow> int \<Rightarrow> int \<Rightarrow> 'd \<times> bool"

fun hwTypeOf :: "BpType \<Rightarrow> int" where
  "hwTypeOf BpExecute = 0"
| "hwTypeOf BpWrite = 1"
| "hwTypeOf BpRead = 3"
| "hwTypeOf BpAccess = 3"

definition hwSizeOf :: "int \<Rightarrow> int option" where
  "hwSizeOf s =
     (if s = 1 then Some 0 else if s = 2 then Some 1 else if s = 4 then Some 3
      else if s = 8 then Some 2 else None)"

definition misaligned :: "Breakpoint \<Rightarrow> bool" where
  "misaligned bp =
     (hwTypeOf (bp_type bp) \<noteq> 0 \<and> 1 < bp_size bp \<and>
      bp_address bp AND (word_of_int (bp_size bp) - 1) \<noteq> 0)"

fun apply_each :: "'d debugger \<Rightarrow> int \<Rightarrow> Breakpoint list \<Rightarrow> 'd \<Rightarrow> 'd \<times> bool" where
  "apply_each D tid [] d = (d, True)"
| "apply_each D tid (bp # bps) d =
     (if bp_method bp \<noteq> Hardware then apply_each D tid bps d
      else if \<not> bp_enabled bp \<or> bp_hwRegister bp < 0 then apply_each D tid bps d
      else if bp_threadFilter bp \<noteq> 0 \<and> bp_threadFilter bp \<noteq> tid then apply_each D tid bps d
      else
        (case hwSizeOf (bp_size bp) of
           None \<Rightarrow> (d, False)
         | Some hwSize \<Rightarrow>
             if misaligned bp then (d, False)
             else
               (case dbg_set D d tid (bp_hwRegister bp) (bp_address bp) (hwTypeOf (bp_type bp)) hwSize of
                  (d', ok) \<Rightarrow> if \<not> ok then (d', False) else apply_each D tid bps d')))"

definition bm_applyToThread :: "'d debugger \<Rightarrow> manager \<Rightarrow> int \<Rightarrow> 'd \<Rightarrow> 'd \<times> bool" where
  "bm_applyToThread D m tid d = apply_each D tid (bm_breakpoints m) d"

definition remove_one :: "'d debugger \<Rightarrow> int \<Rightarrow> Breakpoint \<Rightarrow> 'd \<Rightarrow> 'd" where
  "remove_one D tid bp d =
     (if bp_method bp \<noteq> Hardware then d
      else if 0 \<le> bp_hwRegister bp then fst (dbg_remove D d tid (bp_hwRegister bp)) else d)"

definition bm_removeFromThread :: "'d debugger \<Rightarrow> manager \<Rightarrow> int \<Rightarrow> 'd \<Rightarrow> 'd \<times> bool" where
  "bm_removeFromThread D m tid d = (fold (remove_one D tid) (bm_breakpoints m) d, True)"

subsection \<open>Conditions\<close>

text \<open>
  \<open>lua_new\<close> is \<^verbatim>\<open>luaL_newstate\<close> with the curated libraries, the stripped globals, the exposed
  registers and the instruction hook; \<open>lua_chunk\<close> is \<^verbatim>\<open>runConditionChunk\<close>, which gives the error
  message or whether the condition matched.
\<close>

record 'l lua =
  lua_new :: "Breakpoint \<Rightarrow> BreakpointHit \<Rightarrow> 'l option"
  lua_chunk :: "'l \<Rightarrow> string \<Rightarrow> 'l \<times> (string + bool)"

definition conditionMatches :: "'l lua \<Rightarrow> Breakpoint \<Rightarrow> BreakpointHit \<Rightarrow> bool \<times> string" where
  "conditionMatches L bp hit =
     (if bp_condition bp = '''' then (True, '''')
      else
        (case lua_new L bp hit of
           None \<Rightarrow> (True, ''failed to create Lua state for breakpoint condition'')
         | Some s0 \<Rightarrow>
             (case lua_chunk L s0 (''return ('' @ bp_condition bp @ '')'') of
                (s1, Inr matched) \<Rightarrow> (matched, '''')
              | (s1, Inl e1) \<Rightarrow>
                  (case lua_chunk L s1 (''return '' @ bp_condition bp) of
                     (s2, Inr matched) \<Rightarrow> (matched, '''')
                   | (s2, Inl e2) \<Rightarrow>
                       (case lua_chunk L s2 (bp_condition bp) of
                          (s3, Inr matched) \<Rightarrow> (matched, '''')
                        | (s3, Inl e3) \<Rightarrow> (True, e3))))))"

definition zero_bp :: Breakpoint where
  "zero_bp =
     \<lparr>bp_id = 0, bp_address = 0, bp_type = BpExecute, bp_action = BreakAction, bp_method = Hardware,
      bp_hwRegister = - 1, bp_size = 1, bp_enabled = True, bp_oneShot = False, bp_threadFilter = 0,
      bp_condition = '''', bp_description = '''', bp_hitCount = 0\<rparr>"

definition evaluateBreakpointCondition :: "'l lua \<Rightarrow> BreakpointHit \<Rightarrow> string \<Rightarrow> CpuContext \<Rightarrow> u64 \<Rightarrow> bool" where
  "evaluateBreakpointCondition L blank condition ctx ip =
     (if condition = '''' then True
      else fst (conditionMatches L (zero_bp\<lparr>bp_condition := condition, bp_address := ip\<rparr>)
             (blank\<lparr>hit_context := ctx, hit_rip := ip, hit_address := ip\<rparr>)))"

subsection \<open>Recording a hit\<close>

text \<open>The first critical section and the filters: the snapshot of the breakpoint, or \<open>None\<close>.\<close>

definition recordHit_begin :: "manager \<Rightarrow> int \<Rightarrow> BreakpointHit \<Rightarrow> Breakpoint option" where
  "recordHit_begin m i hit =
     (case find (\<lambda>b. bp_id b = i) (bm_breakpoints m) of
        None \<Rightarrow> None
      | Some b \<Rightarrow>
          if \<not> bp_enabled b then None
          else if bp_threadFilter b \<noteq> 0 \<and> bp_threadFilter b \<noteq> hit_tid hit then None
          else Some b)"

definition cap_log :: "BreakpointHit list \<Rightarrow> BreakpointHit list" where
  "cap_log log = (if 10000 < length log then drop 5000 log else log)"

text \<open>
  The second critical section: count the hit on the breakpoint as it is now, log it, erase a
  one-shot breakpoint.  \<open>Some b\<close> is the breakpoint handed to the callback (\<^verbatim>\<open>recordHit\<close> returns
  true); \<open>None\<close> is the early return when the breakpoint is gone.
\<close>

definition recordHit_commit :: "manager \<Rightarrow> int \<Rightarrow> BreakpointHit \<Rightarrow> manager \<times> Breakpoint option" where
  "recordHit_commit m i hit =
     (case indexOf bp_id (bm_breakpoints m) i of
        None \<Rightarrow> (m, None)
      | Some k \<Rightarrow>
          let b = (bm_breakpoints m ! k)\<lparr>bp_hitCount := bp_hitCount (bm_breakpoints m ! k) + 1\<rparr>;
              callbackBp = (if bp_oneShot b then b\<lparr>bp_enabled := False\<rparr> else b);
              log = cap_log (bm_hitLog m i @ [hit]);
              bps = (bm_breakpoints m)[k := b]
          in (m\<lparr>bm_hitLog := (bm_hitLog m)(i := log),
                bm_breakpoints := (if bp_oneShot b then erase_at k bps else bps)\<rparr>,
              Some callbackBp))"

definition recordHit :: "'l lua \<Rightarrow> manager \<Rightarrow> int \<Rightarrow> BreakpointHit \<Rightarrow> manager \<times> Breakpoint option" where
  "recordHit L m i hit =
     (case recordHit_begin m i hit of
        None \<Rightarrow> (m, None)
      | Some snapshot \<Rightarrow>
          if fst (conditionMatches L snapshot hit) then recordHit_commit m i hit else (m, None))"

section \<open>Threads that share a manager\<close>

text \<open>
  Any number of threads call the manager.  A thread between the two critical sections of
  \<^verbatim>\<open>recordHit\<close> holds the id, the hit and its snapshot of the breakpoint; \<open>sys_delivered\<close> lists the
  breakpoints handed to the callback so far.
\<close>

record sys =
  sys_m :: manager
  sys_pending :: "int \<Rightarrow> (int \<times> BreakpointHit \<times> Breakpoint) option"
  sys_delivered :: "Breakpoint list"

definition init_sys :: sys where
  "init_sys = \<lparr>sys_m = new_manager, sys_pending = (\<lambda>_. None), sys_delivered = []\<rparr>"

inductive bp_step :: "'l lua \<Rightarrow> sys \<Rightarrow> sys \<Rightarrow> bool" for L :: "'l lua" where
  add: "bp_step L s (s\<lparr>sys_m := fst (bm_add (sys_m s) bp)\<rparr>)"
| remove: "bp_step L s (s\<lparr>sys_m := bm_remove (sys_m s) i\<rparr>)"
| enable: "bp_step L s (s\<lparr>sys_m := bm_setEnabled (sys_m s) i en\<rparr>)"
| clear: "bp_step L s (s\<lparr>sys_m := bm_clearHits (sys_m s) i\<rparr>)"
| hit_begin: "sys_pending s t = None \<Longrightarrow> recordHit_begin (sys_m s) i hit = Some b \<Longrightarrow>
    bp_step L s (s\<lparr>sys_pending := (sys_pending s)(t := Some (i, hit, b))\<rparr>)"
| hit_skip: "sys_pending s t = Some (i, hit, b) \<Longrightarrow> \<not> fst (conditionMatches L b hit) \<Longrightarrow>
    bp_step L s (s\<lparr>sys_pending := (sys_pending s)(t := None)\<rparr>)"
| hit_gone: "sys_pending s t = Some (i, hit, b) \<Longrightarrow> fst (conditionMatches L b hit) \<Longrightarrow>
    recordHit_commit (sys_m s) i hit = (m, None) \<Longrightarrow>
    bp_step L s (s\<lparr>sys_m := m, sys_pending := (sys_pending s)(t := None)\<rparr>)"
| hit_deliver: "sys_pending s t = Some (i, hit, b) \<Longrightarrow> fst (conditionMatches L b hit) \<Longrightarrow>
    recordHit_commit (sys_m s) i hit = (m, Some cb) \<Longrightarrow>
    bp_step L s (s\<lparr>sys_m := m, sys_pending := (sys_pending s)(t := None),
                   sys_delivered := sys_delivered s @ [cb]\<rparr>)"

inductive bp_reachable :: "'l lua \<Rightarrow> sys \<Rightarrow> bool" for L :: "'l lua" where
  start: "bp_reachable L init_sys"
| step: "bp_reachable L s \<Longrightarrow> bp_step L s t \<Longrightarrow> bp_reachable L t"

definition bm_inv :: "manager \<Rightarrow> Breakpoint list \<Rightarrow> bool" where
  "bm_inv m dl \<longleftrightarrow>
     ids_ok bp_id (bm_nextId m) (bm_breakpoints m) \<and>
     (\<forall>b \<in> set (bm_breakpoints m). bp_oneShot b \<longrightarrow> bp_id b \<notin> bp_id ` set dl) \<and>
     (\<forall>c \<in> set dl. bp_id c < bm_nextId m) \<and>
     distinct (map bp_id (filter bp_oneShot dl)) \<and>
     (\<forall>i. length (bm_hitLog m i) \<le> 10000)"

interpretation bm: id_records bp_id "\<lambda>i b. b\<lparr>bp_id := i\<rparr>"
  by unfold_locales simp

lemma bm_add_entries:
  "\<exists>r. bm_breakpoints (fst (bm_add m bp)) =
     bm_breakpoints m @ [(bp\<lparr>bp_hwRegister := r\<rparr>)\<lparr>bp_id := bm_nextId m\<rparr>]"
proof (cases "bp_method bp = Hardware \<and> bp_hwRegister bp < 0")
  case True
  then show ?thesis
    by (intro exI[of _ "findFreeHwRegister m"]) (simp add: bm_add_def Let_def)
next
  case False
  then show ?thesis
    by (intro exI[of _ "bp_hwRegister bp"]) (auto simp: bm_add_def Let_def)
qed

lemma bm_inv_add: "bm_inv m dl \<Longrightarrow> bm_inv (fst (bm_add m bp)) dl"
proof -
  assume inv: "bm_inv m dl"
  obtain r where r: "bm_breakpoints (fst (bm_add m bp)) =
      bm_breakpoints m @ [(bp\<lparr>bp_hwRegister := r\<rparr>)\<lparr>bp_id := bm_nextId m\<rparr>]"
    using bm_add_entries by blast
  have rest: "bm_nextId (fst (bm_add m bp)) = bm_nextId m + 1" "bm_hitLog (fst (bm_add m bp)) = bm_hitLog m"
    by (simp_all add: bm_add_def Let_def)
  show ?thesis
    using inv bm.ok_add[of "bm_nextId m" "bm_breakpoints m" "bp\<lparr>bp_hwRegister := r\<rparr>"]
    by (fastforce simp: bm_inv_def r rest)
qed

lemma bm_inv_remove: "bm_inv m dl \<Longrightarrow> bm_inv (bm_remove m i) dl"
  using bm.ok_filter by (auto simp: bm_inv_def bm_remove_def)

lemma bm_inv_clear: "bm_inv m dl \<Longrightarrow> bm_inv (bm_clearHits m i) dl"
  by (simp add: bm_inv_def bm_clearHits_def)

lemma bm_inv_enable: "bm_inv m dl \<Longrightarrow> bm_inv (bm_setEnabled m i en) dl"
proof -
  assume inv: "bm_inv m dl"
  then have "distinct (map bp_id (bm_breakpoints m))" by (simp add: bm_inv_def ids_ok_def)
  note upd = update_at_map[OF this]
  show ?thesis
    using inv bm.ok_update[of "bm_nextId m" "bm_breakpoints m" "\<lambda>b. b\<lparr>bp_enabled := en\<rparr>" i]
    by (auto simp: bm_inv_def bm_setEnabled_def upd split: if_splits)
qed

lemma length_cap_log: "length log \<le> 10000 \<Longrightarrow> length (cap_log (log @ [h])) \<le> 10000"
  unfolding cap_log_def length_drop length_append by (simp split: if_split) arith

lemma commit_None: "recordHit_commit m i hit = (m', None) \<Longrightarrow> m' = m"
  by (auto simp: recordHit_commit_def Let_def split: option.splits)

lemma commit_Some:
  assumes "recordHit_commit m i hit = (m', Some cb)"
    and ok: "ids_ok bp_id (bm_nextId m) (bm_breakpoints m)"
  obtains b where "b \<in> set (bm_breakpoints m)" "bp_id b = i"
    "cb = (if bp_oneShot b then b\<lparr>bp_hitCount := bp_hitCount b + 1, bp_enabled := False\<rparr>
           else b\<lparr>bp_hitCount := bp_hitCount b + 1\<rparr>)"
    "bm_breakpoints m' = (if bp_oneShot b then erase_id bp_id (bm_breakpoints m) i
       else update_at bp_id (bm_breakpoints m) i (\<lambda>b. b\<lparr>bp_hitCount := bp_hitCount b + 1\<rparr>))"
    "bm_hitLog m' = (bm_hitLog m)(i := cap_log (bm_hitLog m i @ [hit]))"
    "bm_nextId m' = bm_nextId m"
proof -
  obtain k where k: "indexOf bp_id (bm_breakpoints m) i = Some k"
    using assms(1) by (auto simp: recordHit_commit_def split: option.splits)
  then have lt: "k < length (bm_breakpoints m)" and idk: "bp_id (bm_breakpoints m ! k) = i"
    using indexOf_Some by force+
  show thesis
    using that[of "bm_breakpoints m ! k"] assms(1) k lt idk
    by (auto simp: recordHit_commit_def Let_def erase_id_def update_at_def split: if_splits)
qed

lemma bm_inv_commit:
  assumes "recordHit_commit m i hit = (m', Some cb)" and inv: "bm_inv m dl"
  shows "bm_inv m' (dl @ [cb])"
proof -
  have ok: "ids_ok bp_id (bm_nextId m) (bm_breakpoints m)" using inv by (simp add: bm_inv_def)
  then have d: "distinct (map bp_id (bm_breakpoints m))" by (simp add: ids_ok_def)
  obtain b where b: "b \<in> set (bm_breakpoints m)" "bp_id b = i"
    and cb: "cb = (if bp_oneShot b then b\<lparr>bp_hitCount := bp_hitCount b + 1, bp_enabled := False\<rparr>
           else b\<lparr>bp_hitCount := bp_hitCount b + 1\<rparr>)"
    and bps: "bm_breakpoints m' = (if bp_oneShot b then erase_id bp_id (bm_breakpoints m) i
       else update_at bp_id (bm_breakpoints m) i (\<lambda>b. b\<lparr>bp_hitCount := bp_hitCount b + 1\<rparr>))"
    and logs: "bm_hitLog m' = (bm_hitLog m)(i := cap_log (bm_hitLog m i @ [hit]))"
    and nxt: "bm_nextId m' = bm_nextId m"
    by (rule commit_Some[OF assms(1) ok])
  have cbid: "bp_id cb = i" "bp_oneShot cb = bp_oneShot b" using cb b by simp_all
  have lt: "i < bm_nextId m" using ok b by (auto simp: ids_ok_def)
  have ok': "ids_ok bp_id (bm_nextId m) (bm_breakpoints m')"
    unfolding bps using bm.ok_erase[OF ok, of i]
      bm.ok_update[OF ok, of "\<lambda>b. b\<lparr>bp_hitCount := bp_hitCount b + 1\<rparr>" i]
    by simp
  have same: "x = b" if "x \<in> set (bm_breakpoints m)" "bp_id x = i" for x
    using that b d by (metis lookup_id_distinct option.inject)
  have os: "bp_id x \<notin> insert i (bp_id ` set dl)"
    if "x \<in> set (bm_breakpoints m')" "bp_oneShot x" for x
  proof (cases "bp_oneShot b")
    case True
    then show ?thesis using that inv by (auto simp: bps erase_id_filter[OF d] bm_inv_def)
  next
    case False
    then show ?thesis
      using that inv same by (auto simp: bps update_at_map[OF d] bm_inv_def split: if_splits)
  qed
  have dist: "distinct (map bp_id (filter bp_oneShot (dl @ [cb])))"
    using inv b cbid by (auto simp: bm_inv_def)
  show ?thesis
    using inv ok' os dist lt cbid length_cap_log by (auto simp: bm_inv_def nxt logs)
qed

lemma bp_reachable_inv: "bp_reachable L s \<Longrightarrow> bm_inv (sys_m s) (sys_delivered s)"
proof (induction rule: bp_reachable.induct)
  case start
  show ?case by (simp add: bm_inv_def init_sys_def new_manager_def ids_ok_def)
next
  case (step s t)
  note inv = step.IH
  from step.hyps(2) show ?case
  proof (cases rule: bp_step.cases)
    case (hit_gone th i hit b m)
    then show ?thesis using inv commit_None by fastforce
  next
    case (hit_deliver th i hit b m cb)
    then show ?thesis using bm_inv_commit[OF _ inv] by simp
  qed (simp_all add: inv bm_inv_add bm_inv_remove bm_inv_enable bm_inv_clear)
qed

section \<open>Properties\<close>

text \<open>
  C16: in every interleaving of the calls of any number of threads, a one-shot breakpoint is
  delivered to the callback at most once, and every hit log keeps at most 10000 entries.
\<close>

theorem one_shot_delivered_once:
  assumes "bp_reachable L s"
  shows "distinct (map bp_id (filter bp_oneShot (sys_delivered s))) \<and>
    (\<forall>i. length (bm_getHits (sys_m s) i) \<le> 10000)"
  using bp_reachable_inv[OF assms] by (simp add: bm_inv_def bm_getHits_def)

definition zero_hit :: BreakpointHit where
  "zero_hit =
     \<lparr>hit_bpId = 1, hit_address = 0, hit_rip = 0, hit_tid = 5,
      hit_context = \<lparr>rax = 0, rbx = 0, rcx = 0, rdx = 0, rsi = 0, rdi = 0, rbp = 0, rsp = 0, r8 = 0,
        r9 = 0, r10 = 0, r11 = 0, r12 = 0, r13 = 0, r14 = 0, r15 = 0, rip = 0, rflags = 0\<rparr>,
      hit_bytes = [], hit_text = ''''\<rparr>"

definition always_lua :: "unit lua" where
  "always_lua = \<lparr>lua_new = (\<lambda>_ _. Some ()), lua_chunk = (\<lambda>_ _. ((), Inr True))\<rparr>"

text \<open>Two threads hit the same one-shot breakpoint: the first is delivered, the second is still on its way.\<close>

theorem one_shot_delivered_once_witness:
  "\<exists>s. bp_reachable always_lua s \<and> map bp_id (filter bp_oneShot (sys_delivered s)) = [1] \<and> sys_pending s 2 \<noteq> None \<and>
     distinct (map bp_id (filter bp_oneShot (sys_delivered s))) \<and> length (bm_getHits (sys_m s) 1) \<le> 10000"
proof -
  let ?b = "zero_bp\<lparr>bp_id := 1, bp_oneShot := True, bp_hwRegister := 0\<rparr>"
  define s1 where "s1 = init_sys\<lparr>sys_m := fst (bm_add (sys_m init_sys) (zero_bp\<lparr>bp_oneShot := True, bp_hwRegister := 0\<rparr>))\<rparr>"
  define s2 where "s2 = s1\<lparr>sys_pending := (sys_pending s1)(5 := Some (1, zero_hit, ?b))\<rparr>"
  define s3 where "s3 = s2\<lparr>sys_pending := (sys_pending s2)(2 := Some (1, zero_hit, ?b))\<rparr>"
  have bps: "bm_breakpoints (sys_m s1) = [?b]" "sys_pending s1 = (\<lambda>_. None)" "sys_delivered s1 = []"
    by (simp_all add: s1_def bm_add_def init_sys_def new_manager_def zero_bp_def Let_def)
  have m: "sys_m s2 = sys_m s1" "sys_m s3 = sys_m s1" "sys_delivered s3 = []" by (simp_all add: s2_def s3_def bps)
  have hit: "recordHit_begin (sys_m s1) 1 zero_hit = Some ?b"
    by (simp add: recordHit_begin_def bps zero_bp_def)
  obtain m4 cb where commit: "recordHit_commit (sys_m s3) 1 zero_hit = (m4, Some cb)" and cb: "bp_id cb = 1" "bp_oneShot cb"
    by (simp add: recordHit_commit_def m bps zero_bp_def Let_def)
  define s4 where "s4 = s3\<lparr>sys_m := m4, sys_pending := (sys_pending s3)(5 := None), sys_delivered := sys_delivered s3 @ [cb]\<rparr>"
  have "bp_reachable always_lua s1" unfolding s1_def by (rule bp_reachable.step[OF bp_reachable.start bp_step.add])
  then have "bp_reachable always_lua s2"
    unfolding s2_def by (rule bp_reachable.step) (rule bp_step.hit_begin, simp_all add: bps hit)
  then have "bp_reachable always_lua s3"
    unfolding s3_def by (rule bp_reachable.step) (rule bp_step.hit_begin, simp_all add: m hit, simp add: s2_def bps)
  moreover have "fst (conditionMatches always_lua ?b zero_hit)" by (simp add: conditionMatches_def zero_bp_def)
  ultimately have r: "bp_reachable always_lua s4"
    unfolding s4_def by (elim bp_reachable.step, intro bp_step.hit_deliver[OF _ _ commit]) (simp_all add: s3_def s2_def)
  have "map bp_id (filter bp_oneShot (sys_delivered s4)) = [1]" "sys_pending s4 2 \<noteq> None"
    by (simp add: s4_def m cb) (simp add: s4_def s3_def)
  then show ?thesis using r one_shot_delivered_once[OF r] by (intro exI[of _ s4]) simp
qed

lemma find_lookup: "find (\<lambda>b. bp_id b = i) bps = lookup_id bp_id bps i"
  by (simp add: lookup_id_find)

lemma commit_lookup:
  assumes ok: "ids_ok bp_id (bm_nextId m) (bm_breakpoints m)" and get: "bm_get m i = Some b"
  obtains m' cb where "recordHit_commit m i hit = (m', Some cb)"
    "bm_get m' = (bm_get m)(i := if bp_oneShot b then None else Some (b\<lparr>bp_hitCount := bp_hitCount b + 1\<rparr>))"
    "bm_getHits m' i = cap_log (bm_getHits m i @ [hit])"
proof -
  obtain k where k: "indexOf bp_id (bm_breakpoints m) i = Some k"
    using get by (auto simp: bm_get_def find_lookup lookup_id_def)
  then obtain m' cb where c: "recordHit_commit m i hit = (m', Some cb)"
    by (simp add: recordHit_commit_def Let_def)
  have d: "distinct (map bp_id (bm_breakpoints m))" using ok by (simp add: ids_ok_def)
  obtain b' where b': "b' \<in> set (bm_breakpoints m)" "bp_id b' = i"
    and bps: "bm_breakpoints m' = (if bp_oneShot b' then erase_id bp_id (bm_breakpoints m) i
       else update_at bp_id (bm_breakpoints m) i (\<lambda>b. b\<lparr>bp_hitCount := bp_hitCount b + 1\<rparr>))"
    and logs: "bm_hitLog m' = (bm_hitLog m)(i := cap_log (bm_hitLog m i @ [hit]))"
    by (rule commit_Some[OF c ok])
  have bb: "b' = b"
    using get b' lookup_id_distinct[OF d, of i b'] by (simp add: bm_get_def find_lookup)
  have "bm_get m' = (bm_get m)(i := if bp_oneShot b then None else Some (b\<lparr>bp_hitCount := bp_hitCount b + 1\<rparr>))"
    using get bm.lookup_erase[OF ok, of i]
      bm.lookup_update[OF ok, of "\<lambda>b. b\<lparr>bp_hitCount := bp_hitCount b + 1\<rparr>" i]
    by (auto simp: fun_eq_iff bm_get_def find_lookup bps bb)
  then show thesis using that c logs by (simp add: bm_getHits_def)
qed

text \<open>
  a hit is delivered exactly when its breakpoint exists, is enabled, accepts the thread and
  has a matching condition; the delivery counts the hit, appends it to the log (dropping the 5000
  oldest past 10000), keeps every other breakpoint, and removes the breakpoint if it is one-shot.
\<close>

theorem recordHit_spec:
  assumes "ids_ok bp_id (bm_nextId m) (bm_breakpoints m)"
  shows "(snd (recordHit L m i hit) \<noteq> None \<longleftrightarrow>
      (\<exists>b. bm_get m i = Some b \<and> bp_enabled b \<and> (bp_threadFilter b = 0 \<or> bp_threadFilter b = hit_tid hit) \<and>
           fst (conditionMatches L b hit))) \<and>
    (\<forall>b. bm_get m i = Some b \<and> snd (recordHit L m i hit) \<noteq> None \<longrightarrow>
      bm_get (fst (recordHit L m i hit)) =
        (bm_get m)(i := if bp_oneShot b then None else Some (b\<lparr>bp_hitCount := bp_hitCount b + 1\<rparr>)) \<and>
      bm_getHits (fst (recordHit L m i hit)) i = cap_log (bm_getHits m i @ [hit])) \<and>
    (snd (recordHit L m i hit) = None \<longrightarrow> fst (recordHit L m i hit) = m)"
proof (cases "bm_get m i")
  case None
  then show ?thesis by (simp add: recordHit_def recordHit_begin_def bm_get_def)
next
  case (Some b)
  obtain m' cb where c: "recordHit_commit m i hit = (m', Some cb)"
    "bm_get m' = (bm_get m)(i := if bp_oneShot b then None else Some (b\<lparr>bp_hitCount := bp_hitCount b + 1\<rparr>))"
    "bm_getHits m' i = cap_log (bm_getHits m i @ [hit])"
    by (rule commit_lookup[OF assms Some])
  have beg: "recordHit_begin m i hit =
      (if bp_enabled b \<and> (bp_threadFilter b = 0 \<or> bp_threadFilter b = hit_tid hit) then Some b else None)"
    using Some by (auto simp: recordHit_begin_def bm_get_def)
  show ?thesis
    using Some c by (simp add: recordHit_def beg)
qed

theorem recordHit_spec_witness:
  "snd (recordHit always_lua
     \<lparr>bm_breakpoints = [zero_bp\<lparr>bp_id := 1\<rparr>], bm_hitLog = (\<lambda>_. []), bm_nextId = 2\<rparr> 1 zero_hit) \<noteq> None"
proof -
  let ?m = "\<lparr>bm_breakpoints = [zero_bp\<lparr>bp_id := 1\<rparr>], bm_hitLog = (\<lambda>_. []), bm_nextId = 2\<rparr>"
  have ok: "ids_ok bp_id (bm_nextId ?m) (bm_breakpoints ?m)" by (simp add: ids_ok_def)
  have "bm_get ?m 1 = Some (zero_bp\<lparr>bp_id := 1\<rparr>) \<and> bp_enabled (zero_bp\<lparr>bp_id := 1\<rparr>) \<and>
      bp_threadFilter (zero_bp\<lparr>bp_id := 1\<rparr>) = 0 \<and>
      fst (conditionMatches always_lua (zero_bp\<lparr>bp_id := 1\<rparr>) zero_hit)"
    by (simp add: bm_get_def zero_bp_def conditionMatches_def)
  then show ?thesis using recordHit_spec[OF ok, of always_lua 1 zero_hit] by blast
qed

text \<open>
  a breakpoint condition fails safe: a hit is suppressed only when the Lua interpreter ran one
  of the chunks made from the condition to a false result, never because of an error.
\<close>

theorem condition_fails_safe:
  assumes "\<not> fst (conditionMatches L bp hit)"
  shows "bp_condition bp \<noteq> '''' \<and>
    (\<exists>s s' chunk. lua_chunk L s chunk = (s', Inr False) \<and>
       chunk \<in> {''return ('' @ bp_condition bp @ '')'', ''return '' @ bp_condition bp, bp_condition bp}) \<and>
    snd (conditionMatches L bp hit) = ''''"
  using assms
  by (auto simp: conditionMatches_def split: if_splits option.splits prod.splits sum.splits)

definition never_lua :: "unit lua" where
  "never_lua = \<lparr>lua_new = (\<lambda>_ _. Some ()), lua_chunk = (\<lambda>_ _. ((), Inr False))\<rparr>"

theorem condition_fails_safe_witness:
  "snd (conditionMatches never_lua (zero_bp\<lparr>bp_condition := ''false''\<rparr>) zero_hit) = ''''"
proof -
  have "\<not> fst (conditionMatches never_lua (zero_bp\<lparr>bp_condition := ''false''\<rparr>) zero_hit)"
    by (simp add: conditionMatches_def never_lua_def)
  from condition_fails_safe[OF this] show ?thesis by blast
qed

definition hw_due :: "int \<Rightarrow> Breakpoint \<Rightarrow> bool" where
  "hw_due tid bp \<longleftrightarrow> bp_method bp = Hardware \<and> bp_enabled bp \<and> 0 \<le> bp_hwRegister bp \<and>
     (bp_threadFilter bp = 0 \<or> bp_threadFilter bp = tid)"

definition hw_program :: "'d debugger \<Rightarrow> int \<Rightarrow> Breakpoint \<Rightarrow> 'd \<Rightarrow> 'd" where
  "hw_program D tid bp d =
     fst (dbg_set D d tid (bp_hwRegister bp) (bp_address bp) (hwTypeOf (bp_type bp)) (the (hwSizeOf (bp_size bp))))"

lemma apply_each_success:
  "apply_each D tid bps d = (d', True) \<Longrightarrow>
   (\<forall>bp \<in> set bps. hw_due tid bp \<longrightarrow> hwSizeOf (bp_size bp) \<noteq> None \<and> \<not> misaligned bp) \<and>
   d' = fold (hw_program D tid) (filter (hw_due tid) bps) d"
proof (induction bps arbitrary: d)
  case Nil
  then show ?case by simp
next
  case (Cons bp bps)
  show ?case
  proof (cases "hw_due tid bp")
    case False
    then have "apply_each D tid bps d = (d', True)"
      using Cons.prems by (auto simp: hw_due_def split: if_splits)
    with False Cons.IH show ?thesis by simp
  next
    case True
    then obtain z where z: "hwSizeOf (bp_size bp) = Some z" "\<not> misaligned bp"
      "apply_each D tid bps (hw_program D tid bp d) = (d', True)"
      using Cons.prems
      by (auto simp: hw_due_def hw_program_def split: if_splits option.splits prod.splits)
    with True Cons.IH[OF z(3)] show ?thesis by simp
  qed
qed

text \<open>
  applying the breakpoints to a thread succeeds only when every hardware breakpoint due on it
  has a size DR7 encodes and a naturally aligned data address; then exactly those breakpoints were
  programmed, in order.
\<close>

theorem applyToThread_success:
  assumes "bm_applyToThread D m tid d = (d', True)"
  shows "(\<forall>bp \<in> set (bm_breakpoints m). hw_due tid bp \<longrightarrow> hwSizeOf (bp_size bp) \<noteq> None \<and> \<not> misaligned bp) \<and>
    d' = fold (hw_program D tid) (filter (hw_due tid) (bm_breakpoints m)) d"
  using apply_each_success assms by (simp add: bm_applyToThread_def)

definition log_debugger :: "(int \<times> u64) list debugger" where
  "log_debugger = \<lparr>dbg_set = (\<lambda>d tid r a t s. (d @ [(r, a)], True)), dbg_remove = (\<lambda>d tid r. (d, True))\<rparr>"

definition watch_demo :: Breakpoint where
  "watch_demo = zero_bp\<lparr>bp_hwRegister := 0, bp_address := 0x1000, bp_type := BpWrite, bp_size := 4\<rparr>"

theorem applyToThread_success_witness:
  "[(0, 0x1000)] = fold (hw_program log_debugger 7) (filter (hw_due 7) [watch_demo]) []"
proof -
  have "bm_applyToThread log_debugger \<lparr>bm_breakpoints = [watch_demo], bm_hitLog = (\<lambda>_. []), bm_nextId = 2\<rparr> 7 [] =
      ([(0, 0x1000)], True)"
    by (simp add: bm_applyToThread_def watch_demo_def zero_bp_def log_debugger_def hwSizeOf_def misaligned_def)
  from applyToThread_success[OF this] show ?thesis by simp
qed

text \<open>
  a hardware breakpoint added without a register gets one of the four registers that no
  enabled breakpoint uses, and none exactly when all four are taken.
\<close>

theorem add_assigns_free_register:
  assumes "bp_method bp = Hardware" and "bp_hwRegister bp < 0"
  shows "(if \<forall>r \<in> {0, 1, 2, 3}. hw_used (bm_breakpoints m) r
      then bp_hwRegister (last (bm_breakpoints (fst (bm_add m bp)))) = - 1
      else bp_hwRegister (last (bm_breakpoints (fst (bm_add m bp)))) \<in> {0, 1, 2, 3} \<and>
        \<not> hw_used (bm_breakpoints m) (bp_hwRegister (last (bm_breakpoints (fst (bm_add m bp))))))"
  using assms by (auto simp: bm_add_def Let_def findFreeHwRegister_def)

theorem add_assigns_free_register_witness:
  "bp_hwRegister (last (bm_breakpoints (fst (bm_add new_manager zero_bp)))) \<in> {0, 1, 2, 3}"
proof -
  have reg: "bp_method zero_bp = Hardware" "bp_hwRegister zero_bp < 0"
    by (simp_all add: zero_bp_def)
  have free: "\<not> (\<forall>r \<in> {0, 1, 2, 3}. hw_used (bm_breakpoints new_manager) r)"
    by (auto simp: new_manager_def hw_used_def)
  show ?thesis
    using add_assigns_free_register[OF reg, of new_manager] unfolding if_not_P[OF free] by (rule conjunct1)
qed

text \<open>
  the free-register guarantee does not survive re-enabling: disabling a breakpoint releases
  its register, the next one takes it, and enabling the first again leaves two enabled hardware
  breakpoints on one debug register.
\<close>

theorem reenable_shares_register:
  "\<exists>b c. bm_breakpoints
      (bm_setEnabled (fst (bm_add (bm_setEnabled (fst (bm_add new_manager zero_bp)) 1 False)
         (zero_bp\<lparr>bp_address := 64\<rparr>))) 1 True) = [b, c] \<and>
     bp_enabled b \<and> bp_enabled c \<and> bp_hwRegister b = 0 \<and> bp_hwRegister c = 0 \<and> bp_address b \<noteq> bp_address c"
  by (simp add: bm_setEnabled_def bm_add_def new_manager_def zero_bp_def Let_def
      findFreeHwRegister_def hw_used_def update_at_def)

end
