(* ===== verification/Process_Memory.thy ===== *)
theory Process_Memory
  imports Core_Types
begin

text \<open>
  Reading another process: the \<^verbatim>\<open>ProcessHandle\<close> interface (\<^verbatim>\<open>src/src/platform/process_api.hpp\<close>) and
  the scatter read of \<^verbatim>\<open>LinuxProcessHandle\<close> (\<^verbatim>\<open>src/src/platform/linux/linux_process.cpp\<close>).
  \<^verbatim>\<open>process_vm_readv\<close> is a parameter: it takes the remote ranges and gives the bytes transferred, or
  \<open>None\<close> for a negative return.  What the code relies on is \<open>readv_law\<close>: the kernel copies bytes in
  order and stops at the first unreadable one.  The main result is that the span and batched paths
  of \<^verbatim>\<open>readMany\<close> give the same answer as the per-address loop of the interface.
\<close>

section \<open>Memory and ranges\<close>

type_synonym memory = "u64 \<Rightarrow> u8 option"
type_synonym readv = "(u64 \<times> nat) list \<Rightarrow> bytes option"

definition range_addrs :: "u64 \<Rightarrow> nat \<Rightarrow> u64 list" where
  "range_addrs a n = map (\<lambda>k. a + of_nat k) [0..<n]"

definition readable :: "memory \<Rightarrow> u64 \<Rightarrow> bool" where
  "readable mem a = (mem a \<noteq> None)"

definition readable_prefix :: "memory \<Rightarrow> u64 list \<Rightarrow> bytes" where
  "readable_prefix mem as = map (\<lambda>a. the (mem a)) (takeWhile (readable mem) as)"

definition iov_addrs :: "(u64 \<times> nat) list \<Rightarrow> u64 list" where
  "iov_addrs iovs = concat (map (\<lambda>(a, n). range_addrs a n) iovs)"

definition readv_law :: "memory \<Rightarrow> readv \<Rightarrow> bool" where
  "readv_law mem rv \<longleftrightarrow>
     (\<forall>iovs. rv iovs =
        (let got = readable_prefix mem (iov_addrs iovs) in
         if got = [] \<and> iov_addrs iovs \<noteq> [] then None else Some got))"

definition page_granular :: "memory \<Rightarrow> bool" where
  "page_granular mem \<longleftrightarrow>
     (\<forall>a b. unat a div 4096 = unat b div 4096 \<longrightarrow> readable mem a = readable mem b)"

section \<open>The per-address loop of the interface\<close>

definition put :: "nat \<Rightarrow> bytes \<Rightarrow> bytes \<Rightarrow> bytes" where
  "put off bs out = take off out @ bs @ drop (off + length bs) out"

definition slot :: "nat \<Rightarrow> nat \<Rightarrow> bytes \<Rightarrow> bytes" where
  "slot n i out = take n (drop (i * n) out)"

definition linux_read :: "readv \<Rightarrow> u64 \<Rightarrow> nat \<Rightarrow> bytes option" where
  "linux_read rv address n = rv [(address, n)]"

fun readMany_loop :: "(u64 \<Rightarrow> nat \<Rightarrow> bytes option) \<Rightarrow> u64 list \<Rightarrow> nat \<Rightarrow> nat \<Rightarrow>
    bytes \<times> bool list \<Rightarrow> bytes \<times> bool list" where
  "readMany_loop rd [] n i (out, ok) = (out, ok)"
| "readMany_loop rd (a # as) n i (out, ok) =
     (let r = rd a n in
      readMany_loop rd as n (Suc i)
        (case r of None \<Rightarrow> out | Some bs \<Rightarrow> put (i * n) bs out,
         ok[i := (case r of None \<Rightarrow> False | Some bs \<Rightarrow> length bs = n)]))"

definition readMany_default :: "(u64 \<Rightarrow> nat \<Rightarrow> bytes option) \<Rightarrow> u64 list \<Rightarrow> nat \<Rightarrow>
    bytes \<times> bool list \<Rightarrow> bytes \<times> bool list" where
  "readMany_default rd addrs n buf = readMany_loop rd addrs n 0 buf"

section \<open>The scatter read of LinuxProcessHandle\<close>

subsection \<open>The batched path\<close>

function run_end :: "u64 list \<Rightarrow> nat \<Rightarrow> nat \<Rightarrow> nat" where
  "run_end addrs n e =
     (if e < length addrs \<and> addrs ! e = addrs ! (e - 1) + of_nat n then run_end addrs n (Suc e) else e)"
  by pat_completeness auto
termination by (relation "measure (\<lambda>(addrs, n, e). length addrs - e)") auto

declare run_end.simps [simp del]

lemma run_end_ge: "e \<le> run_end addrs n e"
proof (induction addrs n e rule: run_end.induct)
  case (1 addrs n e)
  then show ?case by (subst run_end.simps) auto
qed

text \<open>
  The iovecs of one system call: the local ones as offset and length in \<^verbatim>\<open>out\<close>, the remote ones as
  address and length, and the index after the last address covered.
\<close>

function build_iov :: "u64 list \<Rightarrow> nat \<Rightarrow> nat \<Rightarrow> nat \<Rightarrow>
    (nat \<times> nat) list \<times> (u64 \<times> nat) list \<times> nat" where
  "build_iov addrs n e k =
     (if e < length addrs \<and> k < 1024 then
        (let e' = run_end addrs n (Suc e); runBytes = (e' - e) * n;
             (locs, remote, past) = build_iov addrs n e' (Suc k)
         in ((e * n, runBytes) # locs, (addrs ! e, runBytes) # remote, past))
      else ([], [], e))"
  by pat_completeness auto
termination
proof (relation "measure (\<lambda>(addrs, n, e, k). length addrs - e)", goal_cases)
  case (2 addrs n e k x)
  then show ?case using run_end_ge[of "Suc e" addrs n] by auto
qed auto

declare build_iov.simps [simp del]

text \<open>The kernel stores the transferred bytes into the local iovecs in order.\<close>

fun scatter :: "(nat \<times> nat) list \<Rightarrow> bytes \<Rightarrow> bytes \<Rightarrow> bytes" where
  "scatter [] bs out = out"
| "scatter ((off, n) # locs) bs out = scatter locs (drop n bs) (put off (take n bs) out)"

fun set_ok :: "nat \<Rightarrow> nat \<Rightarrow> bool list \<Rightarrow> bool list" where
  "set_ok i 0 ok = ok"
| "set_ok i (Suc k) ok = set_ok (Suc i) k (ok[i := True])"

function batch_loop :: "readv \<Rightarrow> u64 list \<Rightarrow> nat \<Rightarrow> nat \<Rightarrow> bytes \<times> bool list \<Rightarrow> bytes \<times> bool list" where
  "batch_loop rv addrs n i (out, ok) =
     (if i < length addrs then
        (case build_iov addrs n i 0 of (locs, remote, past) \<Rightarrow>
          (case rv remote of
             None \<Rightarrow> batch_loop rv addrs n (Suc i) (out, ok[i := False])
           | Some got \<Rightarrow>
               let batch = past - i; full = min (length got div n) batch;
                   out = scatter locs got out; ok = set_ok i full ok
               in if full < batch
                  then batch_loop rv addrs n (Suc (i + full)) (out, ok[i + full := False])
                  else if full = 0 then (out, ok)
                  else batch_loop rv addrs n (i + full) (out, ok)))
      else (out, ok))"
  by pat_completeness auto
termination
  by (relation "measure (\<lambda>(rv, addrs, n, i, buf). length addrs - i)") auto

declare batch_loop.simps [simp del]

text \<open>
  The branch \<open>full = 0\<close> is there for termination only: a batch covers at least one address
  (\<open>build_iov_progress\<close>), so \<open>full < batch\<close> or \<open>0 < full\<close>.
\<close>

subsection \<open>The span path\<close>

fun dense :: "u64 list \<Rightarrow> nat \<Rightarrow> bool" where
  "dense (a # b # as) n = (\<not> (b < a \<or> b - a > of_nat n + 64) \<and> dense (b # as) n)"
| "dense _ n = True"

fun copy_slots :: "u64 \<Rightarrow> bytes \<Rightarrow> u64 list \<Rightarrow> nat \<Rightarrow> nat \<Rightarrow> bytes \<times> bool list \<Rightarrow>
    nat \<times> bytes \<times> bool list" where
  "copy_slots a0 scratch [] n k (out, ok) = (k, out, ok)"
| "copy_slots a0 scratch (a # as) n k (out, ok) =
     (let off = a - a0 in
      if off + of_nat n \<le> of_nat (length scratch) then
        copy_slots a0 scratch as n (Suc k) (put (k * n) (take n (drop (unat off) scratch)) out, ok[k := True])
      else (k, out, ok))"

definition span_of :: "u64 list \<Rightarrow> nat \<Rightarrow> u64" where
  "span_of addrs n = last addrs + of_nat n - hd addrs"

definition use_span :: "u64 list \<Rightarrow> nat \<Rightarrow> bool" where
  "use_span addrs n \<longleftrightarrow>
     8 \<le> length addrs \<and> span_of addrs n \<le> 4 * 1024 * 1024 \<and>
     of_nat (length addrs) * of_nat n < span_of addrs n \<and> dense addrs n"

definition readMany :: "readv \<Rightarrow> u64 list \<Rightarrow> nat \<Rightarrow> bytes \<times> bool list \<Rightarrow> bytes \<times> bool list" where
  "readMany rv addrs n buf =
     (if n = 0 then (fst buf, map (\<lambda>_. False) addrs)
      else if use_span addrs n then
        (let got = (case rv [(hd addrs, unat (span_of addrs n))] of None \<Rightarrow> [] | Some bs \<Rightarrow> bs);
             (k, out, ok) = copy_slots (hd addrs) got addrs n 0 buf
         in if k = length addrs then (out, ok)
            else batch_loop rv addrs n (Suc k) (out, ok[k := False]))
      else batch_loop rv addrs n 0 buf)"

text \<open>
  After a fault at \<open>k\<close> the code advances its pointers by \<open>k + 1\<close> and runs the batched path on the
  rest; \<open>batch_loop\<close> started at index \<open>k + 1\<close> is that call.
\<close>


section \<open>Equal chunks\<close>

lemma length_concat_equal: "\<forall>xs \<in> set xss. length xs = n \<Longrightarrow> length (concat xss) = length xss * n"
  by (induction xss) auto

lemma takeWhile_concat_chunks:
  assumes "\<forall>xs \<in> set xss. length xs = n" "0 < n"
  shows "length (takeWhile P (concat xss)) div n = length (takeWhile (list_all P) xss)"
  using assms
proof (induction xss)
  case (Cons xs xss)
  show ?case
  proof (cases "list_all P xs")
    case True
    then have "takeWhile P (concat (xs # xss)) = xs @ takeWhile P (concat xss)"
      by (simp add: list_all_iff takeWhile_append1 takeWhile_append2)
    moreover have "length (takeWhile P (concat xss)) div n = length (takeWhile (list_all P) xss)"
      using Cons by simp
    ultimately show ?thesis using True Cons.prems by (simp add: div_add_self1)
  next
    case False
    then have "takeWhile P (concat (xs # xss)) = takeWhile P xs"
      by (auto simp: list_all_iff takeWhile_append1)
    moreover have "length (takeWhile P xs) < length xs"
      using False by (metis length_takeWhile_le le_neq_implies_less list_all_iff takeWhile_eq_all_conv
          takeWhile_eq_take take_all_iff order_refl)
    ultimately show ?thesis using False Cons.prems by simp
  qed
qed simp

lemma takeWhile_concat_slot:
  assumes "\<forall>xs \<in> set xss. length xs = n" "j < length (takeWhile (list_all P) xss)"
  shows "take n (drop (j * n) (takeWhile P (concat xss))) = xss ! j"
  using assms
proof (induction xss arbitrary: j)
  case (Cons xs xss)
  then have P: "list_all P xs" by (auto split: if_splits)
  then have "takeWhile P (concat (xs # xss)) = xs @ takeWhile P (concat xss)"
    by (simp add: list_all_iff takeWhile_append1 takeWhile_append2)
  with Cons P show ?case by (cases j) simp_all
qed simp

lemma length_range_addrs [simp]: "length (range_addrs a n) = n"
  by (simp add: range_addrs_def)

lemma range_addrs_append: "range_addrs a (m + n) = range_addrs a m @ range_addrs (a + of_nat m) n"
proof -
  have "[0..<m + n] = [0..<m] @ map (\<lambda>k. k + m) [0..<n]"
    using upt_split[of 0 m "m + n"] by (simp add: map_add_upt add.commute)
  then show ?thesis by (simp add: range_addrs_def o_def add.assoc add.commute)
qed

definition chunks :: "u64 list \<Rightarrow> nat \<Rightarrow> nat \<Rightarrow> nat \<Rightarrow> u64 list list" where
  "chunks addrs n i j = map (\<lambda>k. range_addrs (addrs ! k) n) [i..<j]"

lemma chunks_split: "i \<le> j \<Longrightarrow> j \<le> k \<Longrightarrow> chunks addrs n i k = chunks addrs n i j @ chunks addrs n j k"
  by (simp add: chunks_def flip: map_append upt_split)

lemma length_chunks [simp]: "length (chunks addrs n i j) = j - i"
  by (simp add: chunks_def)

lemma chunks_equal [simp]: "\<forall>xs \<in> set (chunks addrs n i j). length xs = n"
  by (auto simp: chunks_def)

lemma chunks_nth [simp]: "k < j - i \<Longrightarrow> chunks addrs n i j ! k = range_addrs (addrs ! (i + k)) n"
  by (simp add: chunks_def)

section \<open>The system call of a batch\<close>

lemma run_end_props:
  assumes "run_end addrs n e = e'" "e \<le> length addrs"
  shows "e' \<le> length addrs \<and> (\<forall>j. e \<le> j \<and> j < e' \<longrightarrow> addrs ! j = addrs ! (j - 1) + of_nat n)"
  using assms
proof (induction addrs n e rule: run_end.induct)
  case (1 addrs n e)
  show ?case
  proof (cases "e < length addrs \<and> addrs ! e = addrs ! (e - 1) + of_nat n")
    case True
    then have "run_end addrs n (Suc e) = e'"
      using "1.prems"(1) by (subst (asm) run_end.simps) simp
    from "1.IH"[OF True this] True show ?thesis
      by (metis Suc_leI le_eq_less_or_eq)
  next
    case False
    then have "run_end addrs n e = e" by (subst run_end.simps) auto
    with "1.prems" show ?thesis by auto
  qed
qed

lemma run_range:
  assumes "i < e" "\<forall>j. Suc i \<le> j \<and> j < e \<longrightarrow> addrs ! j = addrs ! (j - 1) + of_nat n"
  shows "range_addrs (addrs ! i) ((e - i) * n) = concat (chunks addrs n i e)"
  using assms
proof (induction "e - i" arbitrary: i)
  case (Suc d)
  show ?case
  proof (cases "Suc i = e")
    case True
    then have "e - i = 1" by simp
    with True show ?thesis by (simp add: chunks_def upt_rec)
  next
    case False
    with Suc.prems have e: "Suc i < e" by simp
    have ih: "range_addrs (addrs ! Suc i) ((e - Suc i) * n) = concat (chunks addrs n (Suc i) e)"
      using Suc e by (intro Suc.hyps) auto
    have "(e - i) * n = n + (e - Suc i) * n"
      using e by (metis Suc_diff_Suc Suc_lessD mult_Suc)
    moreover have "addrs ! Suc i = addrs ! i + of_nat n" using Suc.prems(2) e by force
    moreover have "chunks addrs n i e = range_addrs (addrs ! i) n # chunks addrs n (Suc i) e"
      using e by (simp add: chunks_def upt_conv_Cons)
    ultimately show ?thesis using ih by (simp add: range_addrs_append)
  qed
qed simp

section \<open>Slots of the output buffer\<close>

lemma length_put [simp]: "off + length bs \<le> length out \<Longrightarrow> length (put off bs out) = length out"
  by (simp add: put_def)

lemma put_Nil [simp]: "put off [] out = out"
  by (simp add: put_def)

lemma put_append:
  "off + length a \<le> length out \<Longrightarrow> put (off + length a) b (put off a out) = put off (a @ b) out"
  by (simp add: put_def ac_simps)

lemma slot_put_before:
  assumes "Suc j * n \<le> off" "off \<le> length out"
  shows "slot n j (put off bs out) = slot n j out"
proof -
  have "take n (drop (j * n) (take off out @ rest)) = take n (drop (j * n) out)" for rest
    using assms by (simp add: drop_take min_absorb1 add.commute)
  then show ?thesis by (simp only: slot_def put_def)
qed

lemma slot_put_in:
  assumes "i \<le> j" "(Suc j - i) * n \<le> length bs" "i * n + length bs \<le> length out"
  shows "slot n j (put (i * n) bs out) = take n (drop ((j - i) * n) bs)"
proof -
  have jn: "j * n = i * n + (j - i) * n"
    using assms(1) by (metis add_mult_distrib le_add_diff_inverse)
  have len: "n + (j - i) * n \<le> length bs"
    using assms(1,2) by (simp add: Suc_diff_le)
  have "i * n \<le> length out" using assms(3) by simp
  then have "drop (j * n) (put (i * n) bs out) = drop ((j - i) * n) (bs @ drop (i * n + length bs) out)"
    by (simp add: put_def jn)
  with len show ?thesis by (simp add: slot_def)
qed

lemma scatter_split:
  assumes "off + length bs \<le> length out"
  shows "put (off + m) (drop m bs) (put off (take m bs) out) = put off bs out"
proof (cases "m \<le> length bs")
  case True
  then show ?thesis
    using put_append[of off "take m bs" out "drop m bs"] assms by simp
next
  case False
  then show ?thesis by simp
qed

lemma build_iov_covers:
  assumes "build_iov addrs n e k = (locs, remote, e')" "e \<le> length addrs"
  shows "e \<le> e' \<and> e' \<le> length addrs \<and> iov_addrs remote = concat (chunks addrs n e e')"
  using assms
proof (induction addrs n e k arbitrary: locs remote rule: build_iov.induct)
  case (1 addrs n e k)
  show ?case
  proof (cases "e < length addrs \<and> k < 1024")
    case True
    define e1 where "e1 = run_end addrs n (Suc e)"
    obtain locs1 remote1 where rest: "build_iov addrs n e1 (Suc k) = (locs1, remote1, e')"
      and eq: "locs = (e * n, (e1 - e) * n) # locs1" "remote = (addrs ! e, (e1 - e) * n) # remote1"
      using "1.prems"(1) True by (subst (asm) build_iov.simps) (auto simp: e1_def Let_def split: prod.splits)
    have e1: "Suc e \<le> e1" "e1 \<le> length addrs" "\<forall>j. Suc e \<le> j \<and> j < e1 \<longrightarrow> addrs ! j = addrs ! (j - 1) + of_nat n"
      using run_end_ge[of "Suc e" addrs n, folded e1_def] run_end_props[OF e1_def[symmetric]] True by auto
    have ih: "e1 \<le> e' \<and> e' \<le> length addrs \<and> iov_addrs remote1 = concat (chunks addrs n e1 e')"
      using "1.IH"[OF True e1_def refl] rest e1(2) by blast
    have "range_addrs (addrs ! e) ((e1 - e) * n) = concat (chunks addrs n e e1)"
      using e1 by (intro run_range) auto
    moreover have "chunks addrs n e e' = chunks addrs n e e1 @ chunks addrs n e1 e'"
      using e1 ih by (intro chunks_split) auto
    ultimately show ?thesis using e1 ih eq by (simp add: iov_addrs_def)
  next
    case False
    then have "build_iov addrs n e k = ([], [], e)" by (subst build_iov.simps) auto
    with "1.prems" show ?thesis by (simp add: chunks_def iov_addrs_def)
  qed
qed

lemma build_iov_progress:
  assumes "build_iov addrs n e 0 = (locs, remote, e')" "e < length addrs"
  shows "e < e'"
proof -
  obtain l r where "build_iov addrs n (run_end addrs n (Suc e)) (Suc 0) = (l, r, e')"
    using assms by (subst (asm) build_iov.simps) (auto simp: Let_def split: prod.splits)
  moreover have "Suc e \<le> run_end addrs n (Suc e)" "run_end addrs n (Suc e) \<le> length addrs"
    using run_end_ge[of "Suc e" addrs n] run_end_props[of addrs n "Suc e", OF refl] assms(2) by auto
  ultimately show ?thesis
    using build_iov_covers[of addrs n "run_end addrs n (Suc e)" "Suc 0" l r e'] by linarith
qed

lemma build_iov_scatter:
  assumes "build_iov addrs n e k = (locs, remote, e')" "e \<le> length addrs"
    "length out = length addrs * n" "length bs \<le> (e' - e) * n"
  shows "scatter locs bs out = put (e * n) bs out"
  using assms
proof (induction addrs n e k arbitrary: locs remote bs out rule: build_iov.induct)
  case (1 addrs n e k)
  show ?case
  proof (cases "e < length addrs \<and> k < 1024")
    case True
    define e1 where "e1 = run_end addrs n (Suc e)"
    define m where "m = (e1 - e) * n"
    obtain locs1 remote1 where rest: "build_iov addrs n e1 (Suc k) = (locs1, remote1, e')"
      and eq: "locs = (e * n, m) # locs1"
      using "1.prems"(1) True
      by (subst (asm) build_iov.simps) (auto simp: e1_def m_def Let_def split: prod.splits)
    have e1: "Suc e \<le> e1" "e1 \<le> length addrs"
      using run_end_ge[of "Suc e" addrs n, folded e1_def] run_end_props[OF e1_def[symmetric]] True by auto
    have e': "e1 \<le> e'" "e' \<le> length addrs"
      using build_iov_covers[OF rest e1(2)] by auto
    have em: "e1 * n = e * n + m" "(e' - e) * n = m + (e' - e1) * n"
      unfolding m_def add_mult_distrib[symmetric] using e1 e' by simp_all
    have "e * n + (e' - e) * n \<le> length addrs * n"
      unfolding add_mult_distrib[symmetric] using e1 e' by simp
    then have fits: "e * n + length bs \<le> length out" using "1.prems" by simp
    have "length (put (e * n) (take m bs) out) = length addrs * n"
      using fits "1.prems"(3) by simp
    moreover have "length (drop m bs) \<le> (e' - e1) * n"
      using "1.prems"(4) em by simp
    ultimately have "scatter locs1 (drop m bs) (put (e * n) (take m bs) out) =
        put (e1 * n) (drop m bs) (put (e * n) (take m bs) out)"
      using "1.IH"[OF True e1_def refl] rest e1(2) by blast
    then show ?thesis
      using eq em scatter_split[OF fits, of m] by simp
  next
    case False
    then have "build_iov addrs n e k = ([], [], e)" by (subst build_iov.simps) auto
    with "1.prems" show ?thesis by simp
  qed
qed

section \<open>What a scatter read delivers\<close>

definition slot_ok :: "memory \<Rightarrow> u64 \<Rightarrow> nat \<Rightarrow> bool" where
  "slot_ok mem a n = list_all (readable mem) (range_addrs a n)"

definition slot_val :: "memory \<Rightarrow> u64 \<Rightarrow> nat \<Rightarrow> bytes" where
  "slot_val mem a n = map (\<lambda>a. the (mem a)) (range_addrs a n)"

text \<open>Index \<open>j\<close> of a result is right: the flag says whether all bytes are readable, the slot holds them.\<close>

definition delivered :: "memory \<Rightarrow> u64 list \<Rightarrow> nat \<Rightarrow> bytes \<times> bool list \<Rightarrow> nat \<Rightarrow> bool" where
  "delivered mem addrs n r j \<longleftrightarrow>
     snd r ! j = slot_ok mem (addrs ! j) n \<and>
     (slot_ok mem (addrs ! j) n \<longrightarrow> slot n j (fst r) = slot_val mem (addrs ! j) n)"

lemma set_ok_nth:
  "length (set_ok i k ok) = length ok \<and>
   (\<forall>j < length ok. set_ok i k ok ! j = (if i \<le> j \<and> j < i + k then True else ok ! j))"
  by (induction i k ok rule: set_ok.induct) (auto simp: nth_list_update)

lemma readv_batch:
  assumes "readv_law mem rv" "0 < n" "iov_addrs remote = concat (chunks addrs n i e)" "i < e"
  shows "case rv remote of
      None \<Rightarrow> \<not> slot_ok mem (addrs ! i) n
    | Some got \<Rightarrow> length got \<le> (e - i) * n \<and>
        (let full = length got div n in full \<le> e - i \<and>
          (\<forall>j < full. slot_ok mem (addrs ! (i + j)) n \<and>
             take n (drop (j * n) got) = slot_val mem (addrs ! (i + j)) n) \<and>
          (full < e - i \<longrightarrow> \<not> slot_ok mem (addrs ! (i + full)) n))"
proof -
  define xss where "xss = chunks addrs n i e"
  define p where "p = takeWhile (readable mem) (concat xss)"
  define full where "full = length p div n"
  have eq: "\<forall>xs \<in> set xss. length xs = n" by (simp add: xss_def)
  have full: "full = length (takeWhile (list_all (readable mem)) xss)"
    using takeWhile_concat_chunks[OF eq assms(2)] by (simp add: full_def p_def)
  have le: "full \<le> e - i"
    using length_takeWhile_le[of "list_all (readable mem)" xss] by (simp add: full xss_def)
  have nonempty: "concat xss \<noteq> []"
  proof
    assume "concat xss = []"
    then have "length (concat xss) = 0" by simp
    with length_concat_equal[OF eq] assms(2,4) show False by (simp add: xss_def)
  qed
  have rv: "rv remote = (if p = [] then None else Some (map (\<lambda>a. the (mem a)) p))"
    using assms(1,3) nonempty
    by (simp add: readv_law_def readable_prefix_def p_def xss_def Let_def)
  have stop: "\<not> slot_ok mem (addrs ! (i + full)) n" if "full < e - i"
  proof -
    have "full < length xss" using that by (simp add: xss_def)
    then have "\<not> list_all (readable mem) (xss ! full)"
      unfolding full by (rule nth_length_takeWhile)
    then show ?thesis using that by (simp add: slot_ok_def xss_def)
  qed
  show ?thesis
  proof (cases "p = []")
    case True
    then have "full = 0" by (simp add: full_def)
    with stop assms(4) rv True show ?thesis by simp
  next
    case False
    have "slot_ok mem (addrs ! (i + j)) n \<and>
        take n (drop (j * n) (map (\<lambda>a. the (mem a)) p)) = slot_val mem (addrs ! (i + j)) n"
      if "j < full" for j
    proof -
      have j: "j < length (takeWhile (list_all (readable mem)) xss)" using that full by simp
      have "xss ! j = range_addrs (addrs ! (i + j)) n" using that le by (simp add: xss_def)
      moreover have "list_all (readable mem) (xss ! j)"
        by (metis j nth_mem set_takeWhileD takeWhile_nth)
      moreover have "take n (drop (j * n) p) = xss ! j"
        unfolding p_def by (rule takeWhile_concat_slot[OF eq j])
      ultimately show ?thesis by (simp add: slot_ok_def slot_val_def take_map drop_map)
    qed
    moreover have "length p \<le> (e - i) * n"
      using length_takeWhile_le[of "readable mem" "concat xss"] length_concat_equal[OF eq]
      by (simp add: p_def xss_def)
    ultimately show ?thesis using False rv stop le by (simp add: full_def Let_def)
  qed
qed

lemma batch_loop_delivers:
  assumes "readv_law mem rv" "0 < n"
    "length out = length addrs * n" "length ok = length addrs"
  shows "let r = batch_loop rv addrs n i (out, ok) in
    length (fst r) = length addrs * n \<and> length (snd r) = length addrs \<and>
    (\<forall>j < length addrs. if j < i then slot n j (fst r) = slot n j out \<and> snd r ! j = ok ! j
       else delivered mem addrs n r j)"
  using assms
proof (induction rv addrs n i "(out, ok)" arbitrary: out ok rule: batch_loop.induct)
  case (1 rv addrs n i out ok)
  show ?case
  proof (cases "i < length addrs")
    case False
    then have "batch_loop rv addrs n i (out, ok) = (out, ok)" by (subst batch_loop.simps) simp
    with False "1.prems" show ?thesis by (simp add: Let_def)
  next
    case True
    obtain locs remote e where b: "build_iov addrs n i 0 = (locs, remote, e)"
      by (cases "build_iov addrs n i 0") auto
    have ie: "i < e" "e \<le> length addrs" "iov_addrs remote = concat (chunks addrs n i e)"
      using build_iov_progress[OF b True] build_iov_covers[OF b] True by auto
    note law = readv_batch[OF "1.prems"(1,2) ie(3,1)]
    show ?thesis
    proof (cases "rv remote")
      case None
      then have eq: "batch_loop rv addrs n i (out, ok) = batch_loop rv addrs n (Suc i) (out, ok[i := False])"
        using True b by (subst batch_loop.simps) simp
      define r where "r = batch_loop rv addrs n (Suc i) (out, ok[i := False])"
      have ih: "length (fst r) = length addrs * n \<and> length (snd r) = length addrs \<and>
          (\<forall>j < length addrs. if j < Suc i then slot n j (fst r) = slot n j out \<and> snd r ! j = ok[i := False] ! j
           else delivered mem addrs n r j)"
        using "1.hyps"(1)[OF True b[symmetric] refl None] "1.prems" unfolding r_def by (simp add: Let_def)
      have "\<not> slot_ok mem (addrs ! i) n" using law None by simp
      then have "delivered mem addrs n r i"
        using ih True "1.prems"(4) by (simp add: delivered_def)
      moreover have "slot n j (fst r) = slot n j out \<and> snd r ! j = ok ! j" if "j < i" for j
        using ih that True by simp
      ultimately show ?thesis
        unfolding eq r_def[symmetric] using ih by (simp add: Let_def) (metis not_less_less_Suc_eq)
    next
      case (Some got)
      define full where "full = length got div n"
      define out1 where "out1 = scatter locs got out"
      define ok1 where "ok1 = set_ok i full ok"
      have got: "length got \<le> (e - i) * n" "full \<le> e - i"
        "\<And>j. j < full \<Longrightarrow> slot_ok mem (addrs ! (i + j)) n \<and>
             take n (drop (j * n) got) = slot_val mem (addrs ! (i + j)) n"
        "full < e - i \<Longrightarrow> \<not> slot_ok mem (addrs ! (i + full)) n"
        using law Some by (auto simp: full_def Let_def)
      have "i * n + (e - i) * n \<le> length addrs * n"
        unfolding add_mult_distrib[symmetric] using ie by simp
      then have fits: "i * n + length got \<le> length out" using got "1.prems"(3) by simp
      have out1: "out1 = put (i * n) got out"
        unfolding out1_def using build_iov_scatter[OF b _ "1.prems"(3) got(1)] True by simp
      have len1: "length out1 = length addrs * n" using out1 fits "1.prems"(3) by simp
      have before: "slot n j out1 = slot n j out" if "j < i" for j
      proof -
        have "Suc j * n \<le> i * n" using that by (intro mult_le_mono1) simp
        then show ?thesis unfolding out1 using fits by (intro slot_put_before) simp_all
      qed
      have filled: "slot n (i + j) out1 = slot_val mem (addrs ! (i + j)) n" if "j < full" for j
      proof -
        have "Suc j * n \<le> full * n" using that by (intro mult_le_mono1) simp
        also have "full * n \<le> length got" by (simp add: full_def)
        finally have "Suc j * n \<le> length got" .
        then show ?thesis
          unfolding out1 using slot_put_in[of i "i + j" n got out] fits got(3)[OF that] by (simp add: Suc_diff_le)
      qed
      have ok1: "length ok1 = length addrs"
        "\<And>j. j < length addrs \<Longrightarrow> ok1 ! j = (if i \<le> j \<and> j < i + full then True else ok ! j)"
        using set_ok_nth[of i full ok] "1.prems"(4) by (auto simp: ok1_def)
      have min: "min full (e - i) = full" using got(2) by simp
      show ?thesis
      proof (cases "full < e - i")
        case stop: True
        then have eq: "batch_loop rv addrs n i (out, ok) =
            batch_loop rv addrs n (Suc (i + full)) (out1, ok1[i + full := False])"
          using True b Some min
          by (subst batch_loop.simps) (simp add: full_def[symmetric] out1_def ok1_def)
        define r where "r = batch_loop rv addrs n (Suc (i + full)) (out1, ok1[i + full := False])"
        have ih: "length (fst r) = length addrs * n \<and> length (snd r) = length addrs \<and>
          (\<forall>j < length addrs. if j < Suc (i + full) then slot n j (fst r) = slot n j out1 \<and>
               snd r ! j = ok1[i + full := False] ! j
           else delivered mem addrs n r j)"
          using "1.hyps"(2)[OF True b[symmetric] refl Some refl refl refl refl] "1.prems" stop min len1 ok1(1)
          unfolding r_def by (simp add: full_def[symmetric] out1_def[symmetric] ok1_def[symmetric] Let_def)
        have "delivered mem addrs n r j" if "i \<le> j" "j < Suc (i + full)" for j
        proof (cases "j = i + full")
          case True
          with stop ie ih got(4)[OF stop] ok1(1) show ?thesis by (simp add: delivered_def)
        next
          case False
          then obtain d where d: "j = i + d" "d < full"
            using \<open>i \<le> j\<close> \<open>j < Suc (i + full)\<close> by (metis add_diff_inverse_nat add_less_cancel_left less_Suc_eq not_less)
          moreover have "j < length addrs" using d got(2) ie by simp
          ultimately show ?thesis
            using ih ok1 filled[OF d(2)] got(3)[OF d(2)] by (simp add: delivered_def)
        qed
        moreover have "slot n j (fst r) = slot n j out \<and> snd r ! j = ok ! j" if "j < i" for j
          using ih before[OF that] ok1 that True by simp
        ultimately show ?thesis
          unfolding eq r_def[symmetric] using ih by (simp add: Let_def) (metis not_less)
      next
        case False
        then have full: "full = e - i" "0 < full" using got(2) ie by auto
        then have eq: "batch_loop rv addrs n i (out, ok) = batch_loop rv addrs n (i + full) (out1, ok1)"
          using True b Some min
          by (subst batch_loop.simps) (simp add: full_def[symmetric] out1_def ok1_def)
        define r where "r = batch_loop rv addrs n (i + full) (out1, ok1)"
        have ih: "length (fst r) = length addrs * n \<and> length (snd r) = length addrs \<and>
          (\<forall>j < length addrs. if j < i + full then slot n j (fst r) = slot n j out1 \<and> snd r ! j = ok1 ! j
           else delivered mem addrs n r j)"
          using "1.hyps"(3)[OF True b[symmetric] refl Some refl refl refl refl, folded full_def, unfolded min,
              folded out1_def ok1_def, OF False _ "1.prems"(1,2) len1 ok1(1)] full(2)
          unfolding r_def Let_def by simp
        have "delivered mem addrs n r j" if ij: "i \<le> j" "j < i + full" for j
        proof -
          obtain d where d: "j = i + d" "d < full"
            using ij by (intro that[of "j - i"]) simp_all
          have jl: "j < length addrs" using d got(2) ie by simp
          have "slot n j (fst r) = slot n j out1" "snd r ! j = ok1 ! j"
            using ih jl ij(2) by simp_all
          moreover have "ok1 ! j" using ok1(2)[OF jl] ij by simp
          ultimately show ?thesis
            using filled[OF d(2)] got(3)[OF d(2)] d(1) by (simp add: delivered_def)
        qed
        moreover have "slot n j (fst r) = slot n j out \<and> snd r ! j = ok ! j" if "j < i" for j
          using ih before[OF that] ok1 that True by simp
        ultimately show ?thesis
          unfolding eq r_def[symmetric] using ih by (simp add: Let_def) (metis not_less)
      qed
    qed
  qed
qed

section \<open>The span path\<close>

text \<open>The output buffer lies in the user address space, below \<open>2 ^ 56\<close>, so offsets do not wrap.\<close>

definition buffer_fits :: "u64 list \<Rightarrow> nat \<Rightarrow> bool" where
  "buffer_fits addrs n \<longleftrightarrow> length addrs * n < 2 ^ 56"

definition offset :: "u64 list \<Rightarrow> nat \<Rightarrow> nat" where
  "offset addrs k = unat (addrs ! k - hd addrs)"

lemma dense_step:
  assumes "dense addrs n" "Suc k < length addrs" "n < 2 ^ 56"
  shows "unat (addrs ! k) \<le> unat (addrs ! Suc k) \<and> unat (addrs ! Suc k) \<le> unat (addrs ! k) + n + 64"
  using assms
proof (induction addrs n arbitrary: k rule: dense.induct)
  case (1 a b as n)
  show ?case
  proof (cases k)
    case 0
    have "a \<le> b" "b - a \<le> of_nat n + 64" using "1.prems"(1) by auto
    moreover have "unat (of_nat n + 64 :: u64) = n + 64"
      using "1.prems"(3) by (simp add: unat_word_ariths unat_of_nat take_bit_eq_mod)
    ultimately have "unat a \<le> unat b" "unat b - unat a \<le> n + 64"
      by (simp_all add: word_le_nat_alt unat_sub)
    with 0 show ?thesis by simp
  next
    case (Suc k')
    with "1.prems" "1.IH"[of k'] show ?thesis by auto
  qed
qed auto

lemma dense_mono:
  assumes "dense addrs n" "n < 2 ^ 56" "j \<le> k" "k < length addrs"
  shows "unat (addrs ! j) \<le> unat (addrs ! k) \<and> unat (addrs ! k) \<le> unat (addrs ! j) + (k - j) * (n + 64)"
  using assms(3,4)
proof (induction k rule: dec_induct)
  case (step k)
  then show ?case
    using dense_step[OF assms(1) _ assms(2), of k] by (simp add: Suc_diff_le)
qed simp

lemma dense_offset:
  assumes "dense addrs n" "n < 2 ^ 56" "k < length addrs"
  shows "unat (addrs ! k) = unat (hd addrs) + offset addrs k"
proof -
  have "hd addrs = addrs ! 0" using assms(3) by (cases addrs) auto
  moreover have "addrs ! 0 \<le> addrs ! k"
    using dense_mono[OF assms(1,2) _ assms(3), of 0] by (simp add: word_le_nat_alt)
  ultimately show ?thesis by (simp add: offset_def unat_sub word_le_nat_alt)
qed

lemma dense_offset_bound:
  assumes "dense addrs n" "buffer_fits addrs n" "0 < n" "k < length addrs"
  shows "offset addrs k + n < 2 ^ 64"
proof -
  have n: "n < 2 ^ 56"
    using assms(2-4) by (auto simp: buffer_fits_def dest: le_less_trans[rotated] intro: le_less_trans[of n "length addrs * n"])
  have "hd addrs = addrs ! 0" using assms(4) by (cases addrs) auto
  then have "offset addrs k \<le> k * (n + 64)"
    using dense_mono[OF assms(1) n _ assms(4), of 0] dense_offset[OF assms(1) n assms(4)] by simp
  also have "\<dots> \<le> k * (65 * n)"
    using assms(3) by (intro mult_le_mono2) simp
  finally have "offset addrs k + n \<le> 65 * (Suc k * n)" by simp
  also have "\<dots> \<le> 65 * (length addrs * n)"
    using assms(4) by (intro mult_le_mono2 mult_le_mono1) simp
  finally show ?thesis using assms(2) by (simp add: buffer_fits_def)
qed

lemma copy_slots_spec:
  assumes "copy_slots a0 scratch (drop k addrs) n k (out, ok) = (k', out', ok')" "k \<le> length addrs"
    "length out = length addrs * n" "length ok = length addrs"
    "\<And>j. j < length addrs \<Longrightarrow> unat (addrs ! j - a0) + n < 2 ^ 64" "length scratch < 2 ^ 64"
  shows "k \<le> k' \<and> k' \<le> length addrs \<and> length out' = length addrs * n \<and> length ok' = length addrs \<and>
    (\<forall>j < k. slot n j out' = slot n j out \<and> ok' ! j = ok ! j) \<and>
    (\<forall>j. k \<le> j \<and> j < k' \<longrightarrow> ok' ! j \<and> unat (addrs ! j - a0) + n \<le> length scratch \<and>
       slot n j out' = take n (drop (unat (addrs ! j - a0)) scratch)) \<and>
    (k' < length addrs \<longrightarrow> length scratch < unat (addrs ! k' - a0) + n)"
  using assms(1-4)
proof (induction "length addrs - k" arbitrary: k out ok)
  case 0
  then show ?case by auto
next
  case (Suc d)
  then have k: "k < length addrs" by simp
  then have drop: "drop k addrs = addrs ! k # drop (Suc k) addrs" by (simp add: Cons_nth_drop_Suc)
  define off where "off = unat (addrs ! k - a0)"
  have "n < 2 ^ 64" using assms(5)[OF k] by simp
  then have "unat (addrs ! k - a0 + of_nat n :: u64) = off + n"
    using assms(5)[OF k] by (simp add: unat_word_ariths unat_of_nat take_bit_eq_mod off_def)
  then have test: "addrs ! k - a0 + of_nat n \<le> of_nat (length scratch) \<longleftrightarrow> off + n \<le> length scratch"
    using assms(6) by (simp add: word_le_nat_alt unat_of_nat take_bit_eq_mod)
  show ?case
  proof (cases "off + n \<le> length scratch")
    case True
    define out1 where "out1 = put (k * n) (take n (drop off scratch)) out"
    have fits: "k * n + n \<le> length out"
      using k mult_le_mono1[of "Suc k" "length addrs" n] Suc.prems(3) by simp
    have len: "length (take n (drop off scratch)) = n" using True by simp
    have "length out1 = length addrs * n" unfolding out1_def using fits len Suc.prems(3) by simp
    moreover have "copy_slots a0 scratch (drop (Suc k) addrs) n (Suc k) (out1, ok[k := True]) = (k', out', ok')"
      using Suc.prems(1) drop test True by (simp add: Let_def off_def out1_def)
    ultimately have ih: "Suc k \<le> k' \<and> k' \<le> length addrs \<and> length out' = length addrs * n \<and> length ok' = length addrs \<and>
      (\<forall>j < Suc k. slot n j out' = slot n j out1 \<and> ok' ! j = ok[k := True] ! j) \<and>
      (\<forall>j. Suc k \<le> j \<and> j < k' \<longrightarrow> ok' ! j \<and> unat (addrs ! j - a0) + n \<le> length scratch \<and>
         slot n j out' = take n (drop (unat (addrs ! j - a0)) scratch)) \<and>
      (k' < length addrs \<longrightarrow> length scratch < unat (addrs ! k' - a0) + n)"
      using Suc.hyps(1)[of "Suc k" out1 "ok[k := True]"] Suc.hyps(2) Suc.prems k by simp
    have here: "slot n k out1 = take n (drop off scratch)"
      using slot_put_in[of k k n "take n (drop off scratch)" out] fits len by (simp add: out1_def)
    have before: "slot n j out1 = slot n j out" if "j < k" for j
    proof -
      have "Suc j * n \<le> k * n" using that by (intro mult_le_mono1) simp
      then show ?thesis unfolding out1_def using fits by (intro slot_put_before) simp_all
    qed
    have "ok' ! j \<and> unat (addrs ! j - a0) + n \<le> length scratch \<and>
         slot n j out' = take n (drop (unat (addrs ! j - a0)) scratch)" if "k \<le> j" "j < k'" for j
      using ih that True here k Suc.prems(4) by (cases "j = k") (auto simp: off_def)
    with ih before k show ?thesis by simp
  next
    case False
    then have "(k', out', ok') = (k, out, ok)"
      using Suc.prems(1) drop test by (simp add: Let_def)
    with False Suc.prems k show ?thesis by (auto simp: off_def)
  qed
qed

lemma page_start:
  fixes x d :: nat
  assumes "(x - 1) div 4096 \<noteq> x div 4096" "0 < x" "d \<le> 64"
  shows "(x + d) div 4096 = x div 4096"
proof -
  have "x = 4096 * (x div 4096) + x mod 4096" by simp
  then have "x mod 4096 = 0 \<or> x - 1 = 4096 * (x div 4096) + (x mod 4096 - 1)"
    using assms(2) by linarith
  moreover have "(4096 * (x div 4096) + (x mod 4096 - 1)) div 4096 = x div 4096"
    by (simp add: less_imp_diff_less)
  ultimately have "x mod 4096 = 0"
    using assms(1) by auto
  then obtain q where "x = 4096 * q" by auto
  then show ?thesis using assms(3) by simp
qed

lemma range_addrs_nth [simp]: "k < n \<Longrightarrow> range_addrs a n ! k = a + of_nat k"
  by (simp add: range_addrs_def)

lemma takeWhile_nth_P: "k < length (takeWhile P xs) \<Longrightarrow> P (xs ! k)"
  by (metis nth_mem set_takeWhileD takeWhile_nth)

lemma slot_ok_iff: "slot_ok mem a n \<longleftrightarrow> (\<forall>k < n. readable mem (a + of_nat k))"
  by (auto simp: slot_ok_def list_all_iff range_addrs_def)

text \<open>
  The span read stops inside the slot at \<open>k\<close> or in the gap before it; in the gap a page boundary
  makes the whole slot unreadable, because the gap is shorter than a page.
\<close>

lemma span_fault:
  assumes dense: "dense addrs n" and fits: "buffer_fits addrs n" and n: "0 < n"
    and pages: "page_granular mem" and k: "k < length addrs"
    and g: "g = length (takeWhile (readable mem) (range_addrs (hd addrs) span))" "g < span"
    and fault: "g < offset addrs k + n"
    and prev: "0 < k \<Longrightarrow> offset addrs (k - 1) + n \<le> g"
  shows "\<not> slot_ok mem (addrs ! k) n"
proof -
  have n56: "n < 2 ^ 56"
    using fits k n by (auto simp: buffer_fits_def intro: le_less_trans[of n "length addrs * n"])
  have bad: "\<not> readable mem (hd addrs + of_nat g)"
    using nth_length_takeWhile[of "readable mem" "range_addrs (hd addrs) span"] g by simp
  have addr: "unat (addrs ! k) = unat (hd addrs) + offset addrs k"
    by (rule dense_offset[OF dense n56 k])
  show ?thesis
  proof (cases "offset addrs k \<le> g")
    case True
    have "addrs ! k + of_nat (g - offset addrs k) = hd addrs + of_nat g"
      using True by (simp add: offset_def of_nat_diff)
    then have "\<not> readable mem (addrs ! k + of_nat (g - offset addrs k))" using bad by simp
    moreover have "g - offset addrs k < n" using fault True by simp
    ultimately show ?thesis unfolding slot_ok_iff by blast
  next
    case False
    have kpos: "0 < k"
      using False k by (cases k) (auto simp: offset_def hd_conv_nth)
    have gpos: "0 < g" using prev[OF kpos] n by simp
    have gap: "offset addrs k \<le> g + 64"
      using dense_step[OF dense _ n56, of "k - 1"] kpos k addr dense_offset[OF dense n56, of "k - 1"] prev[OF kpos]
      by simp
    have below: "unat (hd addrs) + g < 2 ^ 64"
      using False addr unat_u64_less[of "addrs ! k"] by simp
    have at: "unat (hd addrs + of_nat d) = unat (hd addrs) + d" if "d \<le> g" for d
      using below that by (simp add: unat_word_ariths unat_of_nat take_bit_eq_mod)
    have at_g: "unat (hd addrs + of_nat g) = unat (hd addrs) + g" by (rule at) simp
    have at_pre: "unat (hd addrs + of_nat (g - 1)) = unat (hd addrs) + g - 1"
      using at[of "g - 1"] gpos by (simp only: diff_le_self Nat.add_diff_assoc Suc_leI One_nat_def)
    have "g - 1 < length (takeWhile (readable mem) (range_addrs (hd addrs) span))"
      using g(1) gpos by simp
    then have "readable mem (hd addrs + of_nat (g - 1))"
      using takeWhile_nth_P[of "g - 1" "readable mem" "range_addrs (hd addrs) span"] g by simp
    then have "(unat (hd addrs) + g - 1) div 4096 \<noteq> (unat (hd addrs) + g) div 4096"
      using bad pages at_g at_pre unfolding page_granular_def by metis
    then have "(unat (hd addrs) + g + (offset addrs k - g)) div 4096 = (unat (hd addrs) + g) div 4096"
      using gap gpos by (intro page_start) simp_all
    then have "unat (addrs ! k) div 4096 = unat (hd addrs + of_nat g) div 4096"
      using addr at_g False by simp
    then have "\<not> readable mem (addrs ! k)"
      using bad pages unfolding page_granular_def by metis
    then show ?thesis using n by (auto simp: slot_ok_iff intro!: exI[of _ 0])
  qed
qed

section \<open>Both readers deliver\<close>

lemma linux_read_slot:
  assumes "readv_law mem rv" "0 < n"
  shows "case linux_read rv a n of
      None \<Rightarrow> \<not> slot_ok mem a n
    | Some bs \<Rightarrow> length bs \<le> n \<and> (length bs = n) = slot_ok mem a n \<and>
        (slot_ok mem a n \<longrightarrow> bs = slot_val mem a n)"
proof -
  have "chunks [a] n 0 1 = [range_addrs a n]" by (simp add: chunks_def)
  then have "iov_addrs [(a, n)] = concat (chunks [a] n 0 1)" by (simp add: iov_addrs_def)
  from readv_batch[OF assms this] show ?thesis
    using assms(2) by (fastforce simp: linux_read_def Let_def div_eq_0_iff le_less split: option.splits)
qed

lemma readMany_loop_delivers:
  assumes "readv_law mem rv" "0 < n" "i \<le> length addrs"
    "length out = length addrs * n" "length ok = length addrs"
  shows "let r = readMany_loop (linux_read rv) (drop i addrs) n i (out, ok) in
    length (fst r) = length addrs * n \<and> length (snd r) = length addrs \<and>
    (\<forall>j < length addrs. if j < i then slot n j (fst r) = slot n j out \<and> snd r ! j = ok ! j
       else delivered mem addrs n r j)"
  using assms(3-)
proof (induction "length addrs - i" arbitrary: i out ok)
  case 0
  then show ?case by (simp add: Let_def)
next
  case (Suc d)
  then have i: "i < length addrs" by simp
  then have drop: "drop i addrs = addrs ! i # drop (Suc i) addrs" by (simp add: Cons_nth_drop_Suc)
  define rd where "rd = linux_read rv (addrs ! i) n"
  define out1 where "out1 = (case rd of None \<Rightarrow> out | Some bs \<Rightarrow> put (i * n) bs out)"
  define ok1 where "ok1 = ok[i := (case rd of None \<Rightarrow> False | Some bs \<Rightarrow> length bs = n)]"
  define r where "r = readMany_loop (linux_read rv) (drop (Suc i) addrs) n (Suc i) (out1, ok1)"
  have eq: "readMany_loop (linux_read rv) (drop i addrs) n i (out, ok) = r"
    by (simp add: drop r_def out1_def ok1_def rd_def Let_def)
  note law = linux_read_slot[OF assms(1,2), of "addrs ! i", folded rd_def]
  have room: "i * n + n \<le> length out"
    using i mult_le_mono1[of "Suc i" "length addrs" n] Suc.prems(2) by simp
  have len: "length out1 = length addrs * n"
    using law room Suc.prems(2) by (auto simp: out1_def split: option.splits)
  have before: "slot n j out1 = slot n j out" if "j < i" for j
  proof -
    have "Suc j * n \<le> i * n" using that by (intro mult_le_mono1) simp
    then show ?thesis using room by (auto simp: out1_def intro!: slot_put_before split: option.splits)
  qed
  have here: "ok1 ! i = slot_ok mem (addrs ! i) n"
    "slot_ok mem (addrs ! i) n \<Longrightarrow> slot n i out1 = slot_val mem (addrs ! i) n"
    using law i Suc.prems(3) slot_put_in[of i i n _ out] room
    by (auto simp: ok1_def out1_def split: option.splits)
  have ih: "length (fst r) = length addrs * n \<and> length (snd r) = length addrs \<and>
    (\<forall>j < length addrs. if j < Suc i then slot n j (fst r) = slot n j out1 \<and> snd r ! j = ok1 ! j
       else delivered mem addrs n r j)"
    using Suc.hyps(1)[of "Suc i" out1 ok1] Suc.hyps(2) i len Suc.prems(3)
    by (simp add: r_def ok1_def Let_def)
  have "delivered mem addrs n r i" using ih here i by (simp add: delivered_def)
  moreover have "slot n j (fst r) = slot n j out \<and> snd r ! j = ok ! j" if "j < i" for j
    using ih before[OF that] that i by (simp add: ok1_def)
  ultimately show ?case
    unfolding eq using ih by (simp add: Let_def) (metis not_less_less_Suc_eq)
qed

lemma span_path_delivers:
  assumes law: "readv_law mem rv" and n: "0 < n" and span: "use_span addrs n"
    and fits: "buffer_fits addrs n" and pages: "page_granular mem"
    and lens: "length out = length addrs * n" "length ok = length addrs"
    and r: "r = readMany rv addrs n (out, ok)"
  shows "length (fst r) = length addrs * n \<and> length (snd r) = length addrs \<and>
    (\<forall>j < length addrs. delivered mem addrs n r j)"
proof -
  define span where "span = unat (span_of addrs n)"
  define p where "p = takeWhile (readable mem) (range_addrs (hd addrs) span)"
  define got where "got = (case rv [(hd addrs, span)] of None \<Rightarrow> [] | Some bs \<Rightarrow> bs)"
  have dense: "dense addrs n" and len8: "8 \<le> length addrs" using span by (auto simp: use_span_def)
  have n56: "n < 2 ^ 56"
    using fits len8 n by (auto simp: buffer_fits_def intro: le_less_trans[of n "length addrs * n"])
  have got: "got = map (\<lambda>a. the (mem a)) p"
    using law by (simp add: got_def readv_law_def readable_prefix_def p_def iov_addrs_def Let_def)
  have lp: "length p \<le> span"
    using length_takeWhile_le[of "readable mem" "range_addrs (hd addrs) span"] by (simp add: p_def)
  then have small: "length got < 2 ^ 64"
    using unat_u64_less[of "span_of addrs n"] by (simp add: got span_def)
  obtain k out1 ok1 where c: "copy_slots (hd addrs) got addrs n 0 (out, ok) = (k, out1, ok1)"
    by (cases "copy_slots (hd addrs) got addrs n 0 (out, ok)") auto
  have off: "unat (addrs ! j - hd addrs) + n < 2 ^ 64" if "j < length addrs" for j
    using dense_offset_bound[OF dense fits n that] by (simp add: offset_def)
  have spec: "k \<le> length addrs \<and> length out1 = length addrs * n \<and> length ok1 = length addrs \<and>
    (\<forall>j < k. ok1 ! j \<and> offset addrs j + n \<le> length got \<and>
       slot n j out1 = take n (drop (offset addrs j) got)) \<and>
    (k < length addrs \<longrightarrow> length got < offset addrs k + n)"
    using copy_slots_spec[of "hd addrs" got 0 addrs n out ok k out1 ok1] c lens off small
    by (simp add: offset_def)
  have copied: "slot_ok mem (addrs ! j) n \<and> take n (drop (offset addrs j) got) = slot_val mem (addrs ! j) n"
    if "j < k" for j
  proof -
    have jp: "offset addrs j + n \<le> length p" using spec that by (simp add: got)
    have addr: "addrs ! j + of_nat i = hd addrs + of_nat (offset addrs j + i)" for i
      by (simp add: offset_def)
    have at: "p ! (offset addrs j + i) = addrs ! j + of_nat i" "readable mem (addrs ! j + of_nat i)"
      if "i < n" for i
    proof -
      have "offset addrs j + i < length p" using that jp by simp
      moreover have "p ! (offset addrs j + i) = range_addrs (hd addrs) span ! (offset addrs j + i)"
        using calculation unfolding p_def by (rule takeWhile_nth)
      moreover have "readable mem (range_addrs (hd addrs) span ! (offset addrs j + i))"
        using calculation(1) unfolding p_def by (rule takeWhile_nth_P)
      ultimately show "p ! (offset addrs j + i) = addrs ! j + of_nat i"
        "readable mem (addrs ! j + of_nat i)"
        using lp unfolding addr by simp_all
    qed
    have "take n (drop (offset addrs j) p) = range_addrs (addrs ! j) n"
      using jp at(1) by (intro nth_equalityI) simp_all
    then show ?thesis
      using at(2) by (simp add: got slot_ok_iff slot_val_def take_map drop_map)
  qed
  have r': "r = (if k = length addrs then (out1, ok1)
      else batch_loop rv addrs n (Suc k) (out1, ok1[k := False]))"
    using n span c unfolding r readMany_def got_def span_def by (simp add: Let_def)
  show ?thesis
  proof (cases "k = length addrs")
    case True
    with r' spec copied show ?thesis by (simp add: delivered_def)
  next
    case False
    then have k: "k < length addrs" using spec by simp
    have last: "span = offset addrs (length addrs - 1) + n"
    proof -
      have "last addrs = addrs ! (length addrs - 1)" using len8 by (intro last_conv_nth) auto
      then have "span_of addrs n = addrs ! (length addrs - 1) - hd addrs + of_nat n"
        by (simp add: span_of_def)
      then show ?thesis
        using off[of "length addrs - 1"] n56 len8
        by (simp add: span_def offset_def unat_word_ariths unat_of_nat take_bit_eq_mod)
    qed
    have "offset addrs k \<le> offset addrs (length addrs - 1)"
      using dense_mono[OF dense n56, of k "length addrs - 1"] dense_offset[OF dense n56] k by fastforce
    then have short: "length p < span" using spec k last by (simp add: got)
    have prev: "offset addrs (k - 1) + n \<le> length p" if "0 < k"
      using spec that by (simp add: got)
    have "\<not> slot_ok mem (addrs ! k) n"
      using spec k prev short got
      by (intro span_fault[OF dense fits n pages k, of "length p" span]) (simp_all add: p_def)
    moreover have "length (fst r) = length addrs * n \<and> length (snd r) = length addrs \<and>
      (\<forall>j < length addrs. if j < Suc k then slot n j (fst r) = slot n j out1 \<and> snd r ! j = ok1[k := False] ! j
       else delivered mem addrs n r j)"
      using batch_loop_delivers[OF law n, of out1 addrs "ok1[k := False]" "Suc k"] spec False
      by (simp add: r' Let_def)
    moreover have "delivered mem addrs n r j"
      if "j < length addrs" "\<not> slot_ok mem (addrs ! k) n" and loop: "length (fst r) = length addrs * n \<and>
        length (snd r) = length addrs \<and>
        (\<forall>j < length addrs. if j < Suc k then slot n j (fst r) = slot n j out1 \<and> snd r ! j = ok1[k := False] ! j
         else delivered mem addrs n r j)" for j
    proof -
      consider "j < k" | "j = k" | "Suc k \<le> j" by linarith
      then show ?thesis
      proof cases
        case 1
        with loop that(1) spec copied[OF 1] show ?thesis by (simp add: delivered_def)
      next
        case 2
        with loop that(1,2) spec show ?thesis by (simp add: delivered_def)
      next
        case 3
        then have "\<not> j < Suc k" by simp
        with loop that(1) show ?thesis by meson
      qed
    qed
    ultimately show ?thesis by blast
  qed
qed

text \<open>
  C3: the span and batched paths of readMany answer as the per-address loop of the interface does:
  the same addresses are reported readable and their slots hold the same bytes.
\<close>

theorem readMany_equals_default:
  assumes "readv_law mem rv" and "page_granular mem" and "buffer_fits addrs n" and "0 < n"
    and "length out = length addrs * n" and "length ok = length addrs"
  shows "snd (readMany rv addrs n (out, ok)) = snd (readMany_default (linux_read rv) addrs n (out, ok)) \<and>
    (\<forall>j < length addrs. snd (readMany rv addrs n (out, ok)) ! j \<longrightarrow>
       slot n j (fst (readMany rv addrs n (out, ok))) =
       slot n j (fst (readMany_default (linux_read rv) addrs n (out, ok))))"
proof -
  define r where "r = readMany rv addrs n (out, ok)"
  define r' where "r' = readMany_default (linux_read rv) addrs n (out, ok)"
  have "length (snd r) = length addrs \<and> (\<forall>j < length addrs. delivered mem addrs n r j)"
  proof (cases "use_span addrs n")
    case True
    from span_path_delivers[OF assms(1,4) True assms(3,2,5,6) r_def] show ?thesis by blast
  next
    case False
    then have "r = batch_loop rv addrs n 0 (out, ok)" using assms(4) by (simp add: r_def readMany_def)
    with batch_loop_delivers[OF assms(1,4,5,6), of 0] show ?thesis by (simp add: Let_def)
  qed
  moreover have "length (snd r') = length addrs \<and> (\<forall>j < length addrs. delivered mem addrs n r' j)"
    using readMany_loop_delivers[OF assms(1,4) _ assms(5,6), of 0]
    by (simp add: r'_def readMany_default_def Let_def)
  ultimately show ?thesis
    unfolding r_def[symmetric] r'_def[symmetric]
    by (auto simp: delivered_def intro!: nth_equalityI)
qed

definition demo_memory :: memory where
  "demo_memory a = (if unat a div 4096 = 1 then Some (ucast a) else None)"

definition demo_readv :: readv where
  "demo_readv iovs =
     (let got = readable_prefix demo_memory (iov_addrs iovs) in
      if got = [] \<and> iov_addrs iovs \<noteq> [] then None else Some got)"

text \<open>Eight dense addresses, the last of which cannot be read, so that the span path is taken first.\<close>

definition span_addrs :: "u64 list" where
  "span_addrs = [8160, 8164, 8168, 8172, 8176, 8180, 8184, 8192]"

theorem readMany_equals_default_witness:
  "use_span span_addrs 2 \<and>
   snd (readMany demo_readv span_addrs 2 (replicate 16 0, replicate 8 False)) =
   snd (readMany_default (linux_read demo_readv) span_addrs 2 (replicate 16 0, replicate 8 False))"
proof -
  have span: "use_span span_addrs 2" by code_simp
  have len: "length span_addrs = 8" by (simp add: span_addrs_def)
  have "readv_law demo_memory demo_readv" by (simp add: readv_law_def demo_readv_def)
  moreover have "page_granular demo_memory"
    by (simp add: page_granular_def demo_memory_def readable_def)
  moreover have "buffer_fits span_addrs 2" by (simp add: buffer_fits_def span_addrs_def)
  ultimately show ?thesis
    using readMany_equals_default[of demo_memory demo_readv span_addrs 2
        "replicate 16 0" "replicate 8 False"] span len by simp
qed

end
