(* ===== verification/Process_Api.thy ===== *)
theory Process_Api
  imports Process_Memory
begin

text \<open>
  The \<^verbatim>\<open>ProcessHandle\<close> interface (\<^verbatim>\<open>src/src/platform/process_api.hpp\<close>) as a record of operations on a
  process state, its checked templates \<^verbatim>\<open>read<T>\<close> and \<^verbatim>\<open>write<T>\<close>, and what the components
  rely on: a read gives the longest readable prefix, a write that reports all bytes has stored them.
  The types \<^verbatim>\<open>T\<close> of the templates are records of size and byte layout; the locale
  \<open>scalar_type\<close> is their contract, interpreted for the unsigned machine integers.
\<close>

record 's process =
  pr_read :: "'s \<Rightarrow> u64 \<Rightarrow> nat \<Rightarrow> bytes option"
  pr_write :: "'s \<Rightarrow> u64 \<Rightarrow> bytes \<Rightarrow> 's \<times> nat option"
  pr_regions :: "'s \<Rightarrow> MemoryRegion list"
  pr_modules :: "'s \<Rightarrow> ModuleInfo list"
  pr_is64 :: bool
  pr_runs32 :: bool

definition read_exact :: "'s process \<Rightarrow> 's \<Rightarrow> u64 \<Rightarrow> nat \<Rightarrow> bytes option" where
  "read_exact P s address n =
     (case pr_read P s address n of
        None \<Rightarrow> None
      | Some bs \<Rightarrow> if length bs = n then Some bs else None)"

definition write_exact :: "'s process \<Rightarrow> 's \<Rightarrow> u64 \<Rightarrow> bytes \<Rightarrow> 's \<times> bool" where
  "write_exact P s address bs =
     (case pr_write P s address bs of (s', r) \<Rightarrow> (s', r = Some (length bs)))"

definition read_u64 :: "'s process \<Rightarrow> 's \<Rightarrow> u64 \<Rightarrow> u64 option" where
  "read_u64 P s address = map_option le_val (read_exact P s address 8)"

definition read_u32 :: "'s process \<Rightarrow> 's \<Rightarrow> u64 \<Rightarrow> u32 option" where
  "read_u32 P s address = map_option le_val (read_exact P s address 4)"

section \<open>What the components rely on\<close>

definition read_law :: "'s process \<Rightarrow> ('s \<Rightarrow> memory) \<Rightarrow> bool" where
  "read_law P mem \<longleftrightarrow>
     (\<forall>s a n. pr_read P s a n =
        (let got = readable_prefix (mem s) (range_addrs a n) in
         if got = [] \<and> n \<noteq> 0 then None else Some got))"

fun store_bytes :: "memory \<Rightarrow> u64 \<Rightarrow> bytes \<Rightarrow> memory" where
  "store_bytes m a [] = m"
| "store_bytes m a (b # bs) = (store_bytes m (a + 1) bs)(a := Some b)"

definition write_law :: "'s process \<Rightarrow> ('s \<Rightarrow> memory) \<Rightarrow> bool" where
  "write_law P mem \<longleftrightarrow>
     (\<forall>s a bs s'. pr_write P s a bs = (s', None) \<longrightarrow> mem s' = mem s) \<and>
     (\<forall>s a bs s' n. pr_write P s a bs = (s', Some n) \<longrightarrow>
        n \<le> length bs \<and> mem s' = store_bytes (mem s) a (take n bs))"

lemma linux_read_law:
  assumes "readv_law mem rv"
  shows "linux_read rv a n =
    (let got = readable_prefix mem (range_addrs a n) in if got = [] \<and> n \<noteq> 0 then None else Some got)"
  using assms by (auto simp: linux_read_def readv_law_def iov_addrs_def Let_def range_addrs_def)

lemma read_exact_iff:
  assumes "read_law P mem"
  shows "read_exact P s a n = Some bs \<longleftrightarrow> slot_ok (mem s) a n \<and> bs = slot_val (mem s) a n"
proof -
  let ?as = "range_addrs a n"
  have full: "length (takeWhile (readable (mem s)) ?as) = n \<longleftrightarrow> slot_ok (mem s) a n"
    by (metis length_range_addrs length_takeWhile_le list_all_iff slot_ok_def takeWhile_eq_all_conv
        takeWhile_eq_take take_all_iff le_refl)
  have "takeWhile (readable (mem s)) ?as = ?as" if "slot_ok (mem s) a n"
    using that by (simp add: slot_ok_def list_all_iff takeWhile_eq_all_conv)
  moreover have "pr_read P s a n =
      (if takeWhile (readable (mem s)) ?as = [] \<and> n \<noteq> 0 then None
       else Some (map (\<lambda>a. the (mem s a)) (takeWhile (readable (mem s)) ?as)))"
    using assms by (simp add: read_law_def readable_prefix_def Let_def)
  moreover have "?as = [] \<longleftrightarrow> n = 0" by (simp add: range_addrs_def)
  ultimately show ?thesis
    using full by (cases "slot_ok (mem s) a n") (auto simp: read_exact_def slot_val_def simp del: takeWhile_eq_all_conv)
qed

lemma read_exact_eq:
  assumes "read_law P mem"
  shows "read_exact P s a n = (if slot_ok (mem s) a n then Some (slot_val (mem s) a n) else None)"
  using read_exact_iff[OF assms, of s a n] by (cases "read_exact P s a n") auto

lemma store_bytes_other: "(\<And>k. k < length bs \<Longrightarrow> x \<noteq> a + of_nat k) \<Longrightarrow> store_bytes m a bs x = m x"
proof (induction bs arbitrary: a)
  case (Cons b bs)
  have "x \<noteq> a" using Cons.prems[of 0] by simp
  moreover have "x \<noteq> a + 1 + of_nat k" if "k < length bs" for k
    using Cons.prems[of "Suc k"] that by (simp add: add.assoc)
  ultimately show ?case using Cons.IH[of "a + 1"] by simp
qed simp

lemma store_bytes_at:
  "k < length bs \<Longrightarrow> length bs \<le> 2 ^ 64 \<Longrightarrow> store_bytes m a bs (a + of_nat k) = Some (bs ! k)"
proof (induction bs arbitrary: a k)
  case (Cons b bs)
  show ?case
  proof (cases k)
    case (Suc j)
    then have "(of_nat (Suc j) :: u64) \<noteq> 0"
      using Cons.prems by (simp add: word_of_nat_eq_0_iff del: of_nat_Suc) (auto dest: dvd_imp_le)
    then have "a + of_nat (Suc j) \<noteq> a" by simp
    moreover have at: "a + of_nat (Suc j) = a + 1 + of_nat j" by (simp add: add.assoc)
    ultimately show ?thesis
      using Suc Cons.IH[of j "a + 1"] Cons.prems unfolding Suc at by (simp del: of_nat_Suc)
  qed simp
qed simp

lemma store_bytes_slot:
  assumes "length bs \<le> 2 ^ 64"
  shows "slot_ok (store_bytes m a bs) a (length bs) \<and> slot_val (store_bytes m a bs) a (length bs) = bs"
  using store_bytes_at[OF _ assms, of _ m a]
  by (auto simp: slot_ok_iff slot_val_def readable_def intro!: nth_equalityI)

lemma read_after_write:
  assumes "read_law P mem" "write_law P mem" "write_exact P s a bs = (s', True)" "length bs \<le> 2 ^ 64"
  shows "read_exact P s' a (length bs) = Some bs"
proof -
  have "pr_write P s a bs = (s', Some (length bs))"
    using assms(3) by (auto simp: write_exact_def split: prod.splits)
  then have "mem s' = store_bytes (mem s) a bs"
    using assms(2) by (auto simp: write_law_def)
  with store_bytes_slot[OF assms(4), of "mem s" a] show ?thesis
    by (simp add: read_exact_iff[OF assms(1)])
qed

lemma prefix_slot:
  assumes "got = readable_prefix m (range_addrs h want)"
  shows "length got \<le> want \<and>
    (\<forall>k. k \<le> length got \<longleftrightarrow> k \<le> want \<and> (\<forall>j < k. readable m (h + of_nat j))) \<and>
    (\<forall>i n. i + n \<le> length got \<longrightarrow> take n (drop i got) = slot_val m (h + of_nat i) n)"
proof -
  define p where "p = takeWhile (readable m) (range_addrs h want)"
  have got: "got = map (\<lambda>a. the (m a)) p" using assms by (simp add: readable_prefix_def p_def)
  have le: "length p \<le> want" using length_takeWhile_le[of "readable m" "range_addrs h want"] by (simp add: p_def)
  have nth: "p ! j = h + of_nat j" if "j < length p" for j
    using that le takeWhile_nth[of j "readable m" "range_addrs h want"] by (simp add: p_def)
  have read: "readable m (h + of_nat j)" if "j < length p" for j
    using takeWhile_nth_P[of j "readable m" "range_addrs h want"] nth[OF that] that le
      takeWhile_nth[of j "readable m" "range_addrs h want"] by (simp add: p_def)
  have "k \<le> length p" if "k \<le> want" "\<forall>j < k. readable m (h + of_nat j)" for k
  proof (rule ccontr)
    assume "\<not> k \<le> length p"
    then have lt: "length p < k" by simp
    then have "\<not> readable m (range_addrs h want ! length p)"
      using that(1) unfolding p_def by (intro nth_length_takeWhile) simp
    with lt that show False by simp
  qed
  moreover have "take n (drop i p) = range_addrs (h + of_nat i) n" if "i + n \<le> length p" for i n
    using that nth by (intro nth_equalityI) (simp_all add: add.assoc)
  ultimately show ?thesis
    using le read unfolding got by (auto simp: slot_val_def take_map drop_map intro: le_trans)
qed

lemma prefix_agrees:
  assumes "got = readable_prefix m (range_addrs h want)" "i < length got"
  shows "m (h + of_nat i) = Some (got ! i)"
proof -
  have le: "Suc i \<le> length got" using assms(2) by simp
  then have "\<forall>j < Suc i. readable m (h + of_nat j)" using prefix_slot[OF assms(1)] by blast
  then have "readable m (h + of_nat i)" by blast
  moreover have "i + 1 \<le> length got" using le by simp
  then have "take 1 (drop i got) = slot_val m (h + of_nat i) 1" using prefix_slot[OF assms(1)] by blast
  then have "got ! i = the (m (h + of_nat i))"
    using assms(2) by (simp add: slot_val_def range_addrs_def take_Suc_conv_app_nth hd_drop_conv_nth take_Suc)
  ultimately show ?thesis by (auto simp: readable_def)
qed

text \<open>A process whose whole state is its memory, for concrete instances.\<close>

definition flat_process :: "MemoryRegion list \<Rightarrow> ModuleInfo list \<Rightarrow> memory process" where
  "flat_process regions modules = \<lparr>
     pr_read = (\<lambda>m a n. let got = readable_prefix m (range_addrs a n) in
        if got = [] \<and> n \<noteq> 0 then None else Some got),
     pr_write = (\<lambda>m a bs. (store_bytes m a bs, Some (length bs))),
     pr_regions = (\<lambda>_. regions), pr_modules = (\<lambda>_. modules), pr_is64 = True, pr_runs32 = False\<rparr>"

lemma flat_process_laws:
  "read_law (flat_process rs ms) (\<lambda>m. m)" "write_law (flat_process rs ms) (\<lambda>m. m)"
  by (simp_all add: read_law_def write_law_def flat_process_def)

lemma flat_write [simp]: "pr_write (flat_process rs ms) m a bs = (store_bytes m a bs, Some (length bs))"
  by (simp add: flat_process_def)

lemma flat_modules [simp]: "pr_modules (flat_process rs ms) m = ms"
  by (simp add: flat_process_def)

lemma flat_regions [simp]: "pr_regions (flat_process rs ms) m = rs"
  by (simp add: flat_process_def)

text \<open>Reading a memory that holds one byte everywhere.\<close>

lemma flat_read_const:
  "pr_read (flat_process rs ms) (\<lambda>_. Some b) a n = Some (replicate n b)"
proof -
  have tw: "takeWhile (readable (\<lambda>_. Some b)) (range_addrs a n) = range_addrs a n"
    by (subst takeWhile_eq_all_conv) (simp add: readable_def)
  have "range_addrs a n = [] \<longleftrightarrow> n = 0" by (simp add: range_addrs_def)
  with tw show ?thesis
    by (auto simp: flat_process_def readable_prefix_def map_replicate_const Let_def simp del: takeWhile_eq_all_conv)
qed

lemma flat_read_stored:
  assumes "length bs \<le> 2 ^ 64"
  shows "pr_read (flat_process rs ms) (store_bytes m a bs) a (length bs) = Some bs"
  using read_after_write[OF flat_process_laws(1)[where rs = rs and ms = ms] flat_process_laws(2)[where rs = rs and ms = ms],
      where s = m and a = a and bs = bs and s' = "store_bytes m a bs"] assms
  by (auto simp: write_exact_def read_exact_def split: option.splits if_splits)

section \<open>Template types\<close>

record 'v scalar =
  sc_size :: nat
  sc_bytes :: "'v \<Rightarrow> bytes"
  sc_val :: "bytes \<Rightarrow> 'v"
  sc_less :: "'v \<Rightarrow> 'v \<Rightarrow> bool"

locale scalar_type =
  fixes T :: "'v scalar"
  assumes length_bytes [simp]: "length (sc_bytes T v) = sc_size T"
    and val_bytes [simp]: "sc_val T (sc_bytes T v) = v"
    and bytes_val: "length bs = sc_size T \<Longrightarrow> sc_bytes T (sc_val T bs) = bs"
    and size_pos: "0 < sc_size T"
    and size_small: "sc_size T \<le> 8"
begin

lemma val_eq_iff: "length bs = sc_size T \<Longrightarrow> sc_val T bs = v \<longleftrightarrow> bs = sc_bytes T v"
  using bytes_val by force

end

definition u8_type :: "u8 scalar" where
  "u8_type = \<lparr>sc_size = 1, sc_bytes = le_bytes 1, sc_val = le_val, sc_less = (<)\<rparr>"
definition u16_type :: "u16 scalar" where
  "u16_type = \<lparr>sc_size = 2, sc_bytes = le_bytes 2, sc_val = le_val, sc_less = (<)\<rparr>"
definition u32_type :: "u32 scalar" where
  "u32_type = \<lparr>sc_size = 4, sc_bytes = le_bytes 4, sc_val = le_val, sc_less = (<)\<rparr>"
definition u64_type :: "u64 scalar" where
  "u64_type = \<lparr>sc_size = 8, sc_bytes = le_bytes 8, sc_val = le_val, sc_less = (<)\<rparr>"

lemma le_bytes_of_val:
  "length bs = n \<Longrightarrow> 8 * n \<le> LENGTH('a) \<Longrightarrow> le_bytes n (le_val bs :: 'a::len word) = bs"
  using le_bytes_le_val[of bs, where 'a = 'a] by auto

interpretation u8s: scalar_type u8_type
  by unfold_locales (auto simp: u8_type_def le_val_le_bytes_full intro: le_bytes_of_val simp del: le_bytes.simps One_nat_def)
interpretation u16s: scalar_type u16_type
  by unfold_locales (auto simp: u16_type_def le_val_le_bytes_full intro: le_bytes_of_val)
interpretation u32s: scalar_type u32_type
  by unfold_locales (auto simp: u32_type_def le_val_le_bytes_full intro: le_bytes_of_val)
interpretation u64s: scalar_type u64_type
  by unfold_locales (auto simp: u64_type_def le_val_le_bytes_full intro: le_bytes_of_val)

end
