(* ===== verification/Linux_Process.thy ===== *)
theory Linux_Process
  imports Process_Memory Text_Format
begin

text \<open>
  The memory map of a process (\<^verbatim>\<open>src/src/platform/linux/linux_process.cpp\<close>): parsing the lines of
  \<^verbatim>\<open>/proc/pid/maps\<close>, the resident sub-ranges from \<^verbatim>\<open>/proc/pid/pagemap\<close>, and the page arithmetic of
  \<^verbatim>\<open>allocate\<close>, \<^verbatim>\<open>free\<close> and \<^verbatim>\<open>protect\<close>.  The contents of the proc files and the system call executed
  in the target are parameters.
\<close>

section \<open>/proc/pid/maps\<close>

definition parsePerms :: "string \<Rightarrow> MemProt" where
  "parsePerms perms =
     (if 3 \<le> length perms then
        let p = ProtNone;
            p = (if perms ! 0 = CHR ''r'' then prot_or p ProtRead else p);
            p = (if perms ! 1 = CHR ''w'' then prot_or p ProtWrite else p)
        in (if perms ! 2 = CHR ''x'' then prot_or p ProtExec else p)
      else ProtNone)"

definition find_char :: "char \<Rightarrow> string \<Rightarrow> nat option" where
  "find_char c s = (let k = length (takeWhile (\<lambda>x. x \<noteq> c) s) in if k < length s then Some k else None)"

text \<open>The field loop: the text from \<^verbatim>\<open>pos\<close> on, [] once \<^verbatim>\<open>pos\<close> is \<^verbatim>\<open>npos\<close> or the end.\<close>

fun skip_fields :: "nat \<Rightarrow> string \<Rightarrow> string" where
  "skip_fields 0 rest = rest"
| "skip_fields (Suc k) rest =
     (if rest = [] then []
      else case find_char CHR '' '' rest of
          None \<Rightarrow> []
        | Some p \<Rightarrow> skip_fields k (dropWhile (\<lambda>c. c = CHR '' '') (drop p rest)))"

definition parse_maps_line :: "string \<Rightarrow> MemoryRegion option" where
  "parse_maps_line line =
     (if line = [] then None
      else case (find_char CHR ''-'' line, find_char CHR '' '' line) of
        (Some dash, Some space1) \<Rightarrow>
          (case (stoull 16 (take dash line),
                 stoull 16 (let s = drop (dash + 1) line in
                            if dash < space1 then take (space1 - dash - 1) s else s)) of
             (Some base, Some end_addr) \<Rightarrow>
               let perms = take 4 (drop (space1 + 1) line);
                   path = rtrim (\<lambda>c. c = CHR '' '') (skip_fields 4 (drop (space1 + 1) line));
                   type = (if path \<noteq> [] \<and> path ! 0 = CHR ''/'' then Image
                           else if 3 < length perms \<and> perms ! 3 = CHR ''s'' then Mapped else Private)
               in Some \<lparr>r_base = base, r_size = end_addr - base, r_protection = parsePerms perms,
                        r_type = type, r_state = Committed, r_path = path\<rparr>
           | _ \<Rightarrow> None)
      | _ \<Rightarrow> None)"

definition queryRegions :: "string list \<Rightarrow> MemoryRegion list" where
  "queryRegions maps_lines = List.map_filter parse_maps_line maps_lines"

definition queryRegion :: "string list \<Rightarrow> u64 \<Rightarrow> MemoryRegion option" where
  "queryRegion maps_lines address = find (\<lambda>r. region_holds r address) (queryRegions maps_lines)"

section \<open>/proc/pid/pagemap\<close>

type_synonym ranges = "(u64 \<times> u64) list"

definition endRun :: "u64 \<Rightarrow> u64 \<Rightarrow> u64 \<Rightarrow> u64 \<Rightarrow> ranges \<Rightarrow> ranges" where
  "endRun base end_addr runStart runEnd runs =
     (let a = max runStart base; b = min runEnd end_addr in if a < b then runs @ [(a, b)] else runs)"

definition worth :: "u64 \<Rightarrow> bool" where
  "worth e = (bit e 63 \<or> bit e 62)"

text \<open>The run in progress is \<open>Some runStart\<close> while \<^verbatim>\<open>inRun\<close> is true.\<close>

fun scan_entries :: "u64 \<Rightarrow> u64 \<Rightarrow> u64 \<Rightarrow> u64 \<Rightarrow> u64 list \<Rightarrow> ranges \<times> u64 option \<Rightarrow> ranges \<times> u64 option" where
  "scan_entries ps base end_addr pageAddr [] st = st"
| "scan_entries ps base end_addr pageAddr (e # es) (runs, run) =
     scan_entries ps base end_addr (pageAddr + ps) es
       (if worth e \<and> run = None then (runs, Some pageAddr)
        else if \<not> worth e \<and> run \<noteq> None then (endRun base end_addr (the run) pageAddr runs, None)
        else (runs, run))"

text \<open>
  \<open>pm off n\<close> is the outcome of the pread loop for \<open>n\<close> entries from entry \<open>off\<close>: the entries, or
  \<open>None\<close> when a read fails.
\<close>

fun resident_loop :: "(u64 \<Rightarrow> nat \<Rightarrow> u64 list option) \<Rightarrow> u64 \<Rightarrow> u64 \<Rightarrow> u64 \<Rightarrow> nat \<Rightarrow> u64 \<Rightarrow>
    ranges \<times> u64 option \<Rightarrow> (ranges \<times> u64 option) option" where
  "resident_loop pm ps base end_addr 0 addr st = None"
| "resident_loop pm ps base end_addr (Suc fuel) addr st =
     (if addr < end_addr then
        let pagesLeft = (end_addr - addr + ps - 1) div ps; n = min 4096 (unat pagesLeft) in
        case pm (addr div ps) n of
          None \<Rightarrow> None
        | Some ent \<Rightarrow> resident_loop pm ps base end_addr fuel (addr + of_nat n * ps)
                        (scan_entries ps base end_addr addr (take n ent) st)
      else Some st)"

definition residentRanges :: "u64 \<Rightarrow> (u64 \<Rightarrow> nat \<Rightarrow> u64 list option) option \<Rightarrow> nat \<Rightarrow> u64 \<Rightarrow> u64 \<Rightarrow> ranges" where
  "residentRanges ps pagemap fuel base sz =
     (let whole = [(base, base + sz)] in
      if ps = 0 \<or> sz = 0 then whole
      else case pagemap of
          None \<Rightarrow> whole
        | Some pm \<Rightarrow>
            (case resident_loop pm ps base (base + sz) fuel (base AND NOT (ps - 1)) ([], None) of
               None \<Rightarrow> whole
             | Some (runs, run) \<Rightarrow>
                 (case run of None \<Rightarrow> runs | Some s \<Rightarrow> endRun base (base + sz) s (base + sz) runs)))"

section \<open>Resident ranges are exact\<close>

definition covers :: "ranges \<Rightarrow> u64 \<Rightarrow> bool" where
  "covers runs x = (\<exists>(a, b) \<in> set runs. a \<le> x \<and> x < b)"

lemma covers_endRun:
  "covers (endRun base e s t runs) x \<longleftrightarrow> covers runs x \<or> (s \<le> x \<and> x < t \<and> base \<le> x \<and> x < e)"
  by (auto simp: covers_def endRun_def Let_def)

text \<open>
  The state after the pages below page number \<open>q\<close>: an address of those pages is covered, by a
  finished range or the one in progress, exactly when its page holds data.
\<close>

definition resident_inv :: "(nat \<Rightarrow> u64) \<Rightarrow> nat \<Rightarrow> u64 \<Rightarrow> u64 \<Rightarrow> nat \<Rightarrow> ranges \<times> u64 option \<Rightarrow> bool" where
  "resident_inv ent P base e q st \<longleftrightarrow>
     (\<forall>x. unat x < q * P \<and> base \<le> x \<and> x < e \<longrightarrow>
        (covers (fst st) x \<or> (\<exists>s. snd st = Some s \<and> s \<le> x)) = worth (ent (unat x div P))) \<and>
     (\<forall>x. covers (fst st) x \<longrightarrow> base \<le> x \<and> x < e \<and> unat x < q * P) \<and>
     (\<forall>s. snd st = Some s \<longrightarrow> unat s \<le> q * P)"

lemma resident_step:
  assumes inv: "resident_inv ent P base e q (runs, run)" and pa: "unat pageAddr = q * P" and P: "0 < P"
  shows "resident_inv ent P base e (Suc q)
    (if worth (ent q) \<and> run = None then (runs, Some pageAddr)
     else if \<not> worth (ent q) \<and> run \<noteq> None then (endRun base e (the run) pageAddr runs, None)
     else (runs, run))"
proof -
  have page: "unat x div P = q" if "q * P \<le> unat x" "unat x < Suc q * P" for x :: u64
    using that P by (metis div_nat_eqI mult.commute)
  have old: "(covers runs x \<or> (\<exists>s. run = Some s \<and> s \<le> x)) = worth (ent (unat x div P))"
    if "unat x < q * P" "base \<le> x" "x < e" for x
    using inv that by (simp add: resident_inv_def)
  have cov: "base \<le> x \<and> x < e \<and> unat x < q * P" if "covers runs x" for x
    using inv that by (simp add: resident_inv_def)
  have start: "unat s \<le> q * P" if "run = Some s" for s
    using inv that by (simp add: resident_inv_def)
  consider (opens) "worth (ent q)" "run = None" | (stop) s where "\<not> worth (ent q)" "run = Some s"
    | (go) s where "worth (ent q)" "run = Some s" | (none) "\<not> worth (ent q)" "run = None"
    by (cases run) auto
  then show ?thesis
  proof cases
    case opens
    have "(covers runs x \<or> pageAddr \<le> x) = worth (ent (unat x div P))"
      if x: "unat x < Suc q * P" "base \<le> x" "x < e" for x
    proof (cases "unat x < q * P")
      case True
      with old[OF True x(2,3)] opens pa show ?thesis by (simp add: word_le_nat_alt)
    next
      case False
      with page[of x] x opens pa show ?thesis by (simp add: word_le_nat_alt)
    qed
    with opens cov pa show ?thesis by (fastforce simp: resident_inv_def)
  next
    case stop
    have "(covers runs x \<or> (s \<le> x \<and> x < pageAddr \<and> base \<le> x \<and> x < e)) = worth (ent (unat x div P))"
      if x: "unat x < Suc q * P" "base \<le> x" "x < e" for x
    proof (cases "unat x < q * P")
      case True
      with old[OF True x(2,3)] stop pa x show ?thesis by (simp add: word_less_nat_alt)
    next
      case False
      with page[of x] x stop pa cov show ?thesis by (auto simp: word_less_nat_alt)
    qed
    with stop cov pa show ?thesis by (fastforce simp: resident_inv_def covers_endRun word_less_nat_alt)
  next
    case go
    have "(covers runs x \<or> s \<le> x) = worth (ent (unat x div P))"
      if x: "unat x < Suc q * P" "base \<le> x" "x < e" for x
    proof (cases "unat x < q * P")
      case True
      with old[OF True x(2,3)] go show ?thesis by simp
    next
      case False
      with page[of x] x go start[of s] show ?thesis by (simp add: word_le_nat_alt)
    qed
    with go cov start show ?thesis by (fastforce simp: resident_inv_def)
  next
    case none
    have "covers runs x = worth (ent (unat x div P))"
      if x: "unat x < Suc q * P" "base \<le> x" "x < e" for x
    proof (cases "unat x < q * P")
      case True
      with old[OF True x(2,3)] none show ?thesis by simp
    next
      case False
      with page[of x] x none cov[of x] show ?thesis by auto
    qed
    with none cov show ?thesis by (fastforce simp: resident_inv_def)
  qed
qed

lemma scan_entries_inv:
  assumes "resident_inv ent P base e q st" "unat pageAddr = q * P" "0 < P" "unat ps = P"
    "(q + n) * P < 2 ^ 64"
  shows "resident_inv ent P base e (q + n) (scan_entries ps base e pageAddr (map ent [q..<q + n]) st)"
  using assms
proof (induction n arbitrary: q pageAddr st)
  case 0
  then show ?case by simp
next
  case (Suc n)
  obtain runs run where st: "st = (runs, run)" by (cases st)
  have "q * P + P \<le> (q + Suc n) * P" by (simp add: add_mult_distrib)
  then have "q * P + P < 2 ^ 64" using Suc.prems(5) by linarith
  then have "unat (pageAddr + ps) = Suc q * P"
    using Suc.prems(2,4) by (simp add: unat_word_ariths)
  moreover have "[q..<q + Suc n] = q # [Suc q..<Suc q + n]" by (simp add: upt_conv_Cons)
  moreover note resident_step[OF Suc.prems(1)[unfolded st] Suc.prems(2,3)]
  ultimately show ?case
    using Suc.IH[of "Suc q" _ "pageAddr + ps"] Suc.prems st by simp
qed

lemma resident_loop_inv:
  assumes law: "\<And>off n. pm off n = Some (map ent [unat off..<unat off + n])"
    and ps: "unat ps = P" "0 < P" and room: "unat e + P < 2 ^ 64"
    and Q: "Q = (unat e + P - 1) div P"
    and inv: "resident_inv ent P base e q st" and addr: "unat addr = q * P"
    and fuel: "q \<le> Q" "Q + 4096 \<le> q + 4096 * fuel"
  shows "\<exists>st'. resident_loop pm ps base e fuel addr st = Some st' \<and>
    (\<exists>q'. resident_inv ent P base e q' st' \<and> unat e \<le> q' * P)"
  using inv addr fuel
proof (induction fuel arbitrary: q addr st)
  case 0
  then show ?case by simp
next
  case (Suc fuel)
  have QP: "Q * P < unat e + P" "Q * P < 2 ^ 64"
    using div_times_less_eq_dividend[of "unat e + P - 1" P] ps(2) room unfolding Q by linarith+
  show ?case
  proof (cases "addr < e")
    case False
    then have "unat e \<le> q * P" using Suc.prems(2) by (simp add: word_less_nat_alt)
    with False Suc.prems(1) show ?thesis by auto
  next
    case True
    then have lt: "q * P < unat e" using Suc.prems(2) by (simp add: word_less_nat_alt)
    define n where "n = min 4096 (Q - q)"
    have "unat (e - addr) = unat e - q * P"
      using True Suc.prems(2) by (simp add: unat_sub less_imp_le)
    moreover have "unat (e - addr + ps) = unat (e - addr) + P"
      using ps room calculation by (simp add: unat_word_ariths)
    ultimately have sum: "unat (e - addr + ps - 1) = unat e - q * P + P - 1"
      using ps room lt by (simp add: unat_sub_if')
    have "unat e + P - 1 = q * P + (unat e - q * P + P - 1)" using lt ps(2) by simp
    then have Qq: "Q = q + (unat e - q * P + P - 1) div P"
      unfolding Q using ps(2) by (metis add.commute div_mult_self3 less_irrefl)
    have pages: "unat ((e - addr + ps - 1) div ps) = Q - q"
      using Qq by (simp add: unat_div sum ps)
    have off: "unat (addr div ps) = q" using Suc.prems(2) ps by (simp add: unat_div)
    have "P div P \<le> (unat e - q * P + P - 1) div P" using lt by (intro div_le_mono) simp
    then have qQ: "q < Q" using Qq ps(2) by simp
    have fit: "(q + n) * P < 2 ^ 64"
    proof -
      have "q + n \<le> Q" using Suc.prems(3) by (simp add: n_def)
      then have "(q + n) * P \<le> Q * P" by (rule mult_le_mono1)
      then show ?thesis using QP(2) by (rule le_less_trans)
    qed
    define st1 where "st1 = scan_entries ps base e addr (map ent [q..<q + n]) st"
    have "resident_inv ent P base e (q + n) st1"
      unfolding st1_def by (rule scan_entries_inv[OF Suc.prems(1,2) ps(2,1) fit])
    moreover have "unat (addr + of_nat n * ps) = (q + n) * P"
    proof -
      have "n * P < 2 ^ 64" using fit by (simp add: add_mult_distrib)
      moreover have "n < 2 ^ 64" by (simp add: n_def)
      ultimately show ?thesis
        using fit Suc.prems(2) ps(1) by (simp add: unat_word_ariths unat_of_nat take_bit_eq_mod add_mult_distrib)
    qed
    moreover have "q + n \<le> Q" "Q + 4096 \<le> q + n + 4096 * fuel"
    proof -
      have "fuel \<noteq> 0" using Suc.prems(4) qQ by (cases fuel) auto
      then show "q + n \<le> Q" "Q + 4096 \<le> q + n + 4096 * fuel"
        using Suc.prems(3,4) qQ by (auto simp: n_def min_def)
    qed
    ultimately have "\<exists>st'. resident_loop pm ps base e fuel (addr + of_nat n * ps) st1 = Some st' \<and>
        (\<exists>q'. resident_inv ent P base e q' st' \<and> unat e \<le> q' * P)"
      by (intro Suc.IH)
    moreover have "resident_loop pm ps base e (Suc fuel) addr st =
        resident_loop pm ps base e fuel (addr + of_nat n * ps) st1"
      using True by (simp add: pages off law n_def[symmetric] st1_def)
    ultimately show ?thesis by simp
  qed
qed

lemma and_not_mask: "(a :: u64) AND NOT (2 ^ k - 1) = push_bit k (drop_bit k a)"
  unfolding mask_eq_exp_minus_1[symmetric]
  by (rule bit_eqI) (auto simp: bit_simps)

lemma unat_align:
  assumes "k < 64"
  shows "unat ((a :: u64) AND NOT (2 ^ k - 1)) = unat a div 2 ^ k * 2 ^ k"
proof -
  have "unat a div 2 ^ k * 2 ^ k < 2 ^ 64"
    using unat_u64_less[of a] div_times_less_eq_dividend[of "unat a" "2 ^ k"] by (meson le_less_trans)
  moreover have "unat (a AND NOT (2 ^ k - 1)) = (unat a mod 2 ^ 64 div 2 ^ k * 2 ^ k) mod 2 ^ 64"
    unfolding and_not_mask unsigned_push_bit_eq unsigned_drop_bit_eq
    unfolding push_bit_eq_mult drop_bit_eq_div take_bit_eq_mod by simp
  ultimately show ?thesis using unat_u64_less[of a] by simp
qed

lemma unat_pow2:
  assumes "k < 64"
  shows "unat (2 ^ k :: u64) = 2 ^ k"
proof -
  have "(2 :: nat) ^ k < 2 ^ 64" using assms by (intro power_strict_increasing) simp_all
  then have "unat (of_nat (2 ^ k) :: u64) = 2 ^ k"
    using assms by (simp only: unat_of_nat flip: take_bit_eq_mod) (simp add: take_bit_nat_eq_self)
  then show ?thesis by (simp only: of_nat_power of_nat_numeral)
qed

text \<open>
  C28: when the pagemap can be read, the resident ranges hold exactly the addresses of the request
  whose page is present or swapped.
\<close>

theorem residentRanges_exact:
  assumes law: "\<And>off n. pm off n = Some (map ent [unat off..<unat off + n])"
    and k: "k < 64" and sz: "0 < sz" and room: "unat base + unat sz + 2 ^ k < 2 ^ 64"
    and fuel: "(unat base + unat sz + 2 ^ k - 1) div 2 ^ k + 4096 \<le> unat base div 2 ^ k + 4096 * fuel"
  shows "covers (residentRanges (2 ^ k) (Some pm) fuel base sz) x \<longleftrightarrow>
     base \<le> x \<and> x < base + sz \<and> worth (ent (unat x div 2 ^ k))"
proof -
  let ?P = "2 ^ k :: nat" and ?e = "base + sz" and ?q = "unat base div 2 ^ k"
  have e: "unat ?e = unat base + unat sz" using room by (simp add: unat_word_ariths)
  have ps: "unat (2 ^ k :: u64) = ?P" by (rule unat_pow2[OF k])
  have "\<not> unat y < ?q * ?P" if "base \<le> y" for y
    using that div_times_less_eq_dividend[of "unat base" ?P] by (simp only: word_le_nat_alt not_less)
  then have inv: "resident_inv ent ?P base ?e ?q ([], None)"
    by (auto simp: resident_inv_def covers_def)
  have "unat base \<le> unat base + unat sz + ?P - 1" using one_le_power[of "2 :: nat" k] by linarith
  then have "?q \<le> (unat ?e + ?P - 1) div ?P" unfolding e by (rule div_le_mono)
  then obtain runs run q' where r:
    "resident_loop pm (2 ^ k) base ?e fuel (base AND NOT (2 ^ k - 1)) ([], None) = Some (runs, run)"
    "resident_inv ent ?P base ?e q' (runs, run)" "unat ?e \<le> q' * ?P"
    using resident_loop_inv[OF law ps _ _ refl inv unat_align[OF k]] room fuel e by force
  have below: "unat x < q' * ?P" if "x < ?e" using that r(3) by (simp add: word_less_nat_alt)
  have "(2 ^ k :: u64) \<noteq> 0" using ps by (metis unat_0 power_not_zero zero_neq_numeral)
  then have "residentRanges (2 ^ k) (Some pm) fuel base sz =
      (case run of None \<Rightarrow> runs | Some s \<Rightarrow> endRun base ?e s ?e runs)"
    using sz r(1) by (auto simp: residentRanges_def Let_def word_neq_0_conv)
  then have "covers (residentRanges (2 ^ k) (Some pm) fuel base sz) x \<longleftrightarrow>
      covers runs x \<or> (\<exists>s. run = Some s \<and> s \<le> x \<and> base \<le> x \<and> x < ?e)"
    by (auto simp: covers_endRun split: option.splits)
  also have "\<dots> \<longleftrightarrow> base \<le> x \<and> x < ?e \<and> worth (ent (unat x div ?P))"
    using r(2) below unfolding resident_inv_def by auto
  finally show ?thesis .
qed

theorem residentRanges_exact_witness:
  "covers (residentRanges (2 ^ 12) (Some (\<lambda>off n. Some (map (\<lambda>q. if q = 2 then 2 ^ 63 else 0) [unat off..<unat off + n])))
     2 4096 8192) 8200"
proof -
  have "worth (2 ^ 63)" by (simp add: worth_def bit_simps)
  then show ?thesis
    by (subst residentRanges_exact[where ent = "\<lambda>q. if q = 2 then 2 ^ 63 else 0"]) simp_all
qed

section \<open>The lines the kernel prints\<close>

text \<open>
  proc(5): start and end address in hexadecimal padded with zeros, permissions, offset, device,
  inode, then the path after padding blanks.
\<close>

definition maps_line :: "nat \<Rightarrow> u64 \<Rightarrow> nat \<Rightarrow> u64 \<Rightarrow> string \<Rightarrow> string \<Rightarrow> string \<Rightarrow> string \<Rightarrow> nat \<Rightarrow> string \<Rightarrow> string" where
  "maps_line z1 lo z2 hi perms off dev inode pad path =
     (replicate z1 CHR ''0'' @ fmt_hex (unat lo)) @ CHR ''-'' #
     (replicate z2 CHR ''0'' @ fmt_hex (unat hi)) @ CHR '' '' # perms @ CHR '' '' # off @ CHR '' '' #
     dev @ CHR '' '' # inode @ CHR '' '' # replicate pad CHR '' '' @ path"

definition field :: "string \<Rightarrow> bool" where
  "field s \<longleftrightarrow> s \<noteq> [] \<and> CHR '' '' \<notin> set s"

lemma find_char_append: "c \<notin> set a \<Longrightarrow> find_char c (a @ c # b) = Some (length a)"
  by (simp add: find_char_def takeWhile_append Let_def)

lemma zero_digit: "CHR ''0'' = hex_lower 0"
  by (simp add: hex_lower_def)

lemma padded_hex_set: "c \<in> set (replicate z CHR ''0'' @ fmt_hex n) \<Longrightarrow> \<exists>d < 16. c = hex_lower d"
  using fmt_hex_set[of c n] by (auto simp: zero_digit in_set_replicate intro: exI[of _ 0])

lemma stoull_padded_hex:
  assumes "n < 2 ^ 64"
  shows "stoull 16 (replicate z CHR ''0'' @ fmt_hex n) = Some (of_nat n)"
proof -
  let ?s = "replicate z CHR ''0'' @ fmt_hex n"
  have dig: "\<exists>d < 16. c = hex_lower d" if "c \<in> set ?s" for c
    using padded_hex_set[OF that] .
  obtain c cs where s: "?s = c # cs" by (cases ?s) (auto simp: fmt_hex_def)
  then obtain d where d: "c = hex_lower d" "d < 16" using dig[of c] by auto
  have no0x: "strip_0x ?s = None" by (rule strip_0x_digits) (rule dig)
  have "scan_digits 16 0 (replicate z CHR ''0'' @ r) = scan_digits 16 0 r" for r
    by (induction z) (simp_all add: zero_digit)
  then have "scan_digits 16 0 ?s = (n, [])" using scan_digits_fmt_hex[of "[]" n] by simp
  then have "strtoull 16 ?s = Some (of_nat n, [], False)"
    using assms d no0x unfolding s
    by (simp add: strtoull_def hex_lower_plain number_base_def starts_digit_def)
  then show ?thesis by (simp add: stoull_def)
qed

lemma skip_field:
  assumes "field a" "b = [] \<or> hd b \<noteq> CHR '' ''"
  shows "skip_fields (Suc k) (a @ CHR '' '' # replicate pad CHR '' '' @ b) = skip_fields k b"
proof -
  have "dropWhile (\<lambda>c. c = CHR '' '') (replicate pad CHR '' '' @ b) = b"
    using assms(2) by (induction pad) (cases b, auto)
  then show ?thesis
    using assms(1) by (simp add: field_def find_char_append)
qed

lemma skip_field1:
  "field a \<Longrightarrow> b = [] \<or> hd b \<noteq> CHR '' '' \<Longrightarrow> skip_fields (Suc k) (a @ CHR '' '' # b) = skip_fields k b"
  using skip_field[of a b k 0] by simp

lemma field_hd: "field a \<Longrightarrow> hd (a @ c) \<noteq> CHR '' ''"
  by (cases a) (auto simp: field_def)

text \<open>
  C37: a line printed by the kernel is read back: the region has its start address, its size, its
  permissions and its path, and is an image exactly when the path is absolute.
\<close>

theorem parse_maps_line_printed:
  assumes "length perms = 4" "field perms" "field off" "field dev" "field inode"
    and "path = [] \<or> (hd path \<noteq> CHR '' '' \<and> last path \<noteq> CHR '' '')"
  shows "parse_maps_line (maps_line z1 lo z2 hi perms off dev inode pad path) =
     Some \<lparr>r_base = lo, r_size = hi - lo, r_protection = parsePerms perms,
           r_type = (if path \<noteq> [] \<and> hd path = CHR ''/'' then Image
                     else if perms ! 3 = CHR ''s'' then Mapped else Private),
           r_state = Committed, r_path = path\<rparr>"
proof -
  define a where "a = replicate z1 CHR ''0'' @ fmt_hex (unat lo)"
  define b where "b = replicate z2 CHR ''0'' @ fmt_hex (unat hi)"
  define t where "t = perms @ CHR '' '' # off @ CHR '' '' # dev @ CHR '' '' # inode @ CHR '' '' #
      replicate pad CHR '' '' @ path"
  have line: "maps_line z1 lo z2 hi perms off dev inode pad path = a @ CHR ''-'' # b @ CHR '' '' # t"
    by (simp add: maps_line_def a_def b_def t_def)
  have plain: "CHR ''-'' \<notin> set a" "CHR '' '' \<notin> set a" "CHR '' '' \<notin> set b"
    unfolding a_def b_def using padded_hex_set hex_lower_plain by metis+
  have dash: "find_char CHR ''-'' (a @ CHR ''-'' # b @ CHR '' '' # t) = Some (length a)"
    by (rule find_char_append[OF plain(1)])
  have "find_char CHR '' '' ((a @ CHR ''-'' # b) @ CHR '' '' # t) = Some (length (a @ CHR ''-'' # b))"
    using plain by (intro find_char_append) simp
  then have space: "find_char CHR '' '' (a @ CHR ''-'' # b @ CHR '' '' # t) = Some (length a + Suc (length b))"
    by simp
  have nums: "stoull 16 a = Some lo" "stoull 16 b = Some hi"
    unfolding a_def b_def using stoull_padded_hex[OF unat_u64_less] by simp_all
  have hds: "hd (off @ r) \<noteq> CHR '' ''" "hd (dev @ r) \<noteq> CHR '' ''" "hd (inode @ r) \<noteq> CHR '' ''" for r
    using assms(3-5) by (simp_all add: field_hd)
  have "skip_fields (Suc (Suc (Suc (Suc 0)))) t = path"
  proof -
    have last: "path = [] \<or> hd path \<noteq> CHR '' ''" using assms(6) by blast
    show ?thesis
      unfolding t_def
      by (subst skip_field1, rule assms, rule disjI2, rule hds)+ (subst skip_field, rule assms, rule last, simp)
  qed
  then have skip: "skip_fields 4 t = path" by (simp only: numeral_eq_Suc pred_numeral_simps BitM.simps)
  have trim: "rtrim (\<lambda>c. c = CHR '' '') path = path" using assms(6) by (auto intro: rtrim_id)
  have perms: "take 4 t = perms" using assms(1) by (simp add: t_def)
  show ?thesis
    unfolding line parse_maps_line_def dash space
    using assms(1) by (auto simp: nums skip trim perms Let_def hd_conv_nth)
qed

theorem parse_maps_line_printed_witness:
  "parse_maps_line (maps_line 5 0x400 4 0x2400 ''rw-p'' ''00000000'' ''08:02'' ''17'' 3 ''/bin/game'') =
     Some \<lparr>r_base = 0x400, r_size = 0x2000, r_protection = parsePerms ''rw-p'', r_type = Image,
           r_state = Committed, r_path = ''/bin/game''\<rparr>"
  using parse_maps_line_printed[of "''rw-p''" "''00000000''" "''08:02''" "''17''" "''/bin/game''" 5 "0x400" 4 "0x2400" 3]
  by (simp add: field_def)

lemma queryRegion_holds:
  "queryRegion ls a = Some r \<Longrightarrow> region_holds r a \<and> r \<in> set (queryRegions ls)"
  by (auto simp: queryRegion_def find_Some_iff in_set_conv_nth)

section \<open>Page arithmetic\<close>

definition align_up :: "u64 \<Rightarrow> u64" where
  "align_up x = (x + 4095) AND NOT 4095"




text \<open>
  \<open>remote s nr args\<close> executes a system call in the target: the new state and \<^verbatim>\<open>int64_t\<close> result.
\<close>

type_synonym 's remote = "'s \<Rightarrow> nat \<Rightarrow> u64 list \<Rightarrow> 's \<times> 64 word"




definition mmap_prot :: "MemProt \<Rightarrow> u64" where
  "mmap_prot p =
     (if prot_and p ProtRead then 1 else 0) OR (if prot_and p ProtWrite then 2 else 0) OR
     (if prot_and p ProtExec then 4 else 0)"


definition free_mem :: "'s remote \<Rightarrow> 's \<Rightarrow> u64 \<Rightarrow> u64 \<Rightarrow> 's \<times> bool" where
  "free_mem remote s address n =
     (case remote s 11 [address, align_up n, 0, 0, 0, 0] of (s', result) \<Rightarrow> (s', \<not> sint result < 0))"

definition protect :: "'s remote \<Rightarrow> 's \<Rightarrow> u64 \<Rightarrow> u64 \<Rightarrow> MemProt \<Rightarrow> 's \<times> bool" where
  "protect remote s address n newProtection =
     (let pageStart = address AND NOT 4095; pageEnd = (address + n + 4095) AND NOT 4095 in
      case remote s 10 [pageStart, pageEnd - pageStart, mmap_prot newProtection, 0, 0, 0] of
        (s', result) \<Rightarrow> (s', \<not> sint result < 0))"

lemma unat_align_up:
  assumes "unat x + 4095 < 2 ^ 64"
  shows "unat (align_up x) = (unat x + 4095) div 4096 * 4096"
  using unat_align[of 12 "x + 4095"] assms by (simp add: align_up_def unat_word_ariths)













text \<open>The pages \<^verbatim>\<open>protect\<close> names cover the request.\<close>

lemma protect_pages:
  fixes address n :: u64
  assumes "unat address + unat n + 4095 < 2 ^ 64"
  shows "unat (address AND NOT 4095) \<le> unat address \<and>
    unat address + unat n \<le> unat ((address + n + 4095) AND NOT 4095)"
proof -
  have "unat (address + n) = unat address + unat n" using assms by (simp add: unat_word_ariths)
  moreover have "unat (align_up (address + n)) = (unat (address + n) + 4095) div 4096 * 4096"
    using assms calculation by (intro unat_align_up) simp
  ultimately have "unat address + unat n \<le> unat (align_up (address + n))" by linarith
  moreover have "unat (address AND NOT 4095) = unat address div 4096 * 4096"
    using unat_align[of 12 address] by simp
  ultimately show ?thesis by (simp add: align_up_def)
qed

end
