(* ===== verification/Remote_Syscall.thy ===== *)
theory Remote_Syscall
  imports Linux_Process
begin

text \<open>
  Executing a system call inside the target (\<^verbatim>\<open>remoteSyscall\<close> in
  \<^verbatim>\<open>src/src/platform/linux/linux_process.cpp\<close>): stop a thread, replace the instruction at its
  program counter, single-step it, and put everything back.  ptrace and waitpid are a record of
  operations on a target state; \<open>pt_wait\<close> gives the stop signal of the thread, or \<open>None\<close> when it
  did not stop.
\<close>

record regs =
  g_rax :: u64 g_rbx :: u64 g_rcx :: u64 g_rdx :: u64 g_rsi :: u64 g_rdi :: u64 g_rbp :: u64
  g_r8 :: u64 g_r9 :: u64 g_r10 :: u64 g_rip :: u64 g_cs :: u64 g_orig_rax :: u64

record 't ptrace =
  pt_seize :: "'t \<Rightarrow> 't \<times> bool"
  pt_interrupt :: "'t \<Rightarrow> 't \<times> bool"
  pt_wait :: "'t \<Rightarrow> 't \<times> nat option"
  pt_getregs :: "'t \<Rightarrow> regs option"
  pt_setregs :: "'t \<Rightarrow> regs \<Rightarrow> 't \<times> bool"
  pt_peek :: "'t \<Rightarrow> u64 \<Rightarrow> u64 option"
  pt_poke :: "'t \<Rightarrow> u64 \<Rightarrow> u64 \<Rightarrow> 't \<times> bool"
  pt_step :: "'t \<Rightarrow> 't \<times> bool"
  pt_detach :: "'t \<Rightarrow> 't"

definition mode32 :: "regs \<Rightarrow> bool" where
  "mode32 r = (g_cs r AND 0xFF = 0x23)"

definition nr32 :: "nat \<Rightarrow> u32" where
  "nr32 nr = (if nr = 9 then 192 else if nr = 11 then 91 else if nr = 10 then 125 else of_nat nr)"

definition call_regs :: "regs \<Rightarrow> nat \<Rightarrow> u64 list \<Rightarrow> regs" where
  "call_regs old nr a =
     (let r = old\<lparr>g_orig_rax := - 1\<rparr> in
      if mode32 old then
        r\<lparr>g_rax := ucast (nr32 nr), g_rbx := a ! 0, g_rcx := a ! 1, g_rdx := a ! 2,
          g_rsi := a ! 3, g_rdi := a ! 4, g_rbp := a ! 5\<rparr>
      else
        r\<lparr>g_rax := of_nat nr, g_rdi := a ! 0, g_rsi := a ! 1, g_rdx := a ! 2,
          g_r10 := a ! 3, g_r8 := a ! 4, g_r9 := a ! 5\<rparr>)"

definition instr_word :: "regs \<Rightarrow> u64" where
  "instr_word old = (if mode32 old then 0x80CD else 0x050F)"

definition patched_word :: "regs \<Rightarrow> u64 \<Rightarrow> u64" where
  "patched_word old orig = (orig AND NOT 0xFFFF) OR instr_word old"

text \<open>The \<^verbatim>\<open>int64_t\<close> result: only the errno range of a 32-bit result is sign-extended.\<close>

definition result_of :: "regs \<Rightarrow> regs \<Rightarrow> 64 word" where
  "result_of old r =
     (if mode32 old then
        let raw32 = ucast (g_rax r) :: u32 in
        if 0xFFFFF001 \<le> raw32 then scast raw32 else ucast raw32
      else g_rax r)"

definition step_and_collect :: "'t ptrace \<Rightarrow> regs \<Rightarrow> regs \<Rightarrow> 't \<Rightarrow> 't \<times> 64 word" where
  "step_and_collect P old regs s =
     (case pt_setregs P s regs of (s, ok) \<Rightarrow>
        if \<not> ok then (s, - 1)
        else case pt_step P s of (s, ok) \<Rightarrow>
          if \<not> ok then (s, - 1)
          else case pt_wait P s of (s, sig) \<Rightarrow>
            if sig = Some 5 then
              (s, case pt_getregs P s of Some r \<Rightarrow> result_of old r | None \<Rightarrow> - 1)
            else (s, - 1))"

text \<open>The part from reading the registers of the stopped thread to the detach.\<close>

definition run_in_stopped :: "'t ptrace \<Rightarrow> 't \<Rightarrow> nat \<Rightarrow> u64 list \<Rightarrow> 't \<times> 64 word" where
  "run_in_stopped P s nr args =
     (case pt_getregs P s of
        None \<Rightarrow> (pt_detach P s, - 1)
      | Some old \<Rightarrow>
          (case pt_peek P s (g_rip old) of
            None \<Rightarrow> (pt_detach P s, - 1)
          | Some orig \<Rightarrow>
              (case pt_poke P s (g_rip old) (patched_word old orig) of
                (s, ok) \<Rightarrow>
                  if \<not> ok then (pt_detach P s, - 1)
                  else case step_and_collect P old (call_regs old nr args) s of (s, result) \<Rightarrow>
                    (pt_detach P (fst (pt_setregs P (fst (pt_poke P s (g_rip old) orig)) old)), result))))"

definition remoteSyscall :: "'t ptrace \<Rightarrow> 't \<Rightarrow> nat \<Rightarrow> u64 list \<Rightarrow> 't \<times> 64 word" where
  "remoteSyscall P s nr args =
     (case pt_seize P s of (s, ok) \<Rightarrow>
        if \<not> ok then (s, - 1)
        else case pt_interrupt P s of (s, ok) \<Rightarrow>
          if \<not> ok then (pt_detach P s, - 1)
          else case pt_wait P s of (s, sig) \<Rightarrow>
            if sig = None then (pt_detach P s, - 1) else run_in_stopped P s nr args)"

section \<open>The target is put back\<close>

text \<open>
  What the code relies on of ptrace.  The view of a target state is the registers of the thread, the
  words of its text, whether it is in a ptrace stop, and which words \<^verbatim>\<open>PTRACE_POKETEXT\<close> can write.
  Reading and detaching change neither registers nor text; a register write sets the registers, a text
  write sets the word at its address, and a failed request changes nothing.
\<close>

record 't view =
  v_regs :: "'t \<Rightarrow> regs"
  v_text :: "'t \<Rightarrow> u64 \<Rightarrow> u64"
  v_stopped :: "'t \<Rightarrow> bool"
  v_pokable :: "'t \<Rightarrow> u64 \<Rightarrow> bool"

definition ptrace_laws :: "'t ptrace \<Rightarrow> 't view \<Rightarrow> bool" where
  "ptrace_laws P V \<longleftrightarrow>
     (\<forall>s. v_regs V (pt_detach P s) = v_regs V s \<and> v_text V (pt_detach P s) = v_text V s) \<and>
     (\<forall>s r. pt_getregs P s = Some r \<longrightarrow> r = v_regs V s) \<and>
     (\<forall>s a w. pt_peek P s a = Some w \<longrightarrow> w = v_text V s a) \<and>
     (\<forall>s r. v_text V (fst (pt_setregs P s r)) = v_text V s) \<and>
     (\<forall>s r. v_regs V (fst (pt_setregs P s r)) = (if snd (pt_setregs P s r) then r else v_regs V s)) \<and>
     (\<forall>s a w. v_regs V (fst (pt_poke P s a w)) = v_regs V s) \<and>
     (\<forall>s a w. v_text V (fst (pt_poke P s a w)) =
        (if snd (pt_poke P s a w) then (v_text V s)(a := w) else v_text V s))"

text \<open>
  Stops, by ptrace(2): a thread that is stopped stays stopped until the tracer restarts it (nobody
  kills it), through requests that read or write it and through a restart that fails; \<^verbatim>\<open>waitpid\<close> reports a
  stop of a thread that is stopped.  A stopped thread takes back registers that were read from it, and
  a word that was written can be written again.  What a step does is left open: it may end the thread,
  let it run on, or unmap its code.
\<close>

definition stop_laws :: "'t ptrace \<Rightarrow> 't view \<Rightarrow> bool" where
  "stop_laws P V \<longleftrightarrow>
     (\<forall>s r. v_stopped V s \<longrightarrow> v_stopped V (fst (pt_setregs P s r))) \<and>
     (\<forall>s r a. v_pokable V (fst (pt_setregs P s r)) a = v_pokable V s a) \<and>
     (\<forall>s a w. v_stopped V s \<longrightarrow> v_stopped V (fst (pt_poke P s a w))) \<and>
     (\<forall>s a w. snd (pt_poke P s a w) \<longrightarrow> v_pokable V (fst (pt_poke P s a w)) a) \<and>
     (\<forall>s a w. v_stopped V s \<and> v_pokable V s a \<longrightarrow> snd (pt_poke P s a w)) \<and>
     (\<forall>s s' r. v_stopped V s \<and> pt_getregs P s' = Some r \<longrightarrow> snd (pt_setregs P s r)) \<and>
     (\<forall>s. v_stopped V s \<and> \<not> snd (pt_step P s) \<longrightarrow>
        v_stopped V (fst (pt_step P s)) \<and> (\<forall>a. v_pokable V (fst (pt_step P s)) a = v_pokable V s a)) \<and>
     (\<forall>s sig. snd (pt_wait P s) = Some sig \<longrightarrow> v_stopped V (fst (pt_wait P s)))"

text \<open>
  The state after a step that was taken, and whether the thread was reported stopped; \<open>None\<close> when the
  registers could not be set or the step was refused.
\<close>

definition step_taken :: "'t ptrace \<Rightarrow> regs \<Rightarrow> 't \<Rightarrow> ('t \<times> bool) option" where
  "step_taken P r s =
     (let s' = fst (pt_setregs P s r); s'' = fst (pt_step P s') in
      if snd (pt_setregs P s r) \<and> snd (pt_step P s')
      then Some (fst (pt_wait P s''), snd (pt_wait P s'') \<noteq> None) else None)"

text \<open>
  The step of the system call \<open>nr\<close> on the patched thread, if it is taken, leaves the thread stopped, as
  \<^verbatim>\<open>waitpid\<close> reports, and its code in place.
\<close>

definition survives_step :: "'t ptrace \<Rightarrow> 't view \<Rightarrow> 't \<Rightarrow> nat \<Rightarrow> u64 list \<Rightarrow> bool" where
  "survives_step P V s nr args \<longleftrightarrow>
     (let old = v_regs V s; rip = g_rip old;
          patched = fst (pt_poke P s rip (patched_word old (v_text V s rip)))
      in case step_taken P (call_regs old nr args) patched of
           None \<Rightarrow> True
         | Some (s', reported) \<Rightarrow> reported \<and> v_pokable V s' rip)"

lemma collected:
  assumes laws: "stop_laws P V" and s: "v_stopped V s" "v_pokable V s a"
    and step: "case step_taken P r s of None \<Rightarrow> True | Some (s', reported) \<Rightarrow> reported \<and> v_pokable V s' a"
  shows "v_stopped V (fst (step_and_collect P old r s)) \<and> v_pokable V (fst (step_and_collect P old r s)) a"
proof -
  obtain s1 ok1 where s1: "pt_setregs P s r = (s1, ok1)" by fastforce
  obtain s2 ok2 where s2: "pt_step P s1 = (s2, ok2)" by fastforce
  obtain s3 sig where s3: "pt_wait P s2 = (s3, sig)" by fastforce
  have one: "v_stopped V s1 \<and> v_pokable V s1 a"
    using laws s s1 unfolding stop_laws_def by (metis fst_conv)
  have two: "v_stopped V s2 \<and> v_pokable V s2 a" if "\<not> ok2"
    using laws one s2 that unfolding stop_laws_def by (metis fst_conv snd_conv)
  have three: "v_stopped V s3 \<and> v_pokable V s3 a" if "ok1" "ok2"
  proof -
    from step that obtain n where "sig = Some n" "v_pokable V s3 a"
      by (auto simp: step_taken_def s1 s2 s3 Let_def)
    moreover from this have "v_stopped V s3" using laws s3 unfolding stop_laws_def by (metis fst_conv snd_conv)
    ultimately show ?thesis by simp
  qed
  show ?thesis
    using one two three by (auto simp: step_and_collect_def s1 s2 s3)
qed

text \<open>
  C21: on a stopped thread every path gives the registers it was stopped with and the original
  instruction at its program counter back, the paths on which a request fails included, except when
  the step was taken and the thread was not reported stopped afterwards or lost the code at its program
  counter (\<open>survives_step\<close>): the code then tries to restore all the same and ignores that it fails, as
  \<open>lost_thread_stays_patched\<close> shows.
\<close>

theorem run_in_stopped_restores:
  assumes laws: "ptrace_laws P V" "stop_laws P V"
    and stopped: "v_stopped V s" and step: "survives_step P V s nr args"
  shows "v_regs V (fst (run_in_stopped P s nr args)) = v_regs V s \<and>
    v_text V (fst (run_in_stopped P s nr args)) (g_rip (v_regs V s)) = v_text V s (g_rip (v_regs V s))"
proof (cases "pt_getregs P s")
  case None
  then show ?thesis using laws(1) by (simp add: run_in_stopped_def ptrace_laws_def)
next
  case (Some old)
  note got = this
  then have old: "old = v_regs V s" using laws(1) by (simp add: ptrace_laws_def)
  show ?thesis
  proof (cases "pt_peek P s (g_rip old)")
    case None
    with got laws(1) show ?thesis by (simp add: run_in_stopped_def ptrace_laws_def)
  next
    case (Some orig)
    then have orig: "orig = v_text V s (g_rip old)" using laws(1) by (simp add: ptrace_laws_def)
    define w where "w = patched_word old orig"
    define s1 where "s1 = fst (pt_poke P s (g_rip old) w)"
    define s2 where "s2 = fst (step_and_collect P old (call_regs old nr args) s1)"
    define s3 where "s3 = fst (pt_poke P s2 (g_rip old) orig)"
    have run: "fst (run_in_stopped P s nr args) =
        (if snd (pt_poke P s (g_rip old) w) then pt_detach P (fst (pt_setregs P s3 old)) else pt_detach P s1)"
      using Some got
      by (simp add: run_in_stopped_def w_def[symmetric] s1_def s2_def s3_def split: prod.splits)
    show ?thesis
    proof (cases "snd (pt_poke P s (g_rip old) w)")
      case False
      with run laws(1) show ?thesis by (simp add: ptrace_laws_def s1_def)
    next
      case True
      then have "v_stopped V s1" "v_pokable V s1 (g_rip old)"
        using laws(2) stopped by (simp_all add: stop_laws_def s1_def)
      moreover have "case step_taken P (call_regs old nr args) s1 of None \<Rightarrow> True
          | Some (s', reported) \<Rightarrow> reported \<and> v_pokable V s' (g_rip old)"
        using step unfolding survives_step_def Let_def s1_def w_def orig old .
      ultimately have two: "v_stopped V s2" "v_pokable V s2 (g_rip old)"
        using collected[OF laws(2)] by (simp_all add: s2_def)
      then have "snd (pt_poke P s2 (g_rip old) orig)" "v_stopped V s3"
        using laws(2) by (simp_all add: stop_laws_def s3_def)
      then have "v_text V s3 (g_rip old) = orig" "snd (pt_setregs P s3 old)"
        using laws got by (auto simp: ptrace_laws_def stop_laws_def s3_def)
      with True run laws(1) old orig show ?thesis by (simp add: ptrace_laws_def)
    qed
  qed
qed

definition demo_regs :: regs where
  "demo_regs = \<lparr>g_rax = 7, g_rbx = 0, g_rcx = 0, g_rdx = 0, g_rsi = 0, g_rdi = 0, g_rbp = 0,
     g_r8 = 0, g_r9 = 0, g_r10 = 0, g_rip = 0x1000, g_cs = 0x23, g_orig_rax = 0\<rparr>"

text \<open>
  A target as registers, text and whether the thread is stopped, whose single step clobbers every
  register and all text; \<open>ends\<close> says whether the step ends the thread.
\<close>

type_synonym demo_target = "regs \<times> (u64 \<Rightarrow> u64) \<times> bool"

definition demo_ptrace :: "bool \<Rightarrow> demo_target ptrace" where
  "demo_ptrace ends = \<lparr>pt_seize = (\<lambda>s. (s, True)), pt_interrupt = (\<lambda>(r, t, stopped). ((r, t, True), True)),
     pt_wait = (\<lambda>(r, t, stopped). ((r, t, stopped), if stopped then Some 5 else None)),
     pt_getregs = (\<lambda>(r, t, stopped). if stopped then Some r else None),
     pt_setregs = (\<lambda>(r, t, stopped) r'. if stopped then ((r', t, stopped), True) else ((r, t, stopped), False)),
     pt_peek = (\<lambda>(r, t, stopped) a. if stopped then Some (t a) else None),
     pt_poke = (\<lambda>(r, t, stopped) a w. if stopped then ((r, t(a := w), stopped), True) else ((r, t, stopped), False)),
     pt_step = (\<lambda>(r, t, stopped).
       if \<not> stopped then ((r, t, stopped), False)
       else if ends then ((r, t, False), True) else ((demo_regs\<lparr>g_rip := 0\<rparr>, (\<lambda>_. 0), True), True)),
     pt_detach = (\<lambda>s. s)\<rparr>"

definition demo_view :: "demo_target view" where
  "demo_view = \<lparr>v_regs = (\<lambda>(r, t, stopped). r), v_text = (\<lambda>(r, t, stopped). t), v_stopped = (\<lambda>(r, t, stopped). stopped),
     v_pokable = (\<lambda>s a. True)\<rparr>"

lemma demo_ptrace_laws: "ptrace_laws (demo_ptrace ends) demo_view" "stop_laws (demo_ptrace ends) demo_view"
  by (simp_all add: ptrace_laws_def stop_laws_def demo_ptrace_def demo_view_def split: if_splits)

theorem run_in_stopped_restores_witness:
  "let s = fst (run_in_stopped (demo_ptrace False) (demo_regs, (\<lambda>_. 0x90), True) 9 [0, 0, 0, 0, 0, 0])
   in g_rip (fst s) = 0x1000 \<and> fst (snd s) 0x1000 = 0x90"
proof -
  let ?s = "(demo_regs, (\<lambda>_ :: u64. 0x90 :: u64), True)"
  have "v_stopped demo_view ?s" by (simp add: demo_view_def)
  moreover have "survives_step (demo_ptrace False) demo_view ?s 9 [0, 0, 0, 0, 0, 0]"
    by (simp add: survives_step_def step_taken_def demo_ptrace_def demo_view_def Let_def)
  ultimately show ?thesis
    using run_in_stopped_restores[OF demo_ptrace_laws, of ?s False 9 "[0, 0, 0, 0, 0, 0]"]
    by (simp add: demo_view_def demo_regs_def case_prod_beta Let_def)
qed

text \<open>A thread that is lost after the step keeps the patched word; the call only returns \<open>- 1\<close>.\<close>

lemma lost_thread_stays_patched:
  "case run_in_stopped (demo_ptrace True) (demo_regs, (\<lambda>_. 0x90), True) 9 [0, 0, 0, 0, 0, 0] of
     ((r, t, stopped), result) \<Rightarrow> t 0x1000 = 0x80CD \<and> result = - 1"
  by code_simp

text \<open>A 32-bit result reads back negative exactly in the errno range.\<close>

lemma result_of_mode32:
  assumes "mode32 old"
  shows "sint (result_of old r) < 0 \<longleftrightarrow> 0xFFFFF001 \<le> (ucast (g_rax r) :: u32)"
proof -
  let ?w = "ucast (g_rax r) :: u32"
  show ?thesis
  proof (cases "0xFFFFF001 \<le> ?w")
    case True
    then have big: "0xFFFFF001 \<le> uint ?w" by (simp add: word_le_def)
    have "uint ?w < 2 ^ 32" using uint_bounded[of ?w] by simp
    moreover have "(u + 2147483648) mod 4294967296 = u - 2147483648" if "4294963201 \<le> u" "u < 4294967296" for u :: int
      using that mod_add_self2[of "u - 2147483648" 4294967296] by (simp add: add.commute)
    ultimately have "sint ?w < 0"
      using big by (simp add: sint_uint signed_take_bit_eq_take_bit_shift take_bit_eq_mod)
    then show ?thesis using assms True by (simp add: result_of_def Let_def sint_up_scast is_up)
  next
    case False
    have "\<not> sint (ucast ?w :: 64 word) < 0"
      by (simp add: sint_uint unsigned_ucast_eq signed_take_bit_negative_iff bit_simps)
    then show ?thesis using assms False by (simp add: result_of_def Let_def)
  qed
qed

end
