(* ===== verification/Guest_View.thy ===== *)
theory Guest_View
  imports Process_Api
begin

text \<open>
  Emulator guest memory (\<^verbatim>\<open>src/src/core/guest_view.hpp\<close>): a window of host memory with guest
  addresses and a guest byte order, typed reads and writes through it, the chunked exact scan, the
  next scans, and the comparison of two snapshots.  \<open>gv_proc = None\<close> is the null process pointer.
  Loop offsets are natural numbers: a guest of less than \<open>2 ^ 64 - 2 ^ 20\<close> bytes never wraps the
  \<^verbatim>\<open>uint64_t\<close> counter, while \<^verbatim>\<open>contains\<close> keeps its own overflow check on machine words.
\<close>

record 's guest =
  gv_proc :: "'s process option"
  gv_base :: u64
  gv_size :: u64
  gv_big :: bool

definition contains :: "'s guest \<Rightarrow> u64 \<Rightarrow> nat \<Rightarrow> bool" where
  "contains gv guestAddr n \<longleftrightarrow>
     gv_proc gv \<noteq> None \<and> 0 < n \<and> guestAddr \<le> guestAddr + of_nat n \<and> guestAddr + of_nat n \<le> gv_size gv"

definition toHost :: "'s guest \<Rightarrow> u64 \<Rightarrow> u64" where
  "toHost gv guestAddr = gv_base gv + guestAddr"

definition byteswap :: "'v scalar \<Rightarrow> 'v \<Rightarrow> 'v" where
  "byteswap T v =
     (if sc_size T = 2 \<or> sc_size T = 4 \<or> sc_size T = 8 then sc_val T (rev (sc_bytes T v)) else v)"

definition readBytes :: "'s guest \<Rightarrow> 's \<Rightarrow> u64 \<Rightarrow> nat \<Rightarrow> bytes" where
  "readBytes gv s guestAddr n =
     (if \<not> contains gv guestAddr n then []
      else case pr_read (the (gv_proc gv)) s (toHost gv guestAddr) n of
          None \<Rightarrow> []
        | Some bs \<Rightarrow> if length bs < n then [] else bs)"

definition writeBytes :: "'s guest \<Rightarrow> 's \<Rightarrow> u64 \<Rightarrow> bytes \<Rightarrow> 's \<times> bool" where
  "writeBytes gv s guestAddr bs =
     (if \<not> contains gv guestAddr (length bs) then (s, False)
      else write_exact (the (gv_proc gv)) s (toHost gv guestAddr) bs)"

definition gv_read :: "'v scalar \<Rightarrow> 's guest \<Rightarrow> 's \<Rightarrow> u64 \<Rightarrow> 'v option" where
  "gv_read T gv s guestAddr =
     (let b = readBytes gv s guestAddr (sc_size T) in
      if length b \<noteq> sc_size T then None
      else let v = sc_val T b in Some (if gv_big gv then byteswap T v else v))"

definition gv_write :: "'v scalar \<Rightarrow> 's guest \<Rightarrow> 's \<Rightarrow> u64 \<Rightarrow> 'v \<Rightarrow> 's \<times> bool" where
  "gv_write T gv s guestAddr v =
     writeBytes gv s guestAddr (sc_bytes T (if gv_big gv then byteswap T v else v))"

section \<open>Scans\<close>

definition kStride :: nat where
  "kStride = 1048576"

definition scan_window :: "nat \<Rightarrow> bytes \<Rightarrow> nat \<Rightarrow> nat \<Rightarrow> bytes \<Rightarrow> nat list" where
  "scan_window n np alignment off got =
     (if length got < n then []
      else let limit = min kStride (length got - n + 1) in
        map (\<lambda>i. off + i)
          (filter (\<lambda>i. i mod alignment = 0 \<and> take n (drop i got) = np) [0..<limit]))"

function scan_from :: "'s process \<Rightarrow> 's \<Rightarrow> 's guest \<Rightarrow> nat \<Rightarrow> bytes \<Rightarrow> nat \<Rightarrow> nat \<Rightarrow> nat list" where
  "scan_from P s gv n np alignment off =
     (if off + n \<le> unat (gv_size gv) then
        let want = min (kStride + n - 1) (unat (gv_size gv) - off) in
        (case pr_read P s (toHost gv (of_nat off)) want of
           None \<Rightarrow> []
         | Some got \<Rightarrow> scan_window n np alignment off got) @
        scan_from P s gv n np alignment (off + kStride)
      else [])"
  by pat_completeness auto
termination
  by (relation "measure (\<lambda>(P, s, gv, n, np, al, off). Suc (unat (gv_size gv)) - off)") (auto simp: kStride_def)

declare scan_from.simps [simp del]

definition guestScanExact :: "'v scalar \<Rightarrow> 's guest \<Rightarrow> 's \<Rightarrow> 'v \<Rightarrow> nat \<Rightarrow> nat list" where
  "guestScanExact T gv s v alignment =
     (case gv_proc gv of
        None \<Rightarrow> []
      | Some P \<Rightarrow>
          if unat (gv_size gv) < sc_size T then []
          else
            let alignment = (if alignment = 0 then 1 else alignment);
                needle = (if gv_big gv then byteswap T v else v)
            in scan_from P s gv (sc_size T) (sc_bytes T needle) alignment 0)"

text \<open>The step of the inner loop visits the multiples of the alignment below the limit.\<close>

definition guestNextExact :: "'v scalar \<Rightarrow> 's guest \<Rightarrow> 's \<Rightarrow> u64 list \<Rightarrow> 'v \<Rightarrow> u64 list" where
  "guestNextExact T gv s prev v = filter (\<lambda>g. gv_read T gv s g = Some v) prev"

datatype GuestCompare = GChanged | GUnchanged | GIncreased | GDecreased

fun guest_keep :: "'v scalar \<Rightarrow> GuestCompare \<Rightarrow> 'v \<Rightarrow> 'v \<Rightarrow> bool" where
  "guest_keep T GChanged oldv c = (c \<noteq> oldv)"
| "guest_keep T GUnchanged oldv c = (c = oldv)"
| "guest_keep T GIncreased oldv c = sc_less T oldv c"
| "guest_keep T GDecreased oldv c = sc_less T c oldv"

fun guestNextCompare :: "'v scalar \<Rightarrow> 's guest \<Rightarrow> 's \<Rightarrow> (u64 \<times> 'v) list \<Rightarrow> GuestCompare \<Rightarrow> (u64 \<times> 'v) list" where
  "guestNextCompare T gv s [] op = []"
| "guestNextCompare T gv s ((addr, oldv) # prev) op =
     (case gv_read T gv s addr of
        None \<Rightarrow> guestNextCompare T gv s prev op
      | Some c \<Rightarrow>
          if guest_keep T op oldv c then (addr, c) # guestNextCompare T gv s prev op
          else guestNextCompare T gv s prev op)"

function read_region :: "'s process \<Rightarrow> 's \<Rightarrow> 's guest \<Rightarrow> nat \<Rightarrow> bytes \<Rightarrow> bytes" where
  "read_region P s gv off buf =
     (if off < unat (gv_size gv) then
        (case pr_read P s (toHost gv (of_nat off)) (min 1048576 (unat (gv_size gv) - off)) of
           None \<Rightarrow> buf
         | Some got \<Rightarrow> if got = [] then buf else read_region P s gv (off + length got) (buf @ got))
      else buf)"
  by pat_completeness auto
termination
  by (relation "measure (\<lambda>(P, s, gv, off, buf). unat (gv_size gv) - off)")
    (auto intro!: diff_less_mono2)

declare read_region.simps [simp del]

definition guestReadRegion :: "'s guest \<Rightarrow> 's \<Rightarrow> bytes" where
  "guestReadRegion gv s =
     (case gv_proc gv of
        None \<Rightarrow> []
      | Some P \<Rightarrow> if gv_size gv = 0 then [] else read_region P s gv 0 [])"

text \<open>\<open>buf\<close> holds the bytes below \<^verbatim>\<open>off\<close>; the resize at a gap cuts the buffer there.\<close>

definition guestCompareBuffers :: "'v scalar \<Rightarrow> bytes \<Rightarrow> bytes \<Rightarrow> bool \<Rightarrow> GuestCompare \<Rightarrow> nat \<Rightarrow> (nat \<times> 'v) list" where
  "guestCompareBuffers T oldB newB bigEndian op alignment0 =
     (let alignment = (if alignment0 = 0 then 1 else alignment0);
          n = min (length oldB) (length newB);
          get = (\<lambda>B off. let v = sc_val T (take (sc_size T) (drop off B)) in
                         if bigEndian then byteswap T v else v)
      in map (\<lambda>off. (off, get newB off))
           (filter (\<lambda>off. off mod alignment = 0 \<and> off + sc_size T \<le> n \<and> guest_keep T op (get oldB off) (get newB off))
              [0..<n]))"

section \<open>Typed access\<close>

lemma byteswap_involutive:
  assumes "scalar_type T"
  shows "byteswap T (byteswap T v) = v"
  using scalar_type.bytes_val[OF assms] scalar_type.length_bytes[OF assms] scalar_type.val_bytes[OF assms]
  by (simp add: byteswap_def)

lemma contains_self: "contains gv a n \<Longrightarrow> \<exists>P. gv_proc gv = Some P"
  by (auto simp: contains_def)

text \<open>
  a value written to a guest address in the guest's byte order is read back from it.
\<close>

theorem guest_write_read:
  assumes T: "scalar_type T" and P: "gv_proc gv = Some P" "read_law P mem" "write_law P mem"
    and w: "gv_write T gv s guestAddr v = (s', True)"
  shows "gv_read T gv s' guestAddr = Some v"
proof -
  note [simp] = scalar_type.length_bytes[OF T] scalar_type.val_bytes[OF T]
  define x where "x = (if gv_big gv then byteswap T v else v)"
  have x: "(if gv_big gv then byteswap T x else x) = v"
    by (simp add: x_def byteswap_involutive[OF T])
  from w have c: "contains gv guestAddr (sc_size T)"
    and we: "write_exact P s (toHost gv guestAddr) (sc_bytes T x) = (s', True)"
    by (auto simp: gv_write_def writeBytes_def P(1) x_def split: if_splits)
  have "sc_size T \<le> 2 ^ 64" using scalar_type.size_small[OF T] by simp
  then have "read_exact P s' (toHost gv guestAddr) (sc_size T) = Some (sc_bytes T x)"
    using read_after_write[OF P(2,3) we] by simp
  then have "readBytes gv s' guestAddr (sc_size T) = sc_bytes T x"
    using c P(1) by (auto simp: readBytes_def read_exact_def split: option.splits if_splits)
  then show ?thesis using x by (simp add: gv_read_def Let_def)
qed

definition demo_guest :: "memory guest" where
  "demo_guest = \<lparr>gv_proc = Some (flat_process [] []), gv_base = 0x1000, gv_size = 64, gv_big = True\<rparr>"

theorem guest_write_read_witness:
  "gv_read u32_type demo_guest (fst (gv_write u32_type demo_guest (\<lambda>_. None) 8 0x01020304)) 8 = Some 0x01020304"
proof -
  have size: "sc_size u32_type = 4" by (simp add: u32_type_def)
  have "snd (gv_write u32_type demo_guest (\<lambda>_. None) 8 0x01020304)"
    by (simp add: gv_write_def writeBytes_def contains_def demo_guest_def write_exact_def flat_process_def size)
  then have "gv_write u32_type demo_guest (\<lambda>_. None) 8 0x01020304 =
      (fst (gv_write u32_type demo_guest (\<lambda>_. None) 8 0x01020304), True)"
    by (simp add: prod_eq_iff)
  moreover have "gv_proc demo_guest = Some (flat_process [] [])" by (simp add: demo_guest_def)
  ultimately show ?thesis
    by (intro guest_write_read[OF u32s.scalar_type_axioms _ flat_process_laws[of "[]" "[]"]])
qed

section \<open>The chunked scan finds what a plain scan finds\<close>

text \<open>
  The plain scan: every aligned guest address whose bytes lie in the guest, equal the needle, and
  can be read together with everything before them in their one-megabyte window.
\<close>

definition scan_hit :: "memory \<Rightarrow> 's guest \<Rightarrow> nat \<Rightarrow> bytes \<Rightarrow> nat \<Rightarrow> nat \<Rightarrow> bool" where
  "scan_hit m gv n np alignment a \<longleftrightarrow>
     a mod alignment = 0 \<and> a + n \<le> unat (gv_size gv) \<and>
     (\<forall>b. a div kStride * kStride \<le> b \<and> b < a + n \<longrightarrow> readable m (gv_base gv + of_nat b)) \<and>
     slot_val m (gv_base gv + of_nat a) n = np"

lemma scan_window_spec:
  assumes law: "read_law P mem" and n: "0 < n" and al: "alignment dvd kStride"
    and off: "kStride dvd off" "off + n \<le> unat (gv_size gv)"
  shows "(case pr_read P s (toHost gv (of_nat off)) (min (kStride + n - 1) (unat (gv_size gv) - off)) of
       None \<Rightarrow> [] | Some got \<Rightarrow> scan_window n np alignment off got) =
     filter (scan_hit (mem s) gv n np alignment) [off..<off + kStride]"
proof -
  define want where "want = min (kStride + n - 1) (unat (gv_size gv) - off)"
  define h where "h = toHost gv (of_nat off)"
  define got where "got = readable_prefix (mem s) (range_addrs h want)"
  have K: "0 < kStride" by (simp add: kStride_def)
  have h: "h + of_nat i = gv_base gv + of_nat (off + i)" for i by (simp add: h_def toHost_def add.assoc)
  note pre = prefix_slot[OF got_def]
  have hit: "scan_hit (mem s) gv n np alignment (off + i) \<longleftrightarrow>
      i mod alignment = 0 \<and> i + n \<le> length got \<and> take n (drop i got) = np" if i: "i < kStride" for i
  proof -
    have "(off + i) mod alignment = i mod alignment"
      using al off(1) by (metis dvd_trans dvd_imp_mod_0 mod_add_left_eq add_0)
    moreover have "(off + i) div kStride * kStride = off" using off(1) i by auto
    moreover have "(\<forall>b. off \<le> b \<and> b < off + i + n \<longrightarrow> readable (mem s) (gv_base gv + of_nat b)) \<longleftrightarrow>
        (\<forall>j < i + n. readable (mem s) (h + of_nat j))"
    proof (intro iffI allI impI)
      fix j assume "\<forall>b. off \<le> b \<and> b < off + i + n \<longrightarrow> readable (mem s) (gv_base gv + of_nat b)" "j < i + n"
      then have "readable (mem s) (gv_base gv + of_nat (off + j))" by (simp del: of_nat_add)
      then show "readable (mem s) (h + of_nat j)" unfolding h .
    next
      fix b assume j: "\<forall>j < i + n. readable (mem s) (h + of_nat j)" and b: "off \<le> b \<and> b < off + i + n"
      then have "b - off < i + n" by linarith
      with j have "readable (mem s) (h + of_nat (b - off))" by blast
      then show "readable (mem s) (gv_base gv + of_nat b)" unfolding h using b by simp
    qed
    moreover have "i + n \<le> want \<longleftrightarrow> off + i + n \<le> unat (gv_size gv)"
      using i off(2) n by (auto simp: want_def)
    ultimately have "scan_hit (mem s) gv n np alignment (off + i) \<longleftrightarrow>
        i mod alignment = 0 \<and> i + n \<le> length got \<and> slot_val (mem s) (h + of_nat i) n = np"
      unfolding scan_hit_def using pre h[of i] by (auto simp: add.assoc)
    with pre show ?thesis by auto
  qed
  have window: "filter (scan_hit (mem s) gv n np alignment) [off..<off + kStride] =
      map (\<lambda>i. off + i) (filter (\<lambda>i. i mod alignment = 0 \<and> i + n \<le> length got \<and> take n (drop i got) = np) [0..<kStride])"
  proof -
    have "[off..<off + kStride] = map (\<lambda>i. off + i) [0..<kStride]"
      using map_add_upt[of off kStride] by (simp add: add.commute)
    then show ?thesis using hit by (auto simp: filter_map o_def intro!: filter_cong)
  qed
  have "(case pr_read P s h want of None \<Rightarrow> [] | Some got \<Rightarrow> scan_window n np alignment off got) =
      scan_window n np alignment off got"
    using law n by (auto simp: read_law_def got_def[symmetric] Let_def scan_window_def)
  also have "\<dots> = map (\<lambda>i. off + i) (filter (\<lambda>i. i mod alignment = 0 \<and> i + n \<le> length got \<and> take n (drop i got) = np) [0..<kStride])"
  proof (cases "length got < n")
    case True
    then show ?thesis by (auto simp: scan_window_def)
  next
    case False
    define limit where "limit = min kStride (length got - n + 1)"
    have split: "[0..<kStride] = [0..<limit] @ [limit..<kStride]"
      by (intro upt_split) (simp_all add: limit_def)
    have "filter (\<lambda>i. i mod alignment = 0 \<and> i + n \<le> length got \<and> take n (drop i got) = np) [limit..<kStride] = []"
      using False by (auto simp: limit_def filter_empty_conv)
    moreover have "filter (\<lambda>i. i mod alignment = 0 \<and> i + n \<le> length got \<and> take n (drop i got) = np) [0..<limit] =
        filter (\<lambda>i. i mod alignment = 0 \<and> take n (drop i got) = np) [0..<limit]"
      using False by (intro filter_cong) (auto simp: limit_def)
    ultimately show ?thesis
      using False unfolding scan_window_def Let_def limit_def[symmetric] split filter_append by simp
  qed
  finally show ?thesis using window by (simp add: h_def want_def)
qed

lemma scan_from_spec:
  assumes law: "read_law P mem" and n: "0 < n" and al: "alignment dvd kStride" and off: "kStride dvd off"
  shows "scan_from P s gv n np alignment off =
    filter (scan_hit (mem s) gv n np alignment) [off..<unat (gv_size gv)]"
  using off
proof (induction "Suc (unat (gv_size gv)) - off" arbitrary: off rule: less_induct)
  case less
  let ?size = "unat (gv_size gv)" and ?hit = "scan_hit (mem s) gv n np alignment"
  have K: "0 < kStride" by (simp add: kStride_def)
  have late: "filter ?hit [i..<j] = []" if "?size < i + n" for i j
    using that by (auto simp: filter_empty_conv scan_hit_def)
  show ?case
  proof (cases "off + n \<le> ?size")
    case True
    then have rest: "scan_from P s gv n np alignment (off + kStride) = filter ?hit [off + kStride..<?size]"
      using K less.prems by (intro less.hyps) simp_all
    have "filter ?hit [off..<off + kStride] @ filter ?hit [off + kStride..<?size] = filter ?hit [off..<?size]"
    proof (cases "off + kStride \<le> ?size")
      case True
      then show ?thesis using upt_split[of off "off + kStride" ?size] by simp
    next
      case False
      then show ?thesis
        using upt_split[of off ?size "off + kStride"] \<open>off + n \<le> ?size\<close> late[of ?size] n by simp
    qed
    then show ?thesis
      using True scan_window_spec[OF law n al less.prems True] rest
      by (subst scan_from.simps) (simp add: Let_def)
  next
    case False
    then show ?thesis using late[of off] by (subst scan_from.simps) simp
  qed
qed

text \<open>
  C25: the chunked scan of an emulated memory returns, in ascending order and without duplicates,
  exactly the aligned guest addresses that hold the value in the guest's byte order and can be
  read together with the part of their window before them.
\<close>

theorem guestScanExact_spec:
  assumes T: "scalar_type T" and P: "gv_proc gv = Some P" "read_law P mem"
    and al: "alignment \<in> {1, 2, 4, 8}"
  shows "guestScanExact T gv s v alignment =
    filter (scan_hit (mem s) gv (sc_size T) (sc_bytes T (if gv_big gv then byteswap T v else v)) alignment)
      [0..<unat (gv_size gv)]"
proof -
  have al': "alignment dvd kStride" "alignment \<noteq> 0" using al by (auto simp: kStride_def)
  show ?thesis
  proof (cases "unat (gv_size gv) < sc_size T")
    case True
    then show ?thesis by (auto simp: guestScanExact_def P(1) filter_empty_conv scan_hit_def)
  next
    case False
    then show ?thesis
      using scan_from_spec[OF P(2) scalar_type.size_pos[OF T] al'(1), of 0] al'(2)
      by (simp add: guestScanExact_def P(1) Let_def)
  qed
qed

theorem guestScanExact_spec_witness:
  "guestScanExact u32_type (demo_guest\<lparr>gv_size := 9\<rparr>) (\<lambda>_. Some 7) 0x07070707 4 = [0, 4]"
proof -
  have bytes: "sc_bytes u32_type (byteswap u32_type 0x07070707) = [7, 7, 7, 7]" and sz: "sc_size u32_type = 4"
    by (simp_all add: u32_type_def byteswap_def le_bytes_numeral drop_bit_eq_div)
  have seven: "range_addrs h 4 = [h, h + 1, h + 2, h + 3]" for h by (simp add: range_addrs_def upt_rec)
  have "scan_hit (\<lambda>_. Some 7) (demo_guest\<lparr>gv_size := 9\<rparr>) 4 [7, 7, 7, 7] 4 a \<longleftrightarrow> a mod 4 = 0 \<and> a + 4 \<le> 9" for a
    by (simp add: scan_hit_def readable_def slot_val_def demo_guest_def seven)
  moreover have "[0..<9] = [0, 1, 2, 3, 4, 5, 6, 7, 8 :: nat]" by (simp add: upt_rec)
  ultimately show ?thesis
    using guestScanExact_spec[OF u32s.scalar_type_axioms _ flat_process_laws(1)[of "[]" "[]"], of "demo_guest\<lparr>gv_size := 9\<rparr>" 4
        "\<lambda>_. Some 7" "0x07070707"]
    by (simp add: demo_guest_def bytes sz)
qed

section \<open>Reading the whole region and narrowing\<close>

lemma read_region_prefix:
  assumes law: "read_law P mem"
  shows "read_region P s gv off buf =
    buf @ readable_prefix (mem s) (range_addrs (toHost gv (of_nat off)) (unat (gv_size gv) - off))"
proof (induction "unat (gv_size gv) - off" arbitrary: off buf rule: less_induct)
  case less
  let ?n = "unat (gv_size gv) - off" and ?h = "toHost gv (of_nat off)"
  show ?case
  proof (cases "off < unat (gv_size gv)")
    case False
    then show ?thesis by (subst read_region.simps) (simp add: readable_prefix_def range_addrs_def)
  next
    case True
    define w where "w = min 1048576 ?n"
    define got where "got = readable_prefix (mem s) (range_addrs ?h w)"
    note pre = prefix_slot[OF got_def]
    have w: "0 < w" "w \<le> ?n" using True by (simp_all add: w_def)
    have rd: "pr_read P s ?h w = (if got = [] then None else Some got)"
      using law w(1) by (simp add: read_law_def got_def Let_def)
    define g where "g = length got"
    have g: "g \<le> ?n" using pre w by (simp add: g_def)
    have "range_addrs ?h ?n = range_addrs ?h g @ range_addrs (?h + of_nat g) (?n - g)"
      using range_addrs_append[of ?h g "?n - g"] unfolding le_add_diff_inverse[OF g] .
    moreover have "\<forall>x \<in> set (range_addrs ?h g). readable (mem s) x"
      using pre by (auto simp: range_addrs_def g_def)
    moreover have "map (\<lambda>a. the (mem s a)) (range_addrs ?h g) = got"
      using pre[THEN conjunct2, THEN conjunct2, rule_format, of 0 g] by (simp add: g_def slot_val_def)
    ultimately have whole: "readable_prefix (mem s) (range_addrs ?h ?n) =
        got @ readable_prefix (mem s) (range_addrs (?h + of_nat g) (?n - g))"
      by (simp add: readable_prefix_def takeWhile_append2)
    have "toHost gv (of_nat (off + g)) = ?h + of_nat g" by (simp add: toHost_def add.assoc)
    show ?thesis
    proof (cases "got = []")
      case True
      have "\<not> 1 \<le> length got" using True by simp
      moreover have "1 \<le> length got \<longleftrightarrow> 1 \<le> w \<and> (\<forall>j < 1. readable (mem s) (?h + of_nat j))"
        using pre by blast
      ultimately have "\<not> readable (mem s) ?h" using w(1) by simp
      then have "readable_prefix (mem s) (range_addrs ?h ?n) = []"
        using \<open>off < unat (gv_size gv)\<close> by (simp add: readable_prefix_def range_addrs_def upt_conv_Cons)
      with rd True \<open>off < unat (gv_size gv)\<close> show ?thesis
        by (subst read_region.simps) (simp add: w_def[symmetric])
    next
      case False
      then have "unat (gv_size gv) - (off + g) < ?n" using \<open>off < unat (gv_size gv)\<close> by (simp add: g_def diff_less_mono2)
      from less.hyps[OF this, of "buf @ got"] show ?thesis
        using False rd \<open>off < unat (gv_size gv)\<close> whole \<open>toHost gv (of_nat (off + g)) = ?h + of_nat g\<close>
        by (subst read_region.simps) (simp add: w_def[symmetric] g_def[symmetric])
    qed
  qed
qed

lemma guestReadRegion_prefix:
  assumes "gv_proc gv = Some P" "read_law P mem"
  shows "guestReadRegion gv s = readable_prefix (mem s) (range_addrs (gv_base gv) (unat (gv_size gv)))"
  using read_region_prefix[OF assms(2), of s gv 0 "[]"] assms(1)
  by (simp add: guestReadRegion_def toHost_def readable_prefix_def range_addrs_def)

text \<open>
  on an unchanged process the exact next scan keeps every address the first scan reported.
\<close>

theorem guest_next_keeps_hits:
  assumes T: "scalar_type T" and P: "gv_proc gv = Some P" "read_law P mem"
    and al: "alignment \<in> {1, 2, 4, 8}"
  shows "guestNextExact T gv s (map of_nat (guestScanExact T gv s v alignment)) v =
    map of_nat (guestScanExact T gv s v alignment)"
proof -
  note [simp] = scalar_type.length_bytes[OF T] scalar_type.val_bytes[OF T]
  define x where "x = (if gv_big gv then byteswap T v else v)"
  have x: "(if gv_big gv then byteswap T x else x) = v" by (simp add: x_def byteswap_involutive[OF T])
  have "gv_read T gv s (of_nat a) = Some v" if "scan_hit (mem s) gv (sc_size T) (sc_bytes T x) alignment a" for a
  proof -
    let ?n = "sc_size T"
    have a: "a + ?n \<le> unat (gv_size gv)" "slot_val (mem s) (gv_base gv + of_nat a) ?n = sc_bytes T x"
      using that by (simp_all add: scan_hit_def)
    have read: "readable (mem s) (gv_base gv + of_nat b)" if "a \<le> b" "b < a + ?n" for b
      using \<open>scan_hit _ _ _ _ _ a\<close> that le_trans[OF div_times_less_eq_dividend] by (auto simp: scan_hit_def)
    have lt: "a + ?n < 2 ^ 64" using a(1) unat_u64_less[of "gv_size gv"] by simp
    then have "unat (of_nat a :: u64) = a" "unat (of_nat a + of_nat ?n :: u64) = a + ?n"
      by (simp_all add: unat_of_nat unat_word_ariths take_bit_eq_mod)
    then have "contains gv (of_nat a) ?n"
      using a(1) P(1) scalar_type.size_pos[OF T] by (simp add: contains_def word_le_nat_alt)
    moreover have "slot_ok (mem s) (toHost gv (of_nat a)) ?n"
      using read[of "a + _"] by (simp add: slot_ok_iff toHost_def add.assoc)
    then have "read_exact P s (toHost gv (of_nat a)) ?n = Some (sc_bytes T x)"
      using a(2) by (simp add: read_exact_iff[OF P(2)] toHost_def)
    ultimately have "readBytes gv s (of_nat a) ?n = sc_bytes T x"
      using P(1) by (auto simp: readBytes_def read_exact_def split: option.splits if_splits)
    then show ?thesis using x by (simp add: gv_read_def Let_def)
  qed
  then show ?thesis
    unfolding guestNextExact_def guestScanExact_spec[OF T P al] x_def[symmetric]
    by (auto simp: filter_id_conv)
qed

theorem guest_next_keeps_hits_witness:
  "guestNextExact u8_type demo_guest (\<lambda>_. Some 3) (map of_nat (guestScanExact u8_type demo_guest (\<lambda>_. Some 3) 3 1)) 3 =
   map of_nat (guestScanExact u8_type demo_guest (\<lambda>_. Some 3) 3 1)"
  by (rule guest_next_keeps_hits[OF u8s.scalar_type_axioms _ flat_process_laws(1)[of "[]" "[]"]]) (simp_all add: demo_guest_def)

end
