(* ===== verification/Expression.thy ===== *)
theory Expression
  imports Process_Api Text_Format
begin

text \<open>
  The address expressions of the debugger and the cheat table (\<^verbatim>\<open>src/src/core/expression.cpp\<close>):
  numbers, symbols, module names, sums and differences, and pointer dereferences.  The recursion
  depth cap of 64 is the structural argument \<open>fuel\<close>: depth \<open>d\<close> has fuel \<open>65 - d\<close>, and fuel \<open>0\<close>
  is the early return at depth 65.  The symbol resolver is a parameter, \<open>0\<close> meaning no symbol.
\<close>

record 's expr_env =
  xe_proc :: "('s process \<times> 's) option"
  xe_resolver :: "(string \<Rightarrow> u64) option"

definition or_zero :: "u64 option \<Rightarrow> u64" where
  "or_zero r = (case r of Some v \<Rightarrow> v | None \<Rightarrow> 0)"

definition env_modules :: "'s expr_env \<Rightarrow> ModuleInfo list" where
  "env_modules E = (case xe_proc E of None \<Rightarrow> [] | Some (P, s) \<Rightarrow> pr_modules P s)"

definition resolveToken :: "'s expr_env \<Rightarrow> string \<Rightarrow> u64" where
  "resolveToken E token =
     (if token = [] then 0
      else if 2 < length token \<and> token ! 0 = CHR ''0'' \<and> (token ! 1 = CHR ''x'' \<or> token ! 1 = CHR ''X'') then
        or_zero (stoull 16 (drop 2 token))
      else if token ! 0 = CHR ''#'' then
        (if length token < 2 then 0 else or_zero (stoull 10 (drop 1 token)))
      else
        let allHex = list_all is_xdigit token; allDigit = list_all is_digit token in
        if allHex \<and> (2 \<le> length token \<or> allDigit) then or_zero (stoull 16 token)
        else
          let addr = (case xe_resolver E of None \<Rightarrow> 0 | Some lookup \<Rightarrow> lookup token) in
          if addr \<noteq> 0 then addr
          else case find (\<lambda>m. m_name m = token) (env_modules E) of
              Some m \<Rightarrow> m_base m
            | None \<Rightarrow> if allHex then or_zero (stoull 16 token) else 0)"

text \<open>The index of the bracket that closes the one at depth \<open>d\<close>, relative to the scanned text.\<close>

fun close_bracket :: "nat \<Rightarrow> string \<Rightarrow> nat option" where
  "close_bracket d [] = None"
| "close_bracket d (c # cs) =
     (if c = CHR 0x5B then map_option Suc (close_bracket (Suc d) cs)
      else if c = CHR 0x5D then
        (if d = 1 then Some 0 else map_option Suc (close_bracket (d - 1) cs))
      else map_option Suc (close_bracket d cs))"

definition is_op :: "char \<Rightarrow> bool" where
  "is_op c = (c = CHR ''+'' \<or> c = CHR ''-'')"

text \<open>The length of the longest module name that is a whole term at \<open>pos\<close>, 0 if none.\<close>

definition mod_step :: "string \<Rightarrow> nat \<Rightarrow> nat \<Rightarrow> ModuleInfo \<Rightarrow> nat" where
  "mod_step s pos modLen m =
     (let name = m_name m; after = pos + length name in
      if name = [] \<or> length name \<le> modLen then modLen
      else if take (length name) (drop pos s) \<noteq> name then modLen
      else if length s \<le> after \<or> is_op (s ! after) then length name
      else modLen)"

definition mod_len :: "ModuleInfo list \<Rightarrow> string \<Rightarrow> nat \<Rightarrow> nat" where
  "mod_len mods s pos = foldl (mod_step s pos) 0 mods"

function scan_op :: "string \<Rightarrow> nat \<Rightarrow> nat \<Rightarrow> nat option" where
  "scan_op s bd i =
     (if i < length s then
        (if s ! i = CHR 0x5B then scan_op s (Suc bd) (Suc i)
         else if s ! i = CHR 0x5D then scan_op s (bd - 1) (Suc i)
         else if bd = 0 \<and> is_op (s ! i) \<and>
             \<not> (1 < i \<and> (s ! (i - 1) = CHR ''x'' \<or> s ! (i - 1) = CHR ''X''))
           then Some i
         else scan_op s bd (Suc i))
      else None)"
  by pat_completeness auto
termination by (relation "measure (\<lambda>(s, bd, i). length s - i)") auto

declare scan_op.simps [simp del]

definition next_op :: "ModuleInfo list \<Rightarrow> string \<Rightarrow> nat \<Rightarrow> nat option" where
  "next_op mods s pos =
     (let modLen = mod_len mods s pos in
      if 0 < modLen then (if pos + modLen < length s then Some (pos + modLen) else None)
      else scan_op s (if pos < length s \<and> s ! pos = CHR 0x5B then 1 else 0) (Suc pos))"

lemma scan_op_ge: "scan_op s bd i = Some j \<Longrightarrow> i \<le> j \<and> j < length s"
proof (induction s bd i rule: scan_op.induct)
  case (1 s bd i)
  from "1.prems" show ?case
    by (subst (asm) scan_op.simps) (auto split: if_splits dest: "1.IH")
qed

lemma next_op_gt: "next_op mods s pos = Some j \<Longrightarrow> pos < j \<and> j < length s"
  by (auto simp: next_op_def Let_def split: if_splits dest: scan_op_ge)

text \<open>The terms of the arithmetic loop from \<open>pos\<close> on, each with its \<^verbatim>\<open>subtract\<close> flag.\<close>

function split_terms :: "ModuleInfo list \<Rightarrow> string \<Rightarrow> nat \<Rightarrow> bool \<Rightarrow> (bool \<times> string) list" where
  "split_terms mods s pos subtract =
     (if pos < length s then
        (case next_op mods s pos of
           None \<Rightarrow> [(subtract, trim_blank (drop pos s))]
         | Some j \<Rightarrow> (subtract, trim_blank (take (j - pos) (drop pos s))) #
             split_terms mods s (Suc j) (s ! j = CHR ''-''))
      else [])"
  by pat_completeness auto
termination
  by (relation "measure (\<lambda>(mods, s, pos, sub). length s - pos)") (auto dest: next_op_gt)

declare split_terms.simps [simp del]

definition add_term :: "(string \<Rightarrow> u64 option) \<Rightarrow> 's expr_env \<Rightarrow> u64 \<Rightarrow> bool \<times> string \<Rightarrow> u64" where
  "add_term sub E result t =
     (case t of (subtract, token) \<Rightarrow>
        if token = [] then result
        else
          let val = (if CHR 0x5B \<in> set token then or_zero (sub token) else resolveToken E token) in
          if subtract then result - val else result + val)"

definition deref_rest :: "(string \<Rightarrow> u64 option) \<Rightarrow> u64 \<Rightarrow> string \<Rightarrow> u64 option" where
  "deref_rest sub ptr rest =
     (if rest = [] then Some ptr
      else if rest ! 0 = CHR ''+'' then map_option (\<lambda>v. ptr + v) (sub (drop 1 rest))
      else if rest ! 0 = CHR ''-'' then map_option (\<lambda>v. ptr - v) (sub (drop 1 rest))
      else Some ptr)"

primrec parseImpl :: "nat \<Rightarrow> 's expr_env \<Rightarrow> string \<Rightarrow> u64 option" where
  "parseImpl 0 E expr = None"
| "parseImpl (Suc fuel) E expr =
     (let s = trim_blank expr in
      if s = [] then None
      else if s ! 0 = CHR 0x5B then
        (case close_bracket 0 s of
           None \<Rightarrow> None
         | Some closeB \<Rightarrow>
             (case (parseImpl fuel E (take (closeB - 1) (drop 1 s)), xe_proc E) of
                (Some innerVal, Some (P, st)) \<Rightarrow>
                  (case read_u64 P st innerVal of
                     None \<Rightarrow> None
                   | Some ptr \<Rightarrow> deref_rest (parseImpl fuel E) ptr (trim_blank (drop (closeB + 1) s)))
              | _ \<Rightarrow> None))
      else Some (foldl (add_term (parseImpl fuel E) E) 0 (split_terms (env_modules E) s 0 False)))"

definition parse :: "'s expr_env \<Rightarrow> string \<Rightarrow> u64 option" where
  "parse E expr = parseImpl 65 E expr"

section \<open>Splitting into terms\<close>

definition qualifies :: "string \<Rightarrow> nat \<Rightarrow> ModuleInfo \<Rightarrow> bool" where
  "qualifies s pos m \<longleftrightarrow>
     m_name m \<noteq> [] \<and> take (length (m_name m)) (drop pos s) = m_name m \<and>
     (length s \<le> pos + length (m_name m) \<or> is_op (s ! (pos + length (m_name m))))"

lemma mod_len_spec:
  "(\<forall>m \<in> set mods. qualifies s pos m \<longrightarrow> length (m_name m) \<le> mod_len mods s pos) \<and>
   (mod_len mods s pos = 0 \<or> (\<exists>m \<in> set mods. qualifies s pos m \<and> length (m_name m) = mod_len mods s pos))"
proof (induction mods rule: rev_induct)
  case Nil
  show ?case by (simp add: mod_len_def)
next
  case (snoc m mods)
  have "mod_len (mods @ [m]) s pos = mod_step s pos (mod_len mods s pos) m"
    by (simp add: mod_len_def)
  also have "\<dots> = (if qualifies s pos m then max (length (m_name m)) (mod_len mods s pos) else mod_len mods s pos)"
    by (auto simp: mod_step_def qualifies_def Let_def)
  finally show ?case using snoc.IH by (auto simp: max_def)
qed

lemma scan_op_none: "(\<And>j. i \<le> j \<Longrightarrow> j < length s \<Longrightarrow> \<not> is_op (s ! j)) \<Longrightarrow> scan_op s bd i = None"
proof (induction s bd i rule: scan_op.induct)
  case (1 s bd i)
  then show ?case by (subst scan_op.simps) simp
qed

lemma next_op_none:
  assumes "\<And>j. pos < j \<Longrightarrow> j < length s \<Longrightarrow> \<not> is_op (s ! j)"
  shows "next_op mods s pos = None"
proof (cases "mod_len mods s pos = 0")
  case True
  with assms show ?thesis by (auto simp: next_op_def Let_def intro!: scan_op_none)
next
  case False
  then obtain m where "qualifies s pos m" "length (m_name m) = mod_len mods s pos"
    using mod_len_spec[of mods s pos] by auto
  then have "length s \<le> pos + mod_len mods s pos \<or> is_op (s ! (pos + mod_len mods s pos))"
    by (simp add: qualifies_def)
  then have "length s \<le> pos + mod_len mods s pos"
    using assms[of "pos + mod_len mods s pos"] False by (meson less_add_same_cancel1 not_gr_zero not_le)
  with False show ?thesis by (simp add: next_op_def Let_def)
qed

lemma split_terms_single:
  assumes "pos < length s" "\<And>j. pos < j \<Longrightarrow> j < length s \<Longrightarrow> \<not> is_op (s ! j)"
  shows "split_terms mods s pos sub = [(sub, trim_blank (drop pos s))]"
  using assms next_op_none[OF assms(2)] by (subst split_terms.simps) simp

section \<open>Numbers and pointer chains\<close>

definition plain_char :: "char \<Rightarrow> bool" where
  "plain_char c = (\<not> is_op c \<and> \<not> is_blank c \<and> c \<noteq> CHR 0x5B \<and> c \<noteq> CHR 0x5D)"

definition hex_text :: "u64 \<Rightarrow> string" where
  "hex_text w = CHR ''0'' # CHR ''x'' # fmt_hex (unat w)"

lemma plain_hex_lower: "d < 16 \<Longrightarrow> plain_char (hex_lower d)"
  by (drule less_16_cases) (auto simp: hex_lower_def plain_char_def is_op_def is_blank_def)

lemma plain_hex_upper: "d < 16 \<Longrightarrow> plain_char (hex_upper d)"
  by (drule less_16_cases) (auto simp: hex_upper_def plain_char_def is_op_def is_blank_def)

lemma plain_hex_text: "list_all plain_char (hex_text w)"
  using fmt_hex_set[of _ "unat w"] plain_hex_lower
  by (auto simp: hex_text_def list_all_iff plain_char_def[of "CHR ''0''"] plain_char_def[of "CHR ''x''"]
      is_op_def is_blank_def)

lemma fmt_hex_not_Nil [simp]: "fmt_hex n \<noteq> []"
  by (simp add: fmt_hex_def)

lemma trim_plain:
  assumes "list_all plain_char s"
  shows "trim_blank s = s"
proof (cases "s = []")
  case False
  then have "plain_char (hd s)" "plain_char (last s)" using assms by (simp_all add: list_all_iff)
  then show ?thesis by (intro trim_blank_id) (simp add: plain_char_def)
qed (simp add: trim_blank_id)

lemma split_plain:
  assumes "list_all plain_char s" "s \<noteq> []"
  shows "split_terms mods (p @ s) (length p) sub = [(sub, s)]"
proof -
  have "\<not> is_op ((p @ s) ! j)" if "length p < j" "j < length (p @ s)" for j
    using that assms(1) by (auto simp: list_all_length plain_char_def nth_append)
  then show ?thesis
    using assms by (subst split_terms_single) (simp_all add: trim_plain)
qed

lemma parse_plain:
  assumes "list_all plain_char s" "s \<noteq> []"
  shows "parseImpl (Suc k) E s = Some (resolveToken E s)"
proof -
  have "CHR 0x5B \<notin> set s" using assms(1) by (auto simp: list_all_iff plain_char_def)
  moreover have "s ! 0 \<noteq> CHR 0x5B" using calculation assms(2) nth_mem[of 0 s] by force
  ultimately show ?thesis
    using split_plain[OF assms, of "env_modules E" "[]" False] assms
    by (simp add: trim_plain Let_def add_term_def)
qed

lemma resolve_hex_text: "resolveToken E (hex_text w) = w"
proof -
  have "0 < length (fmt_hex (unat w))" by simp
  then show ?thesis
    using stoull_hex[OF unat_u64_less, of w]
    by (simp add: resolveToken_def hex_text_def or_zero_def del: length_greater_0_conv)
qed

lemma parse_hex_text: "parseImpl (Suc k) E (hex_text w) = Some w"
  using parse_plain[OF plain_hex_text, of w k E] by (simp add: resolve_hex_text) (simp add: hex_text_def)

text \<open>
  A pointer chain in the notation of the cheat table, offsets innermost last in the list:
  \<open>[[base]+o1]+o2\<close> for the base and the offsets \<open>[o2, o1]\<close>.
\<close>

fun chain_text :: "u64 \<Rightarrow> u64 list \<Rightarrow> string" where
  "chain_text base [] = hex_text base"
| "chain_text base (off # offs) = CHR 0x5B # chain_text base offs @ CHR 0x5D # CHR ''+'' # hex_text off"

fun chain_value :: "'s process \<Rightarrow> 's \<Rightarrow> u64 \<Rightarrow> u64 list \<Rightarrow> u64 option" where
  "chain_value P s base [] = Some base"
| "chain_value P s base (off # offs) =
     (case chain_value P s base offs of
        None \<Rightarrow> None
      | Some a \<Rightarrow> map_option (\<lambda>p. p + off) (read_u64 P s a))"

lemma close_bracket_pass:
  "CHR 0x5B \<notin> set s \<Longrightarrow> CHR 0x5D \<notin> set s \<Longrightarrow>
   close_bracket d (s @ t) = map_option (\<lambda>i. length s + i) (close_bracket d t)"
  by (induction s; cases "close_bracket d t") auto

lemma close_plain:
  "list_all plain_char s \<Longrightarrow> close_bracket d (s @ t) = map_option (\<lambda>i. length s + i) (close_bracket d t)"
  by (rule close_bracket_pass) (auto simp: list_all_iff plain_char_def)

lemma close_chain:
  "0 < d \<Longrightarrow> close_bracket d (chain_text base offs @ t) =
     map_option (\<lambda>i. length (chain_text base offs) + i) (close_bracket d t)"
proof (induction offs arbitrary: d t)
  case Nil
  show ?case by (simp add: close_plain[OF plain_hex_text])
next
  case (Cons off offs)
  have "close_bracket d (CHR ''+'' # hex_text off @ t) =
      map_option (\<lambda>i. Suc (length (hex_text off) + i)) (close_bracket d t)"
    by (simp add: close_plain[OF plain_hex_text] option.map_comp o_def)
  with Cons show ?case by (cases "close_bracket d t") (simp_all add: option.map_comp o_def)
qed

lemma chain_text_ends:
  "chain_text base offs \<noteq> [] \<and> \<not> is_blank (hd (chain_text base offs)) \<and> \<not> is_blank (last (chain_text base offs))"
proof -
  have hex: "hex_text w \<noteq> []" "\<not> is_blank (hd (hex_text w))" "\<not> is_blank (last (hex_text w))" for w
    using plain_hex_text[of w] by (auto simp: hex_text_def list_all_iff plain_char_def dest!: bspec[OF _ last_in_set])
  then show ?thesis by (cases offs) (auto simp: is_blank_def)
qed

text \<open>
  C26: the parser evaluates a pointer chain of up to 64 offsets as the chain of reads it stands for,
  failing exactly when a read on the way fails.
\<close>

theorem parse_pointer_chain:
  assumes "xe_proc E = Some (P, s)" and "length offs \<le> 64"
  shows "parse E (chain_text base offs) = chain_value P s base offs"
proof -
  have "parseImpl fuel E (chain_text base offs) = chain_value P s base offs" if "length offs < fuel" for fuel
    using that
  proof (induction offs arbitrary: fuel)
    case Nil
    then show ?case by (cases fuel) (simp_all add: parse_hex_text del: parseImpl.simps(2))
  next
    case (Cons off offs)
    then obtain k k' where k: "fuel = Suc k" "k = Suc k'" by (cases fuel; cases "fuel - 1") auto
    let ?t = "chain_text base (off # offs)" and ?n = "length (chain_text base offs)"
    have trim: "trim_blank ?t = ?t" using chain_text_ends[of base "off # offs"] by (intro trim_blank_id) blast
    have close: "close_bracket 0 ?t = Some (Suc ?n)" by (simp add: close_chain)
    have inner: "take (Suc ?n - 1) (drop 1 ?t) = chain_text base offs" by simp
    have rest: "trim_blank (drop (Suc ?n + 1) ?t) = CHR ''+'' # hex_text off"
      using chain_text_ends[of off "[]"] by (subst trim_blank_id) (auto simp: is_blank_def)
    have ih: "parseImpl k E (chain_text base offs) = chain_value P s base offs"
      by (rule Cons.IH) (use Cons.prems k in simp)
    have offv: "parseImpl k E (hex_text off) = Some off" unfolding k(2) by (rule parse_hex_text)
    show ?case
      unfolding k(1) parseImpl.simps trim close Let_def inner rest
      by (simp add: trim inner[simplified] rest[simplified] ih offv assms(1) deref_rest_def add.commute
          option.map_comp o_def split: option.splits)
  qed
  then show ?thesis using assms(2) by (simp add: parse_def)
qed

theorem parse_pointer_chain_witness:
  "parse \<lparr>xe_proc = Some (flat_process [] [], \<lambda>_. Some 0), xe_resolver = None\<rparr> (chain_text 0x1000 [0x20, 0x10]) = Some 0x20"
proof -
  have "(le_val (replicate n 0) :: u64) = 0" for n
    by (induction n) simp_all
  then have read: "read_u64 (flat_process [] []) (\<lambda>_. Some 0) a = Some 0" for a
    by (simp add: read_u64_def read_exact_def flat_read_const del: replicate.simps)
  show ?thesis
    by (subst parse_pointer_chain[where P = "flat_process [] []" and s = "\<lambda>_. Some 0"]) (simp_all add: read)
qed

section \<open>Module-relative addresses\<close>

lemma stoull_hex_upper:
  assumes "n < 2 ^ 64"
  shows "stoull 16 (fmt_hex_upper n) = Some (of_nat n)"
proof -
  have dig: "\<exists>d < 16. c = hex_upper d" if "c \<in> set (fmt_hex_upper n)" for c
    using that nat_digits_less[of 16] by (auto simp: fmt_hex_upper_def)
  obtain c cs where s: "fmt_hex_upper n = c # cs" by (cases "fmt_hex_upper n") (auto simp: fmt_hex_upper_def)
  then obtain d where d: "c = hex_upper d" "d < 16" using dig[of c] by auto
  have plain: "\<not> is_space (hex_upper e)" "hex_upper e \<noteq> CHR ''-''" "hex_upper e \<noteq> CHR ''+''"
    "hex_upper e \<noteq> CHR ''x''" "hex_upper e \<noteq> CHR ''X''" if "e < 16" for e
    using less_16_cases[OF that] by (auto simp: hex_upper_def is_space_def char_code_def)
  have no0x: "strip_0x (c # cs) = None"
  proof (cases cs)
    case (Cons x xs)
    then obtain e where "x = hex_upper e" "e < 16" using dig[of x] s by auto
    with Cons plain show ?thesis by simp
  qed simp
  have "scan_digits 16 0 (c # cs) = (n, [])"
    unfolding s[symmetric] fmt_hex_upper_def using scan_digits_upper[of 16 0 n "[]"] by (simp add: scan_digits_stop)
  then have "strtoull 16 (c # cs) = Some (of_nat n, [], False)"
    using assms d no0x plain[of d] by (simp add: strtoull_def number_base_def starts_digit_def)
  then show ?thesis by (simp add: stoull_def s)
qed

definition offset_text :: "nat \<Rightarrow> string" where
  "offset_text n = CHR ''0'' # CHR ''x'' # fmt_hex_upper n"

lemma plain_offset_text: "list_all plain_char (offset_text n)"
  using nat_digits_less[of 16] plain_hex_upper
  by (auto simp: offset_text_def fmt_hex_upper_def list_all_iff plain_char_def[of "CHR ''0''"]
      plain_char_def[of "CHR ''x''"] is_op_def is_blank_def)

lemma resolve_offset_text: "n < 2 ^ 64 \<Longrightarrow> resolveToken E (offset_text n) = of_nat n"
  using stoull_hex_upper[of n]
  by (simp add: resolveToken_def offset_text_def or_zero_def) (simp add: fmt_hex_upper_def)

text \<open>
  A module name the parser does not take for anything else than the module: no blank at its ends, not
  a bracketed or slashed name, not readable as a number, not a symbol, and the first module so named.
  It may hold any \<open>+\<close> and \<open>-\<close>, as \<^verbatim>\<open>libstdc++.so.6\<close> does.
\<close>

definition module_token :: "'s expr_env \<Rightarrow> ModuleInfo \<Rightarrow> bool" where
  "module_token E m \<longleftrightarrow>
     (let name = m_name m in
      name \<noteq> [] \<and> \<not> is_blank (hd name) \<and> \<not> is_blank (last name) \<and> CHR 0x5B \<notin> set name \<and> CHR ''/'' \<notin> set name \<and>
      \<not> list_all is_xdigit name \<and> hd name \<noteq> CHR ''#'' \<and> take 2 name \<notin> {''0x'', ''0X''} \<and>
      (case xe_resolver E of None \<Rightarrow> True | Some lookup \<Rightarrow> lookup name = 0) \<and>
      find (\<lambda>x. m_name x = name) (env_modules E) = Some m)"

lemma resolve_module:
  assumes "module_token E m"
  shows "resolveToken E (m_name m) = m_base m"
proof -
  have "\<not> (2 < length (m_name m) \<and> m_name m ! 0 = CHR ''0'' \<and> (m_name m ! 1 = CHR ''x'' \<or> m_name m ! 1 = CHR ''X''))"
    using assms by (cases "m_name m" rule: strip_0x.cases) (auto simp: module_token_def Let_def)
  moreover have "m_name m ! 0 \<noteq> CHR ''#''"
    using assms by (auto simp: module_token_def Let_def hd_conv_nth)
  ultimately show ?thesis
    using assms by (auto simp: resolveToken_def module_token_def Let_def split: option.splits)
qed

text \<open>
  The longest module name that is a whole term: behind a plain offset a longer name can only be the
  whole text.
\<close>

lemma mod_len_name:
  assumes "m \<in> set mods" "m_name m \<noteq> []" "\<forall>x \<in> set mods. m_name x \<noteq> m_name m @ CHR ''+'' # t" "list_all plain_char t"
  shows "mod_len mods (m_name m @ CHR ''+'' # t) 0 = length (m_name m)"
proof -
  let ?s = "m_name m @ CHR ''+'' # t"
  have "qualifies ?s 0 m" using assms(2) by (simp add: qualifies_def is_op_def)
  then have ge: "length (m_name m) \<le> mod_len mods ?s 0" using mod_len_spec[of mods ?s 0] assms(1) by blast
  then obtain x where x: "x \<in> set mods" "qualifies ?s 0 x" "length (m_name x) = mod_len mods ?s 0"
    using mod_len_spec[of mods ?s 0] assms(2) by fastforce
  have "\<not> length (m_name m) < length (m_name x)"
  proof
    assume lt: "length (m_name m) < length (m_name x)"
    let ?n = "length (m_name x)"
    have "\<not> is_op (?s ! ?n)" if "?n < length ?s"
    proof -
      obtain j where j: "?n = length (m_name m) + Suc j" using lt less_iff_Suc_add by auto
      then have "?s ! ?n = t ! j" "j < length t" using that by (simp_all add: nth_append)
      then show ?thesis using assms(4) by (simp add: list_all_length plain_char_def)
    qed
    moreover have "length ?s \<le> ?n \<or> is_op (?s ! ?n)" using x(2) by (simp add: qualifies_def)
    ultimately have "length ?s \<le> ?n" by linarith
    then have "m_name x = ?s" using x(2) by (simp add: qualifies_def)
    with assms(3) x(1) show False by blast
  qed
  with ge x(3) show ?thesis by simp
qed

text \<open>A module name plus a plain term.\<close>

lemma parse_module_plus:
  assumes tok: "module_token E m" and plus: "\<forall>x \<in> set (env_modules E). m_name x \<noteq> m_name m @ CHR ''+'' # t"
    and t: "list_all plain_char t" "t \<noteq> []"
  shows "parseImpl (Suc k) E (m_name m @ CHR ''+'' # t) = Some (m_base m + resolveToken E t)"
proof -
  define s where "s = m_name m @ CHR ''+'' # t"
  have name: "m_name m \<noteq> []" "CHR 0x5B \<notin> set (m_name m)" "m \<in> set (env_modules E)"
    using tok by (auto simp: module_token_def Let_def find_Some_iff in_set_conv_nth)
  have blank: "\<not> is_blank (hd (m_name m))" "\<not> is_blank (last (m_name m))"
    using tok by (simp_all add: module_token_def Let_def)
  have "\<not> is_blank (last s)"
    using t by (simp add: s_def list_all_iff plain_char_def)
  then have trim: "trim_blank s = s" using blank name by (intro trim_blank_id) (simp add: s_def)
  have op: "next_op (env_modules E) s 0 = Some (length (m_name m))"
    using mod_len_name[OF name(3,1) plus t(1)] name(1) by (simp add: next_op_def s_def)
  have s2: "s = (m_name m @ ''+'') @ t" by (simp add: s_def)
  have rest: "split_terms (env_modules E) s (Suc (length (m_name m))) False = [(False, t)]"
    using split_plain[OF t, of "env_modules E" "m_name m @ ''+''" False]
    unfolding s2 by simp
  have terms: "split_terms (env_modules E) s 0 False = [(False, m_name m), (False, t)]"
    using op rest name blank
    by (subst split_terms.simps) (simp add: s_def trim_blank_id)
  have bracket: "CHR 0x5B \<notin> set t" using t(1) by (auto simp: list_all_iff plain_char_def)
  have "hd (m_name m) \<noteq> CHR 0x5B" using name(1,2) hd_in_set by metis
  then have start: "s \<noteq> []" "s ! 0 \<noteq> CHR 0x5B"
    using name(1) by (simp_all add: s_def nth_append hd_conv_nth)
  show ?thesis
    unfolding s_def[symmetric] parseImpl.simps trim Let_def terms
    by (simp add: add_term_def resolve_module[OF tok] t(2) name bracket start)
qed

text \<open>
  C19: the module-relative text shown for an address is an expression the parser maps back to that
  address, when the name of the module is read as that module (\<open>module_token\<close>) and no module of the
  process is itself named like the text shown.
\<close>

theorem parse_moduleOffsetString:
  assumes best: "best_module (env_modules E) addr = Some m" and tok: "module_token E m"
    and other: "\<forall>x \<in> set (env_modules E). m_name x \<noteq> moduleOffsetString (env_modules E) addr"
  shows "parse E (moduleOffsetString (env_modules E) addr) = Some addr"
proof -
  define off where "off = unat (addr - m_base m)"
  have name: "m_name m \<noteq> []" using tok by (simp add: module_token_def Let_def)
  have "takeWhile (\<lambda>x. x \<noteq> CHR ''/'') (rev (m_name m)) = rev (m_name m)"
    using tok by (subst takeWhile_eq_all_conv) (auto simp: module_token_def Let_def)
  then have "after_last CHR ''/'' (m_name m) = m_name m" by (simp only: after_last_def rev_rev_ident)
  then have text_eq: "moduleOffsetString (env_modules E) addr = m_name m @ CHR ''+'' # offset_text off"
    using best name by (simp add: moduleOffsetString_def off_def offset_text_def)
  have "off < 2 ^ 64" unfolding off_def by (rule unat_u64_less)
  then have offset: "resolveToken E (offset_text off) = of_nat off" by (rule resolve_offset_text)
  have "parseImpl (Suc 64) E (m_name m @ CHR ''+'' # offset_text off) = Some (m_base m + of_nat off)"
    using parse_module_plus[OF tok other[unfolded text_eq] plain_offset_text, of 64]
    by (simp add: offset del: parseImpl.simps) (simp add: offset_text_def)
  then show ?thesis by (simp add: parse_def text_eq off_def del: parseImpl.simps)
qed

definition plus_env :: "memory expr_env" where
  "plus_env =
     \<lparr>xe_proc = Some (flat_process [] [demo_module 0x400000 0x1000 ''libstdc++.so.6''], \<lambda>_. None),
      xe_resolver = None\<rparr>"

theorem parse_moduleOffsetString_witness:
  "parse plus_env (moduleOffsetString [demo_module 0x400000 0x1000 ''libstdc++.so.6''] 0x400010) = Some 0x400010"
proof -
  let ?m = "demo_module 0x400000 0x1000 ''libstdc++.so.6''"
  have mods: "env_modules plus_env = [?m]" by (simp add: env_modules_def plus_env_def)
  have "best_module [?m] 0x400010 = Some ?m"
    by (simp add: best_module_def best_step_def module_holds_def demo_module_def)
  moreover have "module_token plus_env ?m"
    by (simp add: module_token_def env_modules_def demo_module_def is_blank_def is_xdigit_def digit_val_def char_code_def
        plus_env_def Let_def)
  moreover have "m_name ?m \<noteq> moduleOffsetString [?m] 0x400010" by code_simp
  ultimately show ?thesis using parse_moduleOffsetString[of plus_env "0x400010" ?m] unfolding mods by simp
qed

end
