(* ===== verification/Bin_Format.thy ===== *)
theory Bin_Format
  imports Cheat_Prelude
begin

text \<open>
  The binary files the scanner writes: little-endian words and counted arrays of records.  The locale
  \<open>record_codec\<close> is the contract of a record type that can be written and read back; a counted array
  of such records can then be read back too, whatever follows it in the file.
\<close>

definition take_bytes :: "nat \<Rightarrow> bytes \<Rightarrow> (bytes \<times> bytes) option" where
  "take_bytes n bs = (if n \<le> length bs then Some (take n bs, drop n bs) else None)"

definition get_u32 :: "bytes \<Rightarrow> (u32 \<times> bytes) option" where
  "get_u32 bs = map_option (\<lambda>(b, rest). (le_val b, rest)) (take_bytes 4 bs)"

definition get_u64 :: "bytes \<Rightarrow> (u64 \<times> bytes) option" where
  "get_u64 bs = map_option (\<lambda>(b, rest). (le_val b, rest)) (take_bytes 8 bs)"

definition put_u32 :: "u32 \<Rightarrow> bytes" where
  "put_u32 w = le_bytes 4 w"

definition put_u64 :: "u64 \<Rightarrow> bytes" where
  "put_u64 w = le_bytes 8 w"

lemma take_bytes_append [bytes_simps]: "n = length b \<Longrightarrow> take_bytes n (b @ rest) = Some (b, rest)"
  by (simp add: take_bytes_def)

lemma get_put_u32 [bytes_simps]: "get_u32 (put_u32 w @ rest) = Some (w, rest)"
  by (simp add: get_u32_def put_u32_def take_bytes_append le_val_le_bytes_full)

lemma get_put_u64 [bytes_simps]: "get_u64 (put_u64 w @ rest) = Some (w, rest)"
  by (simp add: get_u64_def put_u64_def take_bytes_append le_val_le_bytes_full)

lemma length_put_word [simp]: "length (put_u32 w) = 4" "length (put_u64 v) = 8"
  by (simp_all add: put_u32_def put_u64_def)

text \<open>Character strings as the bytes of a file.\<close>

definition name_bytes :: "string \<Rightarrow> bytes" where
  "name_bytes s = map (\<lambda>c. of_nat (of_char c)) s"

definition bytes_name :: "bytes \<Rightarrow> string" where
  "bytes_name bs = map (\<lambda>b. char_of (unat b)) bs"

lemma length_name_bytes [simp]: "length (name_bytes s) = length s"
  by (simp add: name_bytes_def)

lemma bytes_name_bytes [simp]: "bytes_name (name_bytes s) = s"
proof -
  have "char_of (unat (of_nat (of_char c) :: u8)) = c" for c
  proof -
    have "(of_char c :: nat) mod 256 = of_char c" by (rule of_char_mod_256)
    then have "unat (of_nat (of_char c) :: u8) = of_char c" by (simp add: unat_of_nat take_bit_eq_mod)
    then show ?thesis by (simp only: char_of_char)
  qed
  then show ?thesis by (simp add: bytes_name_def name_bytes_def comp_def)
qed

text \<open>
  Reading a counted array: the records read so far and the outcome, \<open>None\<close> with the remaining bytes
  on success, or the error of the record that could not be read.
\<close>

fun get_array :: "(bytes \<Rightarrow> 'e + ('a \<times> bytes)) \<Rightarrow> nat \<Rightarrow> bytes \<Rightarrow> 'a list \<times> ('e + bytes)" where
  "get_array dec 0 bs = ([], Inr bs)"
| "get_array dec (Suc n) bs =
     (case dec bs of
        Inl e \<Rightarrow> ([], Inl e)
      | Inr (x, rest) \<Rightarrow> (case get_array dec n rest of (xs, r) \<Rightarrow> (x # xs, r)))"

definition put_array :: "('a \<Rightarrow> bytes) \<Rightarrow> 'a list \<Rightarrow> bytes" where
  "put_array enc xs = concat (map enc xs)"

locale record_codec =
  fixes enc :: "'a \<Rightarrow> bytes" and dec :: "bytes \<Rightarrow> 'e + ('a \<times> bytes)" and ok :: "'a \<Rightarrow> bool"
  assumes dec_enc: "ok x \<Longrightarrow> dec (enc x @ rest) = Inr (x, rest)"
begin

lemma get_put_array:
  "list_all ok xs \<Longrightarrow> get_array dec (length xs) (put_array enc xs @ rest) = (xs, Inr rest)"
  by (induction xs) (simp_all add: put_array_def dec_enc)

lemma enc_inj: "ok x \<Longrightarrow> ok y \<Longrightarrow> enc x = enc y \<Longrightarrow> x = y"
  using dec_enc[of x "[]"] dec_enc[of y "[]"] by simp

lemma array_stops:
  "list_all ok xs \<Longrightarrow> dec (enc y @ rest) = Inl e \<Longrightarrow>
   get_array dec (length xs + Suc n) (put_array enc xs @ enc y @ rest) = (xs, Inl e)"
  by (induction xs) (simp_all add: put_array_def dec_enc)

end

interpretation u64_record: record_codec put_u64
    "\<lambda>bs. case get_u64 bs of None \<Rightarrow> Inl () | Some r \<Rightarrow> Inr r" "\<lambda>_. True"
  by unfold_locales (simp add: get_put_u64)

end
