(* ===== verification/Snapshot.thy ===== *)
theory Snapshot
  imports Process_Api Bin_Format
begin

text \<open>
  Memory snapshots (\<^verbatim>\<open>src/src/scanner/snapshot.cpp\<close>): capture of the writable regions under a byte
  budget, difference of two snapshots, restore, and the file format.  A file is its list of bytes.
\<close>

record SnapshotRegion =
  sn_base :: u64
  sn_size :: u64
  sn_protection :: u32
  sn_bytes :: bytes

type_synonym snapshot = "SnapshotRegion list"

section \<open>Capture, difference, restore\<close>

fun capture_regions :: "'s process \<Rightarrow> 's \<Rightarrow> MemoryRegion list \<Rightarrow> nat \<Rightarrow> snapshot" where
  "capture_regions P s [] budget = []"
| "capture_regions P s (r # rs) budget =
     (if \<not> prot_and (r_protection r) ProtWrite then capture_regions P s rs budget
      else if r_size r = 0 then capture_regions P s rs budget
      else
        let n = min (unat (r_size r)) budget in
        if n = 0 then []
        else case pr_read P s (r_base r) n of
            None \<Rightarrow> capture_regions P s rs budget
          | Some got \<Rightarrow>
              \<lparr>sn_base = r_base r, sn_size = r_size r, sn_protection = r_protection r, sn_bytes = got\<rparr> #
              (let budget = budget - length got in
               if budget = 0 then [] else capture_regions P s rs budget))"

definition capture :: "'s process \<Rightarrow> 's \<Rightarrow> u64 \<Rightarrow> snapshot" where
  "capture P s maxBytes = capture_regions P s (pr_regions P s) (unat maxBytes)"

definition byteCount :: "snapshot \<Rightarrow> nat" where
  "byteCount snap = sum_list (map (\<lambda>r. length (sn_bytes r)) snap)"

definition diff_region :: "SnapshotRegion \<Rightarrow> SnapshotRegion \<Rightarrow> (u64 \<times> u8 \<times> u8) list" where
  "diff_region a b =
     map (\<lambda>i. (sn_base a + of_nat i, sn_bytes a ! i, sn_bytes b ! i))
       (filter (\<lambda>i. sn_bytes a ! i \<noteq> sn_bytes b ! i)
         [0..<min (length (sn_bytes a)) (length (sn_bytes b))])"

text \<open>\<^verbatim>\<open>emplace\<close> keeps the first region of a base.\<close>

definition snapshot_diff :: "snapshot \<Rightarrow> snapshot \<Rightarrow> (u64 \<times> u8 \<times> u8) list" where
  "snapshot_diff snap later =
     concat (map (\<lambda>a. case find (\<lambda>b. sn_base b = sn_base a) later of
                        None \<Rightarrow> []
                      | Some b \<Rightarrow> if sn_size b \<noteq> sn_size a then [] else diff_region a b) snap)"

fun restore :: "'s process \<Rightarrow> 's \<Rightarrow> snapshot \<Rightarrow> 's \<times> nat" where
  "restore P s [] = (s, 0)"
| "restore P s (r # rs) =
     (if sn_bytes r = [] then restore P s rs
      else case pr_write P s (sn_base r) (sn_bytes r) of
          (s', w) \<Rightarrow>
            (case restore P s' rs of (s'', tot) \<Rightarrow>
               (s'', (case w of None \<Rightarrow> 0 | Some n \<Rightarrow> n) + tot)))"

section \<open>The file\<close>

definition kSnapshotMagic :: bytes where
  "kSnapshotMagic = [0x43, 0x45, 0x53, 0x4E, 0x41, 0x50, 0x30, 0x31]"

definition put_region :: "SnapshotRegion \<Rightarrow> bytes" where
  "put_region r =
     put_u64 (sn_base r) @ put_u64 (sn_size r) @ put_u32 (sn_protection r) @
     put_u32 (of_nat (length (sn_bytes r))) @
     take (unat (of_nat (length (sn_bytes r)) :: u32)) (sn_bytes r)"

definition snapshot_save :: "snapshot \<Rightarrow> bytes" where
  "snapshot_save snap =
     kSnapshotMagic @ put_u32 (of_nat (length snap)) @ put_array put_region snap"

definition get_region :: "bytes \<Rightarrow> string + (SnapshotRegion \<times> bytes)" where
  "get_region bs =
     (case get_u64 bs of None \<Rightarrow> Inl ''truncated record'' | Some (base, bs) \<Rightarrow>
      case get_u64 bs of None \<Rightarrow> Inl ''truncated record'' | Some (sz, bs) \<Rightarrow>
      case get_u32 bs of None \<Rightarrow> Inl ''truncated record'' | Some (prot, bs) \<Rightarrow>
      case get_u32 bs of None \<Rightarrow> Inl ''truncated record'' | Some (n, bs) \<Rightarrow>
      if 2 ^ 28 < unat n then Inl ''byte count out of range''
      else case take_bytes (unat n) bs of
          None \<Rightarrow> Inl ''truncated bytes''
        | Some (b, bs) \<Rightarrow>
            Inr (\<lparr>sn_base = base, sn_size = sz, sn_protection = prot, sn_bytes = b\<rparr>, bs))"

text \<open>
  \<^verbatim>\<open>load\<close> of a file's contents into a snapshot object: the regions the object holds afterwards and
  the error, if any.
\<close>

definition snapshot_load :: "snapshot \<Rightarrow> bytes option \<Rightarrow> snapshot \<times> string option" where
  "snapshot_load old file =
     (case file of
        None \<Rightarrow> (old, Some ''open failed'')
      | Some bs \<Rightarrow>
          (case take_bytes 8 bs of
             None \<Rightarrow> (old, Some ''bad magic'')
           | Some (magic, bs) \<Rightarrow>
               if magic \<noteq> kSnapshotMagic then (old, Some ''bad magic'')
               else case get_u32 bs of
                   None \<Rightarrow> (old, Some ''truncated header'')
                 | Some (n, bs) \<Rightarrow>
                     if 2 ^ 24 < unat n then (old, Some ''region count too large'')
                     else case get_array get_region (unat n) bs of
                         (rs, Inl e) \<Rightarrow> (rs, Some e)
                       | (rs, Inr _) \<Rightarrow> (rs, None)))"

section \<open>Round trip of the file\<close>

definition storable :: "SnapshotRegion \<Rightarrow> bool" where
  "storable r = (length (sn_bytes r) \<le> 2 ^ 28)"

interpretation region_file: record_codec put_region get_region storable
proof
  fix r :: SnapshotRegion and rest
  assume "storable r"
  then show "get_region (put_region r @ rest) = Inr (r, rest)"
    by (simp add: storable_def get_region_def put_region_def bytes_simps unat_u32_of_nat)
qed

lemma load_body:
  assumes "n \<le> 2 ^ 24"
  shows "snapshot_load old (Some (kSnapshotMagic @ put_u32 (of_nat n) @ body)) =
    (case get_array get_region n body of (rs, Inl e) \<Rightarrow> (rs, Some e) | (rs, Inr _) \<Rightarrow> (rs, None))"
proof -
  have "unat (of_nat n :: u32) = n" using assms by (intro unat_u32_of_nat) simp
  then show ?thesis
    using assms by (simp add: snapshot_load_def bytes_simps kSnapshotMagic_def take_bytes_def[of 8])
qed

text \<open>
  a snapshot within the limits of the reader is read back as it was saved, whatever the object
  held before.
\<close>

theorem snapshot_save_load:
  assumes "list_all storable snap" and "length snap \<le> 2 ^ 24"
  shows "snapshot_load old (Some (snapshot_save snap)) = (snap, None)"
  using region_file.get_put_array[OF assms(1), of "[]"] load_body[OF assms(2)]
  by (simp add: snapshot_save_def)

theorem snapshot_save_load_witness:
  "snapshot_load [] (Some (snapshot_save [\<lparr>sn_base = 0x1000, sn_size = 2, sn_protection = 3, sn_bytes = [7, 9]\<rparr>])) =
     ([\<lparr>sn_base = 0x1000, sn_size = 2, sn_protection = 3, sn_bytes = [7, 9]\<rparr>], None)"
  by (rule snapshot_save_load) (simp_all add: storable_def)

text \<open>
  the writer is more generous than the reader: a snapshot that holds a region of more than
  256 MiB (and less than 4 GiB) is saved without complaint, and loading the file fails at that
  region and leaves only the regions before it.
\<close>

theorem large_region_not_loadable:
  assumes "list_all storable before" and "2 ^ 28 < length (sn_bytes r)" and "length (sn_bytes r) < 2 ^ 32"
    and "length (before @ r # after) \<le> 2 ^ 24"
  shows "snapshot_load old (Some (snapshot_save (before @ r # after))) =
    (before, Some ''byte count out of range'')"
proof -
  have "get_region (put_region r @ rest) = Inl ''byte count out of range''" for rest
    using assms(2,3) by (simp add: get_region_def put_region_def bytes_simps unat_u32_of_nat)
  then have "get_array get_region (length before + Suc (length after))
      (put_array put_region before @ put_region r @ put_array put_region after) =
      (before, Inl ''byte count out of range'')"
    by (rule region_file.array_stops[OF assms(1)])
  moreover have "put_array put_region (before @ r # after) =
      put_array put_region before @ put_region r @ put_array put_region after"
    by (simp add: put_array_def)
  moreover have "length before + Suc (length after) = length (before @ r # after)" by simp
  ultimately show ?thesis
    unfolding snapshot_save_def load_body[OF assms(4)] by (simp only:) simp
qed

theorem large_region_not_loadable_witness:
  "snd (snapshot_load [] (Some (snapshot_save
     [\<lparr>sn_base = 0, sn_size = 0, sn_protection = 3, sn_bytes = replicate (2 ^ 28 + 1) 0\<rparr>]))) =
   Some ''byte count out of range''"
  using large_region_not_loadable[of "[]" "\<lparr>sn_base = 0, sn_size = 0, sn_protection = 3, sn_bytes = replicate (2 ^ 28 + 1) 0\<rparr>"
      "[]" "[]"] by simp

section \<open>Restoring what was captured\<close>

text \<open>A snapshot region agrees with a memory.\<close>

definition agrees :: "memory \<Rightarrow> SnapshotRegion \<Rightarrow> bool" where
  "agrees m r \<longleftrightarrow> (\<forall>i < length (sn_bytes r). m (sn_base r + of_nat i) = Some (sn_bytes r ! i))"

lemma agrees_capture:
  assumes "read_law P mem"
  shows "r \<in> set (capture_regions P s rs budget) \<Longrightarrow> agrees (mem s) r"
proof (induction rs arbitrary: budget)
  case (Cons r0 rs)
  have "agrees (mem s) \<lparr>sn_base = a, sn_size = z, sn_protection = p, sn_bytes = got\<rparr>"
    if "pr_read P s a n = Some got" for a z p n got
  proof -
    have "got = readable_prefix (mem s) (range_addrs a n)"
      using that assms by (auto simp: read_law_def Let_def split: if_splits)
    then show ?thesis by (simp add: agrees_def prefix_agrees)
  qed
  with Cons show ?case by (auto simp: Let_def split: if_splits option.splits)
qed simp

lemma store_bytes_agrees:
  assumes "\<forall>i < length bs. m0 (a + of_nat i) = Some (bs ! i)"
  shows "store_bytes m a bs x = m x \<or> store_bytes m a bs x = m0 x"
  using assms
proof (induction bs arbitrary: a)
  case (Cons b bs)
  have "\<forall>i < length bs. m0 (a + 1 + of_nat i) = Some (bs ! i)"
    using Cons.prems by (auto simp: add.assoc dest: spec[of _ "Suc _"])
  from Cons.IH[OF this] show ?case using Cons.prems by (auto dest: spec[of _ 0])
qed simp

lemma restore_bound: "write_law P mem \<Longrightarrow> snd (restore P s snap) \<le> byteCount snap"
proof (induction snap arbitrary: s)
  case (Cons r snap)
  obtain s' w where w: "pr_write P s (sn_base r) (sn_bytes r) = (s', w)" by (cases "pr_write P s (sn_base r) (sn_bytes r)")
  have "(case w of None \<Rightarrow> 0 | Some n \<Rightarrow> n) \<le> length (sn_bytes r)"
    using Cons.prems w by (auto simp: write_law_def split: option.splits)
  with Cons w show ?case by (auto simp: byteCount_def split: prod.splits intro: add_mono) (metis add_mono snd_conv)
qed (simp add: byteCount_def)

text \<open>A restore that writes every byte puts back the memory the regions agree with.\<close>

lemma restore_agrees:
  assumes "write_law P mem" "\<forall>r \<in> set snap. agrees m0 r" "\<forall>r \<in> set snap. length (sn_bytes r) \<le> 2 ^ 64"
    and "restore P s snap = (s', byteCount snap)"
  shows "(\<forall>x. mem s' x = mem s x \<or> mem s' x = m0 x) \<and>
    (\<forall>r \<in> set snap. \<forall>i < length (sn_bytes r). mem s' (sn_base r + of_nat i) = m0 (sn_base r + of_nat i))"
  using assms(2-)
proof (induction snap arbitrary: s)
  case Nil
  then show ?case by simp
next
  case (Cons r snap)
  show ?case
  proof (cases "sn_bytes r = []")
    case True
    with Cons.prems have "restore P s snap = (s', byteCount snap)" by (simp add: byteCount_def)
    with Cons True show ?thesis by simp
  next
    case False
    obtain s1 w where w: "pr_write P s (sn_base r) (sn_bytes r) = (s1, w)"
      by (cases "pr_write P s (sn_base r) (sn_bytes r)")
    obtain t where rest: "restore P s1 snap = (s', t)"
      and sum: "(case w of None \<Rightarrow> 0 | Some n \<Rightarrow> n) + t = length (sn_bytes r) + byteCount snap"
      using Cons.prems(3) False w by (auto simp: byteCount_def split: prod.splits)
    have "t \<le> byteCount snap" using restore_bound[OF assms(1), of s1 snap] rest by simp
    moreover have "w = Some n \<Longrightarrow> n \<le> length (sn_bytes r)" for n
      using assms(1) w by (simp add: write_law_def)
    ultimately have t: "t = byteCount snap" and full: "w = Some (length (sn_bytes r))"
      using sum False by (auto split: option.splits)
    have mem1: "mem s1 = store_bytes (mem s) (sn_base r) (sn_bytes r)"
      using assms(1) w full by (auto simp: write_law_def)
    have agree: "\<forall>i < length (sn_bytes r). m0 (sn_base r + of_nat i) = Some (sn_bytes r ! i)"
      using Cons.prems(1) by (simp add: agrees_def)
    have ih: "(\<forall>x. mem s' x = mem s1 x \<or> mem s' x = m0 x) \<and>
      (\<forall>r \<in> set snap. \<forall>i < length (sn_bytes r). mem s' (sn_base r + of_nat i) = m0 (sn_base r + of_nat i))"
      using Cons.prems rest t by (intro Cons.IH) simp_all
    have "mem s1 (sn_base r + of_nat i) = m0 (sn_base r + of_nat i)" if "i < length (sn_bytes r)" for i
      using that agree store_bytes_at[OF that] Cons.prems(2) by (simp add: mem1)
    then have "mem s' (sn_base r + of_nat i) = m0 (sn_base r + of_nat i)" if "i < length (sn_bytes r)" for i
      using ih that by metis
    moreover have "mem s' x = mem s x \<or> mem s' x = m0 x" for x
      using ih store_bytes_agrees[OF agree, of "mem s" x] mem1 by metis
    ultimately show ?thesis using ih by simp
  qed
qed

text \<open>
  C27: whatever the target did since the capture, a restore that reports all captured bytes leaves
  every captured byte as it was captured.
\<close>

theorem capture_restore:
  assumes laws: "read_law P mem" "write_law P mem"
    and all: "restore P s1 (capture P s0 maxBytes) = (s2, byteCount (capture P s0 maxBytes))"
    and r: "r \<in> set (capture P s0 maxBytes)" "i < length (sn_bytes r)"
  shows "mem s2 (sn_base r + of_nat i) = mem s0 (sn_base r + of_nat i)"
proof -
  have ag: "\<forall>r \<in> set (capture P s0 maxBytes). agrees (mem s0) r"
    using agrees_capture[OF laws(1)] by (auto simp: capture_def)
  have "length (sn_bytes r) \<le> 2 ^ 64" if "r \<in> set (capture_regions P s rs budget)" for r s rs budget
    using that
  proof (induction rs arbitrary: budget)
    case (Cons r0 rs)
    have "length got \<le> 2 ^ 64" if "pr_read P s a (min (unat (z :: u64)) b) = Some got" for a z b got
    proof -
      have "got = readable_prefix (mem s) (range_addrs a (min (unat z) b))"
        using that laws(1) by (auto simp: read_law_def Let_def split: if_splits)
      then have "length got \<le> min (unat z) b" using prefix_slot by blast
      then show ?thesis using unat_u64_less[of z] by simp
    qed
    with Cons show ?case by (auto simp: Let_def split: if_splits option.splits)
  qed simp
  then have "\<forall>r \<in> set (capture P s0 maxBytes). length (sn_bytes r) \<le> 2 ^ 64" by (simp add: capture_def)
  from restore_agrees[OF laws(2) ag this all] r show ?thesis by blast
qed

definition snap_region :: MemoryRegion where
  "snap_region = \<lparr>r_base = 0x1000, r_size = 4, r_protection = 3, r_type = Private, r_state = Committed, r_path = []\<rparr>"

theorem capture_restore_witness:
  "fst (restore (flat_process [snap_region] []) (\<lambda>_. Some 5) (capture (flat_process [snap_region] []) (\<lambda>_. Some 7) 2))
     (0x1000 + of_nat 1) = Some 7"
proof -
  let ?P = "flat_process [snap_region] []" and ?m = "\<lambda>_ :: u64. Some 7 :: u8 option"
  have cap: "capture ?P ?m 2 = [\<lparr>sn_base = 0x1000, sn_size = 4, sn_protection = 3, sn_bytes = replicate 2 7\<rparr>]"
    by (simp add: capture_def snap_region_def prot_and_def ProtWrite_def flat_read_const Let_def)
  then have "restore ?P (\<lambda>_. Some 5) (capture ?P ?m 2) =
      (fst (restore ?P (\<lambda>_. Some 5) (capture ?P ?m 2)), byteCount (capture ?P ?m 2))"
    by (simp add: byteCount_def)
  from capture_restore[OF flat_process_laws this, of "hd (capture ?P ?m 2)" 1] show ?thesis
    unfolding cap by simp
qed

section \<open>What the difference lists\<close>

lemma find_base:
  "distinct (map sn_base bs) \<Longrightarrow> b \<in> set bs \<Longrightarrow> find (\<lambda>x. sn_base x = sn_base b) bs = Some b"
  by (induction bs) (auto simp: rev_image_eqI)

text \<open>
  the difference of two snapshots lists an address exactly when a region of the same base and
  size is in both and the captured bytes at that address differ, with both bytes.
\<close>

theorem snapshot_diff_spec:
  assumes "distinct (map sn_base later)"
  shows "(x, u, v) \<in> set (snapshot_diff snap later) \<longleftrightarrow>
    (\<exists>a \<in> set snap. \<exists>b \<in> set later. sn_base b = sn_base a \<and> sn_size b = sn_size a \<and>
       (\<exists>i. i < length (sn_bytes a) \<and> i < length (sn_bytes b) \<and> x = sn_base a + of_nat i \<and>
          u = sn_bytes a ! i \<and> v = sn_bytes b ! i \<and> u \<noteq> v))"
proof -
  have region: "(x, u, v) \<in> set (diff_region a b) \<longleftrightarrow>
      (\<exists>i. i < length (sn_bytes a) \<and> i < length (sn_bytes b) \<and> x = sn_base a + of_nat i \<and>
          u = sn_bytes a ! i \<and> v = sn_bytes b ! i \<and> u \<noteq> v)" for a b
    by (auto simp: diff_region_def)
  have found: "find (\<lambda>b. sn_base b = sn_base a) later = Some b \<longleftrightarrow> b \<in> set later \<and> sn_base b = sn_base a" for a b
    using find_base[OF assms] by (auto simp: find_Some_iff in_set_conv_nth) metis
  show ?thesis
    unfolding snapshot_diff_def
    by (auto simp: region[symmetric] found split: option.splits) (metis found option.distinct(1) option.inject)+
qed

theorem snapshot_diff_spec_witness:
  "(0x1001, 7, 8) \<in> set (snapshot_diff
     [\<lparr>sn_base = 0x1000, sn_size = 2, sn_protection = 3, sn_bytes = [7, 7]\<rparr>]
     [\<lparr>sn_base = 0x1000, sn_size = 2, sn_protection = 3, sn_bytes = [7, 8]\<rparr>])"
  by (subst snapshot_diff_spec) (auto intro: exI[of _ 1])

end
