(* ===== verification/Pointer_Map.thy ===== *)
theory Pointer_Map
  imports Process_Api Bin_Format Text_Format
begin

text \<open>
  Pointer paths and the snapshot of a process's pointer graph
  (\<^verbatim>\<open>src/src/scanner/pointer_scanner.cpp\<close>): the two sorted indexes of \<^verbatim>\<open>PointerMap\<close>, resolving a path
  from the snapshot, and dereferencing it in the live process.  \<^verbatim>\<open>std::sort\<close> may order equal keys
  in any way; the model takes the stable order.
\<close>

record PointerPath =
  pp_module :: string
  pp_moduleBase :: u64
  pp_baseOffset :: u64
  pp_offsets :: "32 word list"

record PointerScanConfig =
  sc_target :: u64
  sc_maxDepth :: int
  sc_maxOffset :: u32
  sc_negativeOffsets :: bool
  sc_alignedOnly :: bool
  sc_shardIndex :: nat
  sc_shardCount :: nat

type_synonym ptr_entry = "u64 \<times> u64"

abbreviation pointsTo :: "ptr_entry \<Rightarrow> u64" where "pointsTo \<equiv> fst"
abbreviation locatedAt :: "ptr_entry \<Rightarrow> u64" where "locatedAt \<equiv> snd"

record pointer_map =
  pm_byTarget :: "ptr_entry list"
  pm_byLocated :: "u32 list"
  pm_modules :: "ModuleInfo list"

definition empty_map :: pointer_map where
  "empty_map = \<lparr>pm_byTarget = [], pm_byLocated = [], pm_modules = []\<rparr>"

definition setEntries :: "ptr_entry list \<Rightarrow> pointer_map \<Rightarrow> pointer_map" where
  "setEntries entries pm =
     (let byTarget = sort_key pointsTo entries;
          byLocated = sort_key (\<lambda>i. locatedAt (byTarget ! unat i)) (map of_nat [0..<length byTarget])
      in pm\<lparr>pm_byTarget := byTarget, pm_byLocated := byLocated\<rparr>)"

definition setModules :: "ModuleInfo list \<Rightarrow> pointer_map \<Rightarrow> pointer_map" where
  "setModules mods pm = pm\<lparr>pm_modules := mods\<rparr>"

text \<open>\<^verbatim>\<open>std::lower_bound\<close> and \<^verbatim>\<open>std::upper_bound\<close> as the index they return.\<close>

definition lower_bound :: "('a \<Rightarrow> 'k::linorder) \<Rightarrow> 'a list \<Rightarrow> 'k \<Rightarrow> nat" where
  "lower_bound key xs k = length (takeWhile (\<lambda>x. key x < k) xs)"

definition upper_bound :: "('a \<Rightarrow> 'k::linorder) \<Rightarrow> 'a list \<Rightarrow> 'k \<Rightarrow> nat" where
  "upper_bound key xs k = length (takeWhile (\<lambda>x. key x \<le> k) xs)"

definition valueAt :: "pointer_map \<Rightarrow> u64 \<Rightarrow> u64 option" where
  "valueAt pm addr =
     (let loc = (\<lambda>i. locatedAt (pm_byTarget pm ! unat i));
          lo = lower_bound loc (pm_byLocated pm) addr in
      if lo < length (pm_byLocated pm) \<and> loc (pm_byLocated pm ! lo) = addr
      then Some (pointsTo (pm_byTarget pm ! unat (pm_byLocated pm ! lo))) else None)"

definition module_base :: "ModuleInfo list \<Rightarrow> string \<Rightarrow> u64" where
  "module_base mods name = (case find (\<lambda>m. m_name m = name) mods of None \<Rightarrow> 0 | Some m \<Rightarrow> m_base m)"

fun resolve_links :: "pointer_map \<Rightarrow> u64 \<Rightarrow> 32 word list \<Rightarrow> u64" where
  "resolve_links pm addr [] = addr"
| "resolve_links pm addr (off # offs) =
     (case valueAt pm addr of
        None \<Rightarrow> 0
      | Some v \<Rightarrow> if v = 0 then 0 else resolve_links pm (v + scast off) offs)"

definition resolve :: "pointer_map \<Rightarrow> PointerPath \<Rightarrow> u64" where
  "resolve pm path =
     (let base = module_base (pm_modules pm) (pp_module path) in
      if base = 0 then 0 else resolve_links pm (base + pp_baseOffset path) (pp_offsets path))"

fun deref_links :: "'s process \<Rightarrow> 's \<Rightarrow> u64 \<Rightarrow> 32 word list \<Rightarrow> u64" where
  "deref_links P s addr [] = addr"
| "deref_links P s addr (off # offs) =
     (case read_u64 P s addr of
        None \<Rightarrow> 0
      | Some ptr \<Rightarrow> if ptr = 0 then 0 else deref_links P s (ptr + scast off) offs)"

definition dereference_with :: "'s process \<Rightarrow> 's \<Rightarrow> ModuleInfo list \<Rightarrow> PointerPath \<Rightarrow> u64" where
  "dereference_with P s mods path =
     (let base = module_base mods (pp_module path) in
      if base = 0 then 0 else deref_links P s (base + pp_baseOffset path) (pp_offsets path))"

definition dereference :: "'s process \<Rightarrow> 's \<Rightarrow> PointerPath \<Rightarrow> u64" where
  "dereference P s path = dereference_with P s (pr_modules P s) path"

section \<open>The two indexes\<close>

lemma sorted_lower_bound:
  assumes "sorted (map key xs)"
  shows "lower_bound key xs k < length xs \<and> key (xs ! lower_bound key xs k) = k \<longleftrightarrow> k \<in> key ` set xs"
    and "lower_bound key xs k < length xs \<and> key (xs ! lower_bound key xs k) = k \<Longrightarrow>
      xs ! lower_bound key xs k \<in> set xs"
proof -
  let ?i = "lower_bound key xs k"
  have before: "key (xs ! j) < k" if "j < ?i" for j
    using that takeWhile_nth[of j "\<lambda>x. key x < k" xs] nth_mem[of j "takeWhile (\<lambda>x. key x < k) xs"]
    by (auto simp: lower_bound_def dest: set_takeWhileD)
  have stop: "\<not> key (xs ! ?i) < k" if "?i < length xs"
    using that nth_length_takeWhile[of "\<lambda>x. key x < k" xs] by (simp add: lower_bound_def)
  show "?i < length xs \<and> key (xs ! ?i) = k \<longleftrightarrow> k \<in> key ` set xs"
  proof
    assume "k \<in> key ` set xs"
    then obtain j where j: "j < length xs" "key (xs ! j) = k" by (auto simp: in_set_conv_nth)
    then have le: "?i \<le> j" using before[of j] by (meson less_irrefl not_le)
    then have lt: "?i < length xs" using j(1) by simp
    have "key (xs ! ?i) \<le> key (xs ! j)"
      using sorted_nth_mono[OF assms, of ?i j] le j(1) by simp
    with stop[OF lt] j(2) lt show "?i < length xs \<and> key (xs ! ?i) = k" by simp
  qed (metis image_eqI nth_mem)
qed simp

text \<open>The by-location index finds the entry of an address when addresses are distinct.\<close>

lemma valueAt_setEntries:
  assumes "distinct (map locatedAt entries)" and "length entries < 2 ^ 32"
  shows "valueAt (setEntries entries pm) addr = Some v \<longleftrightarrow> (v, addr) \<in> set entries"
proof -
  define bt where "bt = sort_key pointsTo entries"
  define loc where "loc = (\<lambda>i :: u32. locatedAt (bt ! unat i))"
  define bl where "bl = sort_key loc (map of_nat [0..<length bt])"
  have bt: "set bt = set entries" "length bt < 2 ^ 32" "distinct (map locatedAt bt)"
    using assms by (simp_all add: bt_def distinct_map)
  have idx: "unat (of_nat j :: u32) = j" if "j < length bt" for j
    using that bt(2) by (simp add: unat_of_nat take_bit_eq_mod)
  have bl: "set bl = of_nat ` {..<length bt}" by (simp add: bl_def atLeast0LessThan)
  have at: "loc (of_nat j) = locatedAt (bt ! j)" if "j < length bt" for j
    using that idx by (simp add: loc_def)
  then have "loc ` set bl = (\<lambda>j. locatedAt (bt ! j)) ` {..<length bt}"
    unfolding bl image_image by (intro image_cong) simp_all
  also have "\<dots> = locatedAt ` set bt"
    by (simp add: set_conv_nth image_Collect[symmetric] lessThan_def image_image setcompr_eq_image)
  finally have image: "loc ` set bl = locatedAt ` set bt" .
  note lb = sorted_lower_bound[of loc bl addr]
  have sorted: "sorted (map loc bl)" by (simp add: bl_def)
  define lo where "lo = lower_bound loc bl addr"
  have val: "valueAt (setEntries entries pm) addr =
      (if lo < length bl \<and> loc (bl ! lo) = addr then Some (pointsTo (bt ! unat (bl ! lo))) else None)"
    by (simp add: valueAt_def setEntries_def Let_def bt_def[symmetric] loc_def[symmetric] bl_def[symmetric] lo_def)
  show ?thesis
  proof (cases "addr \<in> locatedAt ` set bt")
    case False
    then have "\<not> (lo < length bl \<and> loc (bl ! lo) = addr)" using lb(1)[OF sorted] image by (simp add: lo_def)
    moreover have "(v, addr) \<notin> set entries" using False bt(1) by force
    ultimately show ?thesis using val by auto
  next
    case True
    then have lo: "lo < length bl" "loc (bl ! lo) = addr" using lb(1)[OF sorted] image by (auto simp: lo_def)
    from nth_mem[OF lo(1)] obtain j where j: "j < length bt" "bl ! lo = of_nat j" unfolding bl by auto
    have here: "locatedAt (bt ! j) = addr" using lo(2) unfolding j(2) at[OF j(1)] .
    have "(v, addr) \<in> set bt \<longleftrightarrow> pointsTo (bt ! j) = v"
    proof
      assume "(v, addr) \<in> set bt"
      then obtain i where "i < length bt" "bt ! i = (v, addr)" by (auto simp: in_set_conv_nth)
      then have "i = j" using bt(3) j(1) here by (simp add: distinct_conv_nth) (metis snd_conv)
      with \<open>bt ! i = (v, addr)\<close> show "pointsTo (bt ! j) = v" by simp
    next
      assume "pointsTo (bt ! j) = v"
      then have "bt ! j = (v, addr)" using here by (simp add: prod_eq_iff)
      then show "(v, addr) \<in> set bt" using j(1) nth_mem by fastforce
    qed
    then show ?thesis unfolding val using lo idx[OF j(1)] unfolding j(2) bt(1) by simp
  qed
qed

section \<open>Resolving from the snapshot and from the process\<close>

definition make_map :: "ModuleInfo list \<Rightarrow> ptr_entry list \<Rightarrow> pointer_map" where
  "make_map mods entries = setEntries entries (setModules mods empty_map)"

lemma make_map_simps [simp]:
  "pm_byTarget (make_map mods entries) = sort_key pointsTo entries"
  "pm_modules (make_map mods entries) = mods"
  by (simp_all add: make_map_def setEntries_def setModules_def Let_def)

lemma valueAt_entry:
  assumes "valueAt (make_map mods entries) addr = Some v" and "length entries < 2 ^ 32"
  shows "(v, addr) \<in> set entries"
proof -
  define bt where "bt = sort_key pointsTo entries"
  define loc where "loc = (\<lambda>i :: u32. locatedAt (bt ! unat i))"
  define bl where "bl = sort_key loc (map of_nat [0..<length bt])"
  define lo where "lo = lower_bound loc bl addr"
  have val: "valueAt (make_map mods entries) addr =
      (if lo < length bl \<and> loc (bl ! lo) = addr then Some (pointsTo (bt ! unat (bl ! lo))) else None)"
    by (simp add: valueAt_def make_map_def setEntries_def Let_def bt_def[symmetric] loc_def[symmetric]
        bl_def[symmetric] lo_def)
  then have lo: "lo < length bl" "loc (bl ! lo) = addr" "v = pointsTo (bt ! unat (bl ! lo))"
    using assms(1) by (auto split: if_splits)
  have "set bl = of_nat ` {..<length bt}" by (simp add: bl_def atLeast0LessThan)
  with nth_mem[OF lo(1)] obtain j where j: "j < length bt" "bl ! lo = of_nat j" by auto
  have "unat (of_nat j :: u32) = j"
    using j(1) assms(2) by (intro unat_u32_of_nat) (simp add: bt_def)
  then have "(v, addr) = bt ! j" using lo(2, 3) unfolding j(2) loc_def by (simp add: prod_eq_iff)
  then show ?thesis using nth_mem[OF j(1)] by (simp add: bt_def)
qed

text \<open>A snapshot is current when each of its entries is still what the process holds.\<close>

definition current :: "'s process \<Rightarrow> 's \<Rightarrow> ptr_entry list \<Rightarrow> bool" where
  "current P s entries \<longleftrightarrow> (\<forall>(v, a) \<in> set entries. read_u64 P s a = Some v)"

lemma resolve_links_current:
  assumes "current P s entries" "length entries < 2 ^ 32"
  shows "resolve_links (make_map mods entries) addr offs \<noteq> 0 \<Longrightarrow>
    deref_links P s addr offs = resolve_links (make_map mods entries) addr offs"
proof (induction offs arbitrary: addr)
  case (Cons off offs)
  then obtain v where v: "valueAt (make_map mods entries) addr = Some v" "v \<noteq> 0"
    by (auto split: option.splits if_splits)
  then have "read_u64 P s addr = Some v"
    using assms(1) valueAt_entry[OF v(1) assms(2)] by (auto simp: current_def)
  with v Cons show ?case by simp
qed simp

text \<open>
  an address the snapshot resolves a path to is the address that dereferencing the path in the
  process gives, as long as the recorded pointers have not changed.
\<close>

theorem resolve_sound:
  assumes "current P s entries" "length entries < 2 ^ 32"
    and "resolve (make_map mods entries) path \<noteq> 0"
  shows "dereference_with P s mods path = resolve (make_map mods entries) path"
  using assms(3) resolve_links_current[OF assms(1, 2)]
  by (auto simp: resolve_def dereference_with_def Let_def split: if_splits)

definition game_module :: ModuleInfo where
  "game_module = \<lparr>m_base = 0x400000, m_size = 0x1000, m_name = ''game'', m_path = ''/opt/game'', m_is64bit = True\<rparr>"

definition game_path :: PointerPath where
  "game_path = \<lparr>pp_module = ''game'', pp_moduleBase = 0x400000, pp_baseOffset = 0x10, pp_offsets = [8]\<rparr>"

definition game_memory :: memory where
  "game_memory = store_bytes (\<lambda>_. None) 0x400010 (le_bytes 8 (0x700000 :: u64))"

lemma read_u64_stored:
  "read_u64 (flat_process rs ms) (store_bytes m a (le_bytes 8 v)) a = Some v"
  using read_exact_iff[OF flat_process_laws(1)[of rs ms], of "store_bytes m a (le_bytes 8 v)" a 8]
    store_bytes_slot[of "le_bytes 8 v" m a]
  by (simp add: read_u64_def le_val_le_bytes_full)

lemma game_current: "current (flat_process [] [game_module]) game_memory [(0x700000, 0x400010)]"
  by (simp add: current_def game_memory_def read_u64_stored)

lemma game_resolve: "resolve (make_map [game_module] [(0x700000, 0x400010)]) game_path = 0x700008"
  by (simp add: resolve_def make_map_def setEntries_def setModules_def empty_map_def game_path_def game_module_def
      module_base_def valueAt_def lower_bound_def Let_def)

theorem resolve_sound_witness:
  "dereference_with (flat_process [] [game_module]) game_memory [game_module] game_path = 0x700008"
  using resolve_sound[OF game_current, of "[game_module]" game_path] by (simp add: game_resolve)

section \<open>The file of a pointer map\<close>

definition kPointerMapMagic :: bytes where
  "kPointerMapMagic = name_bytes ''PMAP0001''"

definition put_entry :: "ptr_entry \<Rightarrow> bytes" where
  "put_entry e = put_u64 (pointsTo e) @ put_u64 (locatedAt e)"

definition get_entry :: "bytes \<Rightarrow> string + (ptr_entry \<times> bytes)" where
  "get_entry bs =
     (case get_u64 bs of None \<Rightarrow> Inl ''truncated entries'' | Some (pt, bs) \<Rightarrow>
      case get_u64 bs of None \<Rightarrow> Inl ''truncated entries'' | Some (la, bs) \<Rightarrow> Inr ((pt, la), bs))"

definition put_module :: "ModuleInfo \<Rightarrow> bytes" where
  "put_module m =
     put_u64 (m_base m) @ put_u64 (m_size m) @ put_u32 (of_nat (length (m_name m))) @
     [if m_is64bit m then 1 else 0] @
     take (unat (of_nat (length (m_name m)) :: u32)) (name_bytes (m_name m))"

definition get_module :: "bytes \<Rightarrow> string + (ModuleInfo \<times> bytes)" where
  "get_module bs =
     (case get_u64 bs of None \<Rightarrow> Inl ''truncated module'' | Some (base, bs) \<Rightarrow>
      case get_u64 bs of None \<Rightarrow> Inl ''truncated module'' | Some (sz, bs) \<Rightarrow>
      case get_u32 bs of None \<Rightarrow> Inl ''truncated module'' | Some (nameLen, bs) \<Rightarrow>
      case take_bytes 1 bs of None \<Rightarrow> Inl ''truncated module'' | Some (is64, bs) \<Rightarrow>
      if 2 ^ 16 < unat nameLen then Inl ''module name too long''
      else case take_bytes (unat nameLen) bs of
          None \<Rightarrow> Inl ''truncated module name''
        | Some (name, bs) \<Rightarrow>
            Inr (\<lparr>m_base = base, m_size = sz, m_name = bytes_name name, m_path = [], m_is64bit = is64 \<noteq> [0]\<rparr>, bs))"

definition map_save :: "pointer_map \<Rightarrow> bytes" where
  "map_save pm =
     kPointerMapMagic @ put_u64 (of_nat (length (pm_byTarget pm))) @ put_u64 (of_nat (length (pm_modules pm))) @
     put_array put_entry (pm_byTarget pm) @ put_array put_module (pm_modules pm)"

definition map_load :: "bytes option \<Rightarrow> pointer_map \<times> string option" where
  "map_load file =
     (case file of
        None \<Rightarrow> (empty_map, Some ''open failed'')
      | Some bs \<Rightarrow>
          (case take_bytes 8 bs of
             None \<Rightarrow> (empty_map, Some ''bad magic'')
           | Some (magic, bs) \<Rightarrow>
               if magic \<noteq> kPointerMapMagic then (empty_map, Some ''bad magic'')
               else case get_u64 bs of
                   None \<Rightarrow> (empty_map, Some ''truncated header'')
                 | Some (nEntries, bs) \<Rightarrow>
                     (case get_u64 bs of
                        None \<Rightarrow> (empty_map, Some ''truncated header'')
                      | Some (nModules, bs) \<Rightarrow>
                          if 2 ^ 32 < unat nEntries \<or> 2 ^ 20 < unat nModules
                          then (empty_map, Some ''counts too large'')
                          else case get_array get_entry (unat nEntries) bs of
                              (_, Inl e) \<Rightarrow> (empty_map, Some e)
                            | (entries, Inr bs) \<Rightarrow>
                                (case get_array get_module (unat nModules) bs of
                                   (_, Inl e) \<Rightarrow> (empty_map, Some e)
                                 | (mods, Inr _) \<Rightarrow> (make_map mods entries, None)))))"

definition storable_module :: "ModuleInfo \<Rightarrow> bool" where
  "storable_module m \<longleftrightarrow> length (m_name m) \<le> 2 ^ 16 \<and> m_path m = []"

interpretation entry_file: record_codec put_entry get_entry "\<lambda>_. True"
  by unfold_locales (simp add: put_entry_def get_entry_def bytes_simps)

interpretation module_file: record_codec put_module get_module storable_module
proof
  fix m :: ModuleInfo and rest
  assume m: "storable_module m"
  then have len: "unat (of_nat (length (m_name m)) :: u32) = length (m_name m)"
    by (intro unat_u32_of_nat) (simp add: storable_module_def)
  have "take_bytes (Suc 0) (b # r) = Some ([b], r)" for b r by (simp add: take_bytes_def)
  with m len show "get_module (put_module m @ rest) = Inr (m, rest)"
    by (auto simp: storable_module_def get_module_def put_module_def bytes_simps)
qed

definition drop_path :: "ModuleInfo \<Rightarrow> ModuleInfo" where
  "drop_path m = m\<lparr>m_path := []\<rparr>"

lemma put_module_drop_path: "put_module (drop_path m) = put_module m"
  by (simp add: put_module_def drop_path_def)

lemma sort_key_sorted: "sorted (map f xs) \<Longrightarrow> sort_key f xs = xs"
  by (induction xs) (simp_all add: insort_is_Cons)

text \<open>
  a pointer map within the limits of the reader is read back as it was saved, both indexes
  included; of its modules only the paths are lost.
\<close>

theorem pointer_map_save_load:
  assumes "length entries \<le> 2 ^ 32" "length mods \<le> 2 ^ 20" "\<forall>m \<in> set mods. length (m_name m) \<le> 2 ^ 16"
  shows "map_load (Some (map_save (make_map mods entries))) = (make_map (map drop_path mods) entries, None)"
proof -
  let ?es = "sort_key pointsTo entries" and ?ms = "map drop_path mods"
  have mods: "put_array put_module mods = put_array put_module ?ms"
    by (simp add: put_array_def comp_def put_module_drop_path)
  have ms: "get_array get_module (length mods) (put_array put_module ?ms @ []) = (?ms, Inr [])"
    using module_file.get_put_array[of ?ms "[]"] assms(3)
    by (simp add: list_all_iff storable_module_def drop_path_def)
  have es: "get_array get_entry (length entries) (put_array put_entry ?es @ r) = (?es, Inr r)" for r
    using entry_file.get_put_array[of ?es r] by (simp add: list_all_iff)
  have n: "unat (of_nat (length entries) :: u64) = length entries" "unat (of_nat (length mods) :: u64) = length mods"
    using assms(1, 2) by (auto intro!: unat_u64_of_nat)
  have again: "make_map ?ms ?es = make_map ?ms entries"
    by (simp add: make_map_def setEntries_def Let_def sort_key_sorted)
  show ?thesis
    using assms(1, 2) ms
    by (simp add: map_load_def map_save_def bytes_simps kPointerMapMagic_def mods n es again)
qed

theorem pointer_map_save_load_witness:
  "map_load (Some (map_save (make_map [game_module] [(0x700000, 0x400010)]))) =
   (make_map [game_module\<lparr>m_path := []\<rparr>] [(0x700000, 0x400010)], None)"
  using pointer_map_save_load[of "[(0x700000, 0x400010)]" "[game_module]"]
  by (simp add: drop_path_def game_module_def)

end
