(* ===== verification/Pointer_Scan.thy ===== *)
theory Pointer_Scan
  imports Pointer_Map "HOL-Library.Multiset"
begin

text \<open>
  The pointer scan over a snapshot (\<^verbatim>\<open>PointerScanner::scanWithMap\<close> in
  \<^verbatim>\<open>src/src/scanner/pointer_scanner.cpp\<close>): a breadth-first search from the target back along the
  recorded pointers.  The search is proved equal to a reference that lists the visited addresses
  first; soundness, completeness and the sharding of the result rest on that form.

  Cancellation and progress are not modelled.  When \<^verbatim>\<open>address + maxOffset\<close> wraps around, the upper
  iterator of the code may lie before the lower one, which is undefined in C++; the model takes the
  empty window there.
\<close>

record WorkItem =
  wi_address :: u64
  wi_offsets :: "32 word list"
  wi_depth :: int

definition find_module :: "ModuleInfo list \<Rightarrow> u64 \<Rightarrow> (nat \<times> ModuleInfo) option" where
  "find_module mods addr =
     find (\<lambda>(i, m). m_base m \<le> addr \<and> addr < m_base m + m_size m) (enumerate 0 mods)"

definition search_min :: "PointerScanConfig \<Rightarrow> u64 \<Rightarrow> u64" where
  "search_min cfg address =
     (if address > scast (sc_maxOffset cfg) then address - scast (sc_maxOffset cfg) else 0)"

definition search_max :: "PointerScanConfig \<Rightarrow> u64 \<Rightarrow> u64" where
  "search_max cfg address = (if sc_negativeOffsets cfg then address + scast (sc_maxOffset cfg) else address)"

definition window :: "PointerScanConfig \<Rightarrow> ptr_entry list \<Rightarrow> u64 \<Rightarrow> ptr_entry list" where
  "window cfg entries address =
     (let lo = lower_bound pointsTo entries (search_min cfg address);
          hi = upper_bound pointsTo entries (search_max cfg address)
      in take (hi - lo) (drop lo entries))"

definition owned_by :: "PointerScanConfig \<Rightarrow> nat \<Rightarrow> bool" where
  "owned_by cfg moduleIndex \<longleftrightarrow> sc_shardCount cfg \<le> 1 \<or> moduleIndex mod sc_shardCount cfg = sc_shardIndex cfg"

definition new_offsets :: "WorkItem \<Rightarrow> ptr_entry \<Rightarrow> 32 word list" where
  "new_offsets item e = ucast (wi_address item - pointsTo e) # wi_offsets item"

abbreviation next_item :: "WorkItem \<Rightarrow> ptr_entry \<Rightarrow> WorkItem" where
  "next_item item e \<equiv>
     \<lparr>wi_address = locatedAt e, wi_offsets = new_offsets item e, wi_depth = wi_depth item + 1\<rparr>"

definition path_of :: "ModuleInfo \<Rightarrow> WorkItem \<Rightarrow> ptr_entry \<Rightarrow> PointerPath" where
  "path_of m item e =
     \<lparr>pp_module = m_name m, pp_moduleBase = m_base m, pp_baseOffset = locatedAt e - m_base m,
      pp_offsets = new_offsets item e\<rparr>"

definition result_cap :: nat where
  "result_cap = 10000"

text \<open>The inner loop over the window; the flag says that the cap on the results was reached.\<close>

fun follow_entries :: "PointerScanConfig \<Rightarrow> ModuleInfo list \<Rightarrow> WorkItem \<Rightarrow> ptr_entry list \<Rightarrow>
    WorkItem list \<Rightarrow> u64 set \<Rightarrow> PointerPath list \<Rightarrow> (WorkItem list \<times> u64 set \<times> PointerPath list) \<times> bool" where
  "follow_entries cfg mods item [] queue visited results = ((queue, visited, results), False)"
| "follow_entries cfg mods item (e # es) queue visited results =
     (let results' =
        (case find_module mods (locatedAt e) of
           Some (i, m) \<Rightarrow> if owned_by cfg i then results @ [path_of m item e] else results
         | None \<Rightarrow> results)
      in if results' \<noteq> results \<and> result_cap \<le> length results' then ((queue, visited, results'), True)
         else if wi_depth item + 1 < sc_maxDepth cfg \<and> locatedAt e \<notin> visited
         then follow_entries cfg mods item es
           (queue @ [next_item item e]) (insert (locatedAt e) visited) results'
         else follow_entries cfg mods item es queue visited results')"

lemma card_diff_insert:
  assumes "x \<in> A" "x \<notin> V" "finite A"
  shows "card (A - V) = Suc (card (A - insert x V))"
proof -
  have "A - V = insert x (A - insert x V)" using assms by blast
  then show ?thesis using assms(3) by (metis Diff_iff card_insert_disjoint finite_Diff insertI1)
qed

lemma follow_entries_measure:
  assumes "locatedAt ` set es \<subseteq> A" "finite A"
    and "follow_entries cfg mods item es queue visited results = ((queue', visited', results'), stop)"
  shows "card (A - visited') + length queue' = card (A - visited) + length queue"
  using assms(1, 3)
proof (induction es arbitrary: queue visited results)
  case (Cons e es)
  show ?case
  proof (cases "wi_depth item + 1 < sc_maxDepth cfg \<and> locatedAt e \<notin> visited")
    case True
    then have "card (A - visited) = Suc (card (A - insert (locatedAt e) visited))"
      using Cons.prems(1) assms(2) by (intro card_diff_insert) auto
    with True Cons.prems show ?thesis
      by (fastforce simp: Let_def split: if_splits dest: Cons.IH[rotated])
  next
    case False
    with Cons.prems show ?thesis
      by (fastforce simp: Let_def split: if_splits dest: Cons.IH[rotated])
  qed
qed simp

lemma set_window: "set (window cfg entries a) \<subseteq> set entries"
  unfolding window_def Let_def by (meson in_set_dropD in_set_takeD subsetI)

lemma scan_step_measure:
  assumes "follow_entries cfg mods item (window cfg entries a) queue visited results = ((queue', visited', results'), stop)"
  shows "card (locatedAt ` set entries - visited') + length queue' =
    card (locatedAt ` set entries - visited) + length queue"
  using set_window[of cfg entries a] by (intro follow_entries_measure[OF _ _ assms]) (auto intro: image_mono)

function scan_loop :: "PointerScanConfig \<Rightarrow> ModuleInfo list \<Rightarrow> ptr_entry list \<Rightarrow>
    WorkItem list \<Rightarrow> u64 set \<Rightarrow> PointerPath list \<Rightarrow> PointerPath list" where
  "scan_loop cfg mods entries [] visited results = results"
| "scan_loop cfg mods entries (item # queue) visited results =
     (case follow_entries cfg mods item (window cfg entries (wi_address item)) queue visited results of
        ((queue', visited', results'), stop) \<Rightarrow>
          if stop then results' else scan_loop cfg mods entries queue' visited' results')"
  by pat_completeness auto

termination
  by (relation "measure (\<lambda>(cfg, mods, entries, queue, visited, results).
      card (locatedAt ` set entries - visited) + length queue)")
    (auto dest!: scan_step_measure[OF sym])

definition scanWithMap :: "pointer_map \<Rightarrow> PointerScanConfig \<Rightarrow> PointerPath list" where
  "scanWithMap pm cfg =
     (if sc_shardCount cfg = 0 \<or> sc_shardCount cfg \<le> sc_shardIndex cfg then []
      else scan_loop cfg (pm_modules pm) (pm_byTarget pm)
        [\<lparr>wi_address = sc_target cfg, wi_offsets = [], wi_depth = 0\<rparr>] {sc_target cfg} [])"

definition makePointerScanShards :: "PointerScanConfig \<Rightarrow> nat \<Rightarrow> PointerScanConfig list option" where
  "makePointerScanShards base n =
     (if n = 0 then None else Some (map (\<lambda>i. base\<lparr>sc_shardIndex := i, sc_shardCount := n\<rparr>) [0..<n]))"

section \<open>The search without the recording\<close>

text \<open>
  The reference: \<open>expand\<close> gives the items one visit adds, \<open>visits\<close> the items in the order in which
  they are taken from the queue, \<open>endpoints\<close> the static locations that one visit finds.
\<close>

fun expand :: "PointerScanConfig \<Rightarrow> WorkItem \<Rightarrow> ptr_entry list \<Rightarrow> u64 set \<Rightarrow> WorkItem list" where
  "expand cfg item [] visited = []"
| "expand cfg item (e # es) visited =
     (if wi_depth item + 1 < sc_maxDepth cfg \<and> locatedAt e \<notin> visited
      then next_item item e # expand cfg item es (insert (locatedAt e) visited)
      else expand cfg item es visited)"

lemma expand_new:
  "distinct (map wi_address (expand cfg item es visited)) \<and>
   wi_address ` set (expand cfg item es visited) =
     (if wi_depth item + 1 < sc_maxDepth cfg then locatedAt ` set es - visited else {})"
  by (induction es arbitrary: visited) auto

function visits :: "PointerScanConfig \<Rightarrow> ptr_entry list \<Rightarrow> WorkItem list \<Rightarrow> u64 set \<Rightarrow> WorkItem list" where
  "visits cfg entries [] visited = []"
| "visits cfg entries (item # queue) visited =
     (let new = expand cfg item (window cfg entries (wi_address item)) visited in
      item # visits cfg entries (queue @ new) (visited \<union> wi_address ` set new))"
  by pat_completeness auto

termination
proof (relation "measure (\<lambda>(cfg, entries, queue, visited).
    card (locatedAt ` set entries - visited) + length queue)", goal_cases)
  case (2 cfg entries item queue visited new)
  let ?A = "locatedAt ` set entries" and ?N = "wi_address ` set new"
  note new = expand_new[of cfg item "window cfg entries (wi_address item)" visited, folded 2]
  have sub: "?N \<subseteq> ?A - visited"
    using new set_window[of cfg entries "wi_address item"] by (auto split: if_splits)
  have card: "card ?N = length new"
    using new distinct_card[of "map wi_address new"] by simp
  have "card (?A - visited) = card (?A - (visited \<union> ?N)) + card ?N"
    using sub by (subst card_Un_disjoint[symmetric]) (auto intro: arg_cong[of _ _ card])
  with card show ?case by simp
qed simp

definition endpoints :: "ModuleInfo list \<Rightarrow> WorkItem \<Rightarrow> ptr_entry list \<Rightarrow> (nat \<times> PointerPath) list" where
  "endpoints mods item es =
     concat (map (\<lambda>e. case find_module mods (locatedAt e) of
                        None \<Rightarrow> [] | Some (i, m) \<Rightarrow> [(i, path_of m item e)]) es)"

definition all_endpoints :: "pointer_map \<Rightarrow> PointerScanConfig \<Rightarrow> (nat \<times> PointerPath) list" where
  "all_endpoints pm cfg =
     concat (map (\<lambda>item. endpoints (pm_modules pm) item (window cfg (pm_byTarget pm) (wi_address item)))
       (visits cfg (pm_byTarget pm) [\<lparr>wi_address = sc_target cfg, wi_offsets = [], wi_depth = 0\<rparr>] {sc_target cfg}))"

definition owned :: "PointerScanConfig \<Rightarrow> (nat \<times> PointerPath) list \<Rightarrow> PointerPath list" where
  "owned cfg found = map snd (filter (\<lambda>(i, _). owned_by cfg i) found)"

lemma owned_append [simp]: "owned cfg (a @ b) = owned cfg a @ owned cfg b"
  by (simp add: owned_def)

lemma endpoints_Cons:
  "endpoints mods item (e # es) =
     (case find_module mods (locatedAt e) of None \<Rightarrow> [] | Some (i, m) \<Rightarrow> [(i, path_of m item e)]) @
     endpoints mods item es"
  by (simp add: endpoints_def)

lemma follow_entries_expand:
  assumes "length results < result_cap"
    and "follow_entries cfg mods item es queue visited results = ((queue', visited', results'), stop)"
  shows "results' = take result_cap (results @ owned cfg (endpoints mods item es)) \<and>
    stop = (result_cap \<le> length (results @ owned cfg (endpoints mods item es))) \<and>
    (\<not> stop \<longrightarrow> queue' = queue @ expand cfg item es visited \<and>
       visited' = visited \<union> wi_address ` set (expand cfg item es visited))"
  using assms
proof (induction es arbitrary: queue visited results)
  case Nil
  then show ?case by (simp add: owned_def endpoints_def)
next
  case (Cons e es)
  define here where "here = owned cfg (case find_module mods (locatedAt e) of
      None \<Rightarrow> [] | Some (i, m) \<Rightarrow> [(i, path_of m item e)])"
  have step: "(case find_module mods (locatedAt e) of
        Some (i, m) \<Rightarrow> if owned_by cfg i then results @ [path_of m item e] else results
      | None \<Rightarrow> results) = results @ here"
    by (auto simp: here_def owned_def split: option.splits)
  have short: "here = [] \<or> (\<exists>p. here = [p])"
    by (auto simp: here_def owned_def split: option.splits)
  have own: "owned cfg (endpoints mods item (e # es)) = here @ owned cfg (endpoints mods item es)"
    by (simp add: endpoints_Cons here_def)
  show ?case
  proof (cases "here \<noteq> [] \<and> result_cap \<le> length (results @ here)")
    case True
    with short Cons.prems(1) have "length (results @ here) = result_cap" by auto
    moreover from True Cons.prems(2) have "results' = results @ here" "stop"
      by (auto simp: step Let_def)
    ultimately show ?thesis by (simp add: own)
  next
    case False
    with short Cons.prems(1) have "length (results @ here) < result_cap" by auto
    note ih = Cons.IH[OF this]
    from False Cons.prems(2) show ?thesis
      by (auto simp: step Let_def own append_assoc[symmetric] simp del: append_assoc split: if_splits dest!: ih)
  qed
qed

lemma scan_loop_visits:
  "length results < result_cap \<Longrightarrow>
   scan_loop cfg mods entries queue visited results =
     take result_cap (results @ owned cfg (concat (map (\<lambda>item.
       endpoints mods item (window cfg entries (wi_address item))) (visits cfg entries queue visited))))"
proof (induction cfg mods entries queue visited results rule: scan_loop.induct)
  case (1 cfg mods entries visited results)
  then show ?case by (simp add: owned_def)
next
  case (2 cfg mods entries item queue visited results)
  let ?es = "window cfg entries (wi_address item)"
  obtain queue' visited' results' stop where
    step: "follow_entries cfg mods item ?es queue visited results = ((queue', visited', results'), stop)"
    by (metis prod.collapse)
  note sound = follow_entries_expand[OF 2(2) step]
  show ?case
  proof (cases stop)
    case True
    then show ?thesis using step sound by (simp add: Let_def)
  next
    case False
    then have "length results' < result_cap" using sound by simp
    from 2(1)[OF step[symmetric] refl refl False this] False show ?thesis
      using step sound by (simp add: Let_def)
  qed
qed

declare scan_loop.simps [simp del] visits.simps [simp del]

text \<open>
  C29: the scan with its queue, visited set, result list and cap returns the first ten thousand
  endpoints of the reference search that the shard owns, in the order of the search.
\<close>

theorem scanWithMap_reference:
  "scanWithMap pm cfg =
     (if sc_shardIndex cfg < sc_shardCount cfg then take result_cap (owned cfg (all_endpoints pm cfg)) else [])"
  by (auto simp: scanWithMap_def all_endpoints_def scan_loop_visits result_cap_def)

section \<open>The window of an address\<close>

lemma takeWhile_none: "sorted (map key (x # xs)) \<Longrightarrow> \<not> key x < (a::'k::linorder) \<Longrightarrow> takeWhile (\<lambda>x. key x < a) xs = []"
  by (cases xs) (auto simp: not_less)

lemma sorted_window:
  "sorted (map key xs) \<Longrightarrow>
   take (upper_bound key xs b - lower_bound key xs a) (drop (lower_bound key xs a) xs) =
     filter (\<lambda>x. a \<le> key x \<and> key x \<le> (b::'k::linorder)) xs"
proof (induction xs)
  case (Cons x xs)
  have rest: "key y \<ge> key x" if "y \<in> set xs" for y using Cons.prems that by simp
  have ih: "take (upper_bound key xs b - lower_bound key xs a) (drop (lower_bound key xs a) xs) =
      filter (\<lambda>x. a \<le> key x \<and> key x \<le> b) xs"
    using Cons by simp
  show ?case
  proof (cases "key x < a")
    case True
    show ?thesis
    proof (cases "key x \<le> b")
      case True
      with \<open>key x < a\<close> ih show ?thesis by (simp add: lower_bound_def upper_bound_def)
    next
      case False
      then have "filter (\<lambda>y. a \<le> key y \<and> key y \<le> b) (x # xs) = []"
        using rest by (auto simp: filter_empty_conv intro: order_trans)
      with False show ?thesis by (simp add: upper_bound_def)
    qed
  next
    case False
    then have lo: "lower_bound key (x # xs) a = 0" "lower_bound key xs a = 0"
      using takeWhile_none[OF Cons.prems False] by (simp_all add: lower_bound_def)
    show ?thesis
    proof (cases "key x \<le> b")
      case True
      with lo False ih show ?thesis by (simp add: upper_bound_def)
    next
      case False
      then have "filter (\<lambda>y. a \<le> key y \<and> key y \<le> b) (x # xs) = []"
        using rest by (auto simp: filter_empty_conv intro: order_trans)
      with False show ?thesis by (simp add: upper_bound_def)
    qed
  qed
qed (simp add: lower_bound_def upper_bound_def)

lemma window_filter:
  "window cfg (sort_key pointsTo es) a =
     filter (\<lambda>e. search_min cfg a \<le> pointsTo e \<and> pointsTo e \<le> search_max cfg a) (sort_key pointsTo es)"
  by (simp add: window_def Let_def sorted_window)

lemma sint_ucast_near:
  assumes "d = word_of_int k" "- (2 ^ 31) \<le> k" "k < 2 ^ 31"
  shows "sint (ucast (d :: u64) :: u32) = k"
proof -
  have "ucast (word_of_int k :: u64) = (word_of_int k :: u32)"
    by (rule bit_word_eqI) (auto simp: bit_simps)
  then show ?thesis using sint_u32_of_int[OF assms(2, 3)] by (simp add: assms(1))
qed

text \<open>An entry of the window reaches the address with its 32-bit offset.\<close>

definition scan_offset_ok :: "PointerScanConfig \<Rightarrow> bool" where
  "scan_offset_ok cfg \<longleftrightarrow> uint (sc_maxOffset cfg) < 2 ^ 31"

lemma maxOffset_u64:
  assumes "scan_offset_ok cfg"
  shows "uint (scast (sc_maxOffset cfg) :: u64) = uint (sc_maxOffset cfg)"
proof -
  have "sint (sc_maxOffset cfg) = uint (sc_maxOffset cfg)"
    using assms order_trans[OF _ uint_ge_0, of "- (2 ^ 31)" "sc_maxOffset cfg"]
    by (simp add: scan_offset_ok_def sint_uint signed_take_bit_int_eq_self)
  moreover have "uint (word_of_int (uint (sc_maxOffset cfg)) :: u64) = uint (sc_maxOffset cfg)"
    using assms by (intro word_of_int_inverse[OF refl]) (simp_all add: scan_offset_ok_def)
  ultimately show ?thesis by (simp add: scast_eq)
qed

lemma window_distance:
  assumes "scan_offset_ok cfg" "search_min cfg a \<le> v" "v \<le> search_max cfg a"
  shows "\<bar>uint a - uint v\<bar> \<le> uint (sc_maxOffset cfg) \<and> (\<not> sc_negativeOffsets cfg \<longrightarrow> uint v \<le> uint a)"
proof (cases "v \<le> a")
  case True
  have "uint a \<le> uint (sc_maxOffset cfg) + uint v"
  proof (cases "a > scast (sc_maxOffset cfg)")
    case True
    then have "uint (a - scast (sc_maxOffset cfg)) \<le> uint v"
      using assms(2) by (simp add: search_min_def word_le_def)
    with True show ?thesis using maxOffset_u64[OF assms(1)] by (simp add: uint_sub_if' word_less_def)
  next
    case False
    then show ?thesis using maxOffset_u64[OF assms(1)] uint_ge_0[of v]
      by (simp add: word_less_def del: uint_ge_0 unsigned_greater_eq)
  qed
  with True show ?thesis by (simp add: word_le_def)
next
  case False
  then have neg: "sc_negativeOffsets cfg" and le: "v \<le> a + scast (sc_maxOffset cfg)"
    using assms(3) by (auto simp: search_max_def split: if_splits)
  have "uint (a + scast (sc_maxOffset cfg)) \<le> uint a + uint (sc_maxOffset cfg)"
    using maxOffset_u64[OF assms(1)] by (simp add: uint_plus_if')
  with le have "uint v \<le> uint a + uint (sc_maxOffset cfg)" by (simp add: word_le_def)
  with False neg show ?thesis by (simp add: word_le_def)
qed

lemma window_sint:
  assumes "scan_offset_ok cfg" "e \<in> set (window cfg (sort_key pointsTo es) a)"
  shows "sint (ucast (a - pointsTo e) :: u32) = uint a - uint (pointsTo e)"
proof -
  have "\<bar>uint a - uint (pointsTo e)\<bar> \<le> uint (sc_maxOffset cfg)"
    using window_distance[OF assms(1)] assms(2) by (auto simp: window_filter)
  then show ?thesis
    using assms(1) by (intro sint_ucast_near) (auto simp: scan_offset_ok_def)
qed


section \<open>Soundness of the scan\<close>

lemma expand_item:
  "x \<in> set (expand cfg item es visited) \<Longrightarrow>
   wi_depth item + 1 < sc_maxDepth cfg \<and> (\<exists>e \<in> set es. x = next_item item e)"
  by (induction es arbitrary: visited) (auto split: if_splits)

lemma visits_invariant:
  assumes "\<And>item e. I item \<Longrightarrow> e \<in> set (window cfg entries (wi_address item)) \<Longrightarrow>
      wi_depth item + 1 < sc_maxDepth cfg \<Longrightarrow> I (next_item item e)"
  shows "\<forall>item \<in> set queue. I item \<Longrightarrow> \<forall>item \<in> set (visits cfg entries queue visited). I item"
  using assms
proof (induction cfg entries queue visited rule: visits.induct)
  case (2 cfg entries item queue visited)
  let ?new = "expand cfg item (window cfg entries (wi_address item)) visited"
  have "\<forall>x \<in> set (queue @ ?new). I x"
    using 2(2, 3) by (auto dest!: expand_item)
  from 2(1)[OF refl this 2(3)] 2(2) show ?case by (simp add: Let_def visits.simps)
qed (simp add: visits.simps)

lemma all_endpoints_item:
  assumes "(i, path) \<in> set (all_endpoints pm cfg)"
    and "\<And>item e. I item \<Longrightarrow> e \<in> set (window cfg (pm_byTarget pm) (wi_address item)) \<Longrightarrow>
      wi_depth item + 1 < sc_maxDepth cfg \<Longrightarrow> I (next_item item e)"
    and "I \<lparr>wi_address = sc_target cfg, wi_offsets = [], wi_depth = 0\<rparr>"
  obtains item e m where "I item" "e \<in> set (window cfg (pm_byTarget pm) (wi_address item))"
    "find_module (pm_modules pm) (locatedAt e) = Some (i, m)" "path = path_of m item e"
proof -
  have "\<forall>item \<in> set (visits cfg (pm_byTarget pm) [\<lparr>wi_address = sc_target cfg, wi_offsets = [], wi_depth = 0\<rparr>]
      {sc_target cfg}). I item"
    using assms(3) by (intro visits_invariant[of I]) (auto intro: assms(2))
  moreover obtain item e where item: "item \<in> set (visits cfg (pm_byTarget pm)
      [\<lparr>wi_address = sc_target cfg, wi_offsets = [], wi_depth = 0\<rparr>] {sc_target cfg})"
    and e: "e \<in> set (window cfg (pm_byTarget pm) (wi_address item))"
    and here: "(i, path) \<in> set (case find_module (pm_modules pm) (locatedAt e) of
      None \<Rightarrow> [] | Some (i, m) \<Rightarrow> [(i, path_of m item e)])"
    using assms(1) by (auto simp: all_endpoints_def endpoints_def)
  moreover from here obtain m where "find_module (pm_modules pm) (locatedAt e) = Some (i, m)" "path = path_of m item e"
    by (cases "find_module (pm_modules pm) (locatedAt e)") auto
  ultimately show thesis using that by blast
qed

lemma scan_endpoint:
  assumes "path \<in> set (scanWithMap pm cfg)"
  obtains i where "(i, path) \<in> set (all_endpoints pm cfg)"
  using assms
  by (auto simp: scanWithMap_reference owned_def split: if_splits dest!: in_set_takeD)






definition game_config :: PointerScanConfig where
  "game_config = \<lparr>sc_target = 0x700008, sc_maxDepth = 4, sc_maxOffset = 2048, sc_negativeOffsets = False,
     sc_alignedOnly = True, sc_shardIndex = 0, sc_shardCount = 1\<rparr>"

lemma game_scan: "scanWithMap (make_map [game_module] [(0x700000, 0x400010)]) game_config = [game_path]"
  by code_simp


lemma game_offset_ok: "scan_offset_ok game_config"
  by (simp add: scan_offset_ok_def game_config_def)


text \<open>
  C34: the paths of a scan stay within its limits: at most \<open>maxDepth\<close> links (one, if \<open>maxDepth\<close> is
  smaller), each offset at most \<open>maxOffset\<close> in size and only negative where the scan allows it,
  and never more than ten thousand paths.
\<close>

theorem scan_bounds:
  assumes "scan_offset_ok cfg" "path \<in> set (scanWithMap (make_map mods es) cfg)"
  shows "int (length (pp_offsets path)) \<le> max 1 (sc_maxDepth cfg) \<and>
    (\<forall>off \<in> set (pp_offsets path).
       \<bar>sint off\<bar> \<le> uint (sc_maxOffset cfg) \<and> (\<not> sc_negativeOffsets cfg \<longrightarrow> 0 \<le> sint off)) \<and>
    length (scanWithMap (make_map mods es) cfg) \<le> result_cap"
proof -
  let ?pm = "make_map mods es"
  define ok where "ok off = (\<bar>sint off\<bar> \<le> uint (sc_maxOffset cfg) \<and>
      (\<not> sc_negativeOffsets cfg \<longrightarrow> 0 \<le> sint off))" for off :: "32 word"
  define I where "I item = (int (length (wi_offsets item)) = wi_depth item \<and>
      (wi_depth item = 0 \<or> wi_depth item < sc_maxDepth cfg) \<and> (\<forall>off \<in> set (wi_offsets item). ok off))"
    for item :: WorkItem
  have off: "ok (ucast (a - pointsTo e))" if "e \<in> set (window cfg (sort_key pointsTo es) a)" for a e
    using window_distance[OF assms(1), of a "pointsTo e"] window_sint[OF assms(1) that] that
    by (auto simp: window_filter ok_def)
  obtain i where i: "(i, path) \<in> set (all_endpoints ?pm cfg)" using assms(2) by (rule scan_endpoint)
  obtain item e m where item: "I item" and e: "e \<in> set (window cfg (sort_key pointsTo es) (wi_address item))"
    and path: "path = path_of m item e"
    using i by (rule all_endpoints_item[of i path ?pm cfg I]) (auto simp: I_def off new_offsets_def)
  have "int (length (pp_offsets path)) \<le> max 1 (sc_maxDepth cfg)"
    using item by (auto simp: I_def path path_of_def new_offsets_def)
  moreover have "\<forall>off \<in> set (pp_offsets path). ok off"
    using item off[OF e] by (simp add: I_def path path_of_def new_offsets_def)
  ultimately show ?thesis by (simp add: ok_def scanWithMap_reference result_cap_def)
qed

theorem scan_bounds_witness:
  "scanWithMap (make_map [game_module] [(0x700000, 0x400010)]) game_config = [game_path] \<and>
   int (length (pp_offsets game_path)) \<le> 4 \<and> list_all (\<lambda>off. 0 \<le> sint off) (pp_offsets game_path)"
  using scan_bounds[OF game_offset_ok, of game_path "[game_module]" "[(0x700000, 0x400010)]"] game_scan
  by (simp add: game_config_def list_all_iff)

section \<open>Completeness of the scan\<close>

text \<open>\<open>reaches cfg entries d a\<close>: the target is reached from address \<open>a\<close> over \<open>d\<close> links of the scan.\<close>

inductive reaches :: "PointerScanConfig \<Rightarrow> ptr_entry list \<Rightarrow> nat \<Rightarrow> u64 \<Rightarrow> bool"
  for cfg entries where
  at_target: "reaches cfg entries 0 (sc_target cfg)"
| link: "reaches cfg entries d b \<Longrightarrow> e \<in> set (window cfg entries b) \<Longrightarrow> reaches cfg entries (Suc d) (locatedAt e)"

inductive_cases reaches_SucE: "reaches cfg entries (Suc d) a"

text \<open>Every link out of an item leads to an item of \<open>D\<close> that is not deeper than the search allows.\<close>

definition followed :: "PointerScanConfig \<Rightarrow> ptr_entry list \<Rightarrow> WorkItem \<Rightarrow> WorkItem set \<Rightarrow> bool" where
  "followed cfg entries item D \<longleftrightarrow>
     (wi_depth item + 1 < sc_maxDepth cfg \<longrightarrow>
       (\<forall>e \<in> set (window cfg entries (wi_address item)).
          \<exists>x \<in> D. wi_address x = locatedAt e \<and> wi_depth x \<le> wi_depth item + 1))"

lemma followed_mono: "followed cfg entries item D \<Longrightarrow> D \<subseteq> D' \<Longrightarrow> followed cfg entries item D'"
  unfolding followed_def by blast

definition bfs_inv :: "PointerScanConfig \<Rightarrow> ptr_entry list \<Rightarrow> WorkItem set \<Rightarrow> WorkItem list \<Rightarrow> u64 set \<Rightarrow> bool" where
  "bfs_inv cfg entries seen queue visited \<longleftrightarrow>
     visited \<subseteq> wi_address ` (seen \<union> set queue) \<and>
     (\<forall>item \<in> seen. followed cfg entries item (seen \<union> set queue)) \<and>
     sorted (map wi_depth queue) \<and>
     (\<forall>x \<in> seen \<union> set queue. \<forall>q \<in> set queue. wi_depth x \<le> wi_depth q + 1) \<and>
     (\<forall>x \<in> seen. \<forall>q \<in> set queue. wi_depth x \<le> wi_depth q)"

lemma bfs_inv_step:
  assumes inv: "bfs_inv cfg entries seen (item # queue) visited"
    and new: "new = expand cfg item (window cfg entries (wi_address item)) visited"
  shows "bfs_inv cfg entries (insert item seen) (queue @ new) (visited \<union> wi_address ` set new)"
proof -
  have depth: "wi_depth x = wi_depth item + 1" if "x \<in> set new" for x
    using expand_item[of x] that unfolding new by fastforce
  have addr: "wi_address ` set new =
      (if wi_depth item + 1 < sc_maxDepth cfg then locatedAt ` set (window cfg entries (wi_address item)) - visited else {})"
    unfolding new using expand_new by blast
  have "followed cfg entries item (seen \<union> set (item # queue) \<union> set new)"
    unfolding followed_def
  proof (intro impI ballI)
    fix e
    assume e: "wi_depth item + 1 < sc_maxDepth cfg" "e \<in> set (window cfg entries (wi_address item))"
    show "\<exists>x \<in> seen \<union> set (item # queue) \<union> set new. wi_address x = locatedAt e \<and> wi_depth x \<le> wi_depth item + 1"
    proof (cases "locatedAt e \<in> visited")
      case True
      with inv have "locatedAt e \<in> wi_address ` (seen \<union> set (item # queue))"
        unfolding bfs_inv_def by blast
      then obtain x where "x \<in> seen \<union> set (item # queue)" "wi_address x = locatedAt e" by (metis imageE)
      moreover from this(1) have "wi_depth x \<le> wi_depth item + 1" using inv by (auto simp: bfs_inv_def)
      ultimately show ?thesis by blast
    next
      case False
      with e addr have "locatedAt e \<in> wi_address ` set new" by simp
      then show ?thesis using depth by fastforce
    qed
  qed
  moreover have "followed cfg entries x (seen \<union> set (item # queue) \<union> set new)" if "x \<in> seen" for x
    using inv that by (auto simp: bfs_inv_def intro: followed_mono[of _ _ _ "seen \<union> set (item # queue)"])
  moreover have "seen \<union> set (item # queue) \<union> set new = insert item seen \<union> set (queue @ new)" by auto
  ultimately have follow: "\<forall>x \<in> insert item seen. followed cfg entries x (insert item seen \<union> set (queue @ new))"
    by auto
  have sub: "visited \<union> wi_address ` set new \<subseteq> wi_address ` (insert item seen \<union> set (queue @ new))"
    using inv unfolding bfs_inv_def by auto
  have order: "wi_depth x \<le> wi_depth item" if "x \<in> seen" for x
    using inv that by (simp add: bfs_inv_def)
  have q: "wi_depth item \<le> wi_depth x \<and> wi_depth x \<le> wi_depth item + 1" if "x \<in> set queue" for x
    using inv that by (auto simp: bfs_inv_def)
  have "sorted (map wi_depth new)"
    by (rule sorted_wrt_mono_rel[of _ "\<lambda>_ _. True"]) (auto simp: depth sorted_wrt_true)
  then have "sorted (map wi_depth (queue @ new))"
    using inv q depth by (auto simp: bfs_inv_def sorted_append)
  moreover have "\<forall>x \<in> insert item seen \<union> set (queue @ new). \<forall>y \<in> set (queue @ new). wi_depth x \<le> wi_depth y + 1"
  proof (intro ballI)
    fix x y
    assume "x \<in> insert item seen \<union> set (queue @ new)" "y \<in> set (queue @ new)"
    then have "wi_depth x \<le> wi_depth item + 1" "wi_depth item \<le> wi_depth y"
      using order[of x] q[of x] q[of y] depth[of x] depth[of y] by auto
    then show "wi_depth x \<le> wi_depth y + 1" by simp
  qed
  moreover have "\<forall>x \<in> insert item seen. \<forall>y \<in> set (queue @ new). wi_depth x \<le> wi_depth y"
  proof (intro ballI)
    fix x y
    assume "x \<in> insert item seen" "y \<in> set (queue @ new)"
    then have "wi_depth x \<le> wi_depth item" "wi_depth item \<le> wi_depth y"
      using order[of x] q[of y] depth[of y] by auto
    then show "wi_depth x \<le> wi_depth y" by simp
  qed
  ultimately show ?thesis unfolding bfs_inv_def using follow sub by blast
qed

lemma visits_followed:
  "bfs_inv cfg entries seen queue visited \<Longrightarrow> item \<in> seen \<union> set (visits cfg entries queue visited) \<Longrightarrow>
   followed cfg entries item (seen \<union> set (visits cfg entries queue visited))"
proof (induction cfg entries queue visited arbitrary: seen rule: visits.induct)
  case (1 cfg entries visited)
  then show ?case by (simp add: bfs_inv_def visits.simps)
next
  case (2 cfg entries it queue visited)
  from 2(1)[OF refl bfs_inv_step[OF 2(2) refl]] 2(3) show ?case
    by (simp add: visits.simps Let_def)
qed

lemma visits_complete:
  fixes cfg entries
  defines "D \<equiv> set (visits cfg entries [\<lparr>wi_address = sc_target cfg, wi_offsets = [], wi_depth = 0\<rparr>] {sc_target cfg})"
  assumes "reaches cfg entries d a" "d = 0 \<or> int d < sc_maxDepth cfg"
  shows "\<exists>x \<in> D. wi_address x = a \<and> wi_depth x \<le> int d"
  using assms(2, 3)
proof (induction rule: reaches.induct)
  case at_target
  then show ?case unfolding D_def by (subst visits.simps) (simp add: Let_def)
next
  case (link d b e)
  then obtain x where x: "x \<in> D" "wi_address x = b" "wi_depth x \<le> int d" by auto
  have "bfs_inv cfg entries {} [\<lparr>wi_address = sc_target cfg, wi_offsets = [], wi_depth = 0\<rparr>] {sc_target cfg}"
    by (simp add: bfs_inv_def)
  from visits_followed[OF this, of x] x(1) have "followed cfg entries x D" by (simp add: D_def)
  moreover have "wi_depth x + 1 < sc_maxDepth cfg" using x(3) link.prems by simp
  ultimately obtain y where "y \<in> D" "wi_address y = locatedAt e" "wi_depth y \<le> wi_depth x + 1"
    using link.hyps x(2) unfolding followed_def by blast
  with x(3) show ?case by fastforce
qed

text \<open>
  C7: below the cap on the results, a scan finds every static location that reaches the target
  within the depth limit: some returned path starts there.
\<close>

theorem scan_complete:
  assumes "reaches cfg (pm_byTarget pm) d a" "0 < d" "int d \<le> max 1 (sc_maxDepth cfg)"
    and m: "find_module (pm_modules pm) a = Some (i, m)" "owned_by cfg i" "sc_shardIndex cfg < sc_shardCount cfg"
    and cap: "length (owned cfg (all_endpoints pm cfg)) \<le> result_cap"
  shows "\<exists>path \<in> set (scanWithMap pm cfg).
    pp_module path = m_name m \<and> pp_moduleBase path = m_base m \<and> pp_baseOffset path = a - m_base m"
proof -
  obtain k where k: "d = Suc k" using assms(2) by (cases d) auto
  with assms(1) obtain b e where b: "reaches cfg (pm_byTarget pm) k b" "e \<in> set (window cfg (pm_byTarget pm) b)"
    and a: "a = locatedAt e"
    by (auto elim: reaches_SucE)
  have "k = 0 \<or> int k < sc_maxDepth cfg" using assms(3) k by auto
  from visits_complete[OF b(1) this] obtain x where
    x: "x \<in> set (visits cfg (pm_byTarget pm) [\<lparr>wi_address = sc_target cfg, wi_offsets = [], wi_depth = 0\<rparr>]
      {sc_target cfg})" "wi_address x = b" by blast
  have "(i, path_of m x e) \<in> set (endpoints (pm_modules pm) x (window cfg (pm_byTarget pm) (wi_address x)))"
    using b(2) m(1) unfolding endpoints_def x(2) a by force
  then have "(i, path_of m x e) \<in> set (all_endpoints pm cfg)" using x(1) by (auto simp: all_endpoints_def)
  then have "path_of m x e \<in> set (scanWithMap pm cfg)"
    using m(2, 3) cap by (force simp: scanWithMap_reference owned_def)
  then show ?thesis by (force simp: path_of_def a)
qed

theorem scan_complete_witness:
  "\<exists>path \<in> set (scanWithMap (make_map [game_module] [(0x700000, 0x400010)]) game_config).
     pp_module path = ''game'' \<and> pp_baseOffset path = 0x10"
proof -
  let ?pm = "make_map [game_module] [(0x700000, 0x400010)]"
  have "(0x700000, 0x400010) \<in> set (window game_config (pm_byTarget ?pm) (sc_target game_config))"
    by code_simp
  from reaches.link[OF reaches.at_target this]
  have "reaches game_config (pm_byTarget ?pm) 1 0x400010" by simp
  moreover have "find_module (pm_modules ?pm) 0x400010 = Some (0, game_module)"
    by (simp add: find_module_def game_module_def)
  moreover have "length (owned game_config (all_endpoints ?pm game_config)) \<le> result_cap" by code_simp
  ultimately show ?thesis
    using scan_complete[where cfg = game_config and pm = ?pm and d = 1 and a = "0x400010" and m = game_module]
    by (fastforce simp: game_config_def game_module_def owned_by_def)
qed

section \<open>Shards\<close>

lemma visits_shard:
  "visits (cfg\<lparr>sc_shardIndex := i, sc_shardCount := n\<rparr>) entries queue visited = visits cfg entries queue visited"
proof (induction cfg entries queue visited rule: visits.induct)
  case (2 cfg entries item queue visited)
  have "expand (cfg\<lparr>sc_shardIndex := i, sc_shardCount := n\<rparr>) item es V = expand cfg item es V" for es V
    by (induction es arbitrary: V) simp_all
  moreover have "window (cfg\<lparr>sc_shardIndex := i, sc_shardCount := n\<rparr>) entries a = window cfg entries a" for a
    by (simp add: window_def search_min_def search_max_def)
  ultimately show ?case using 2[OF refl] by (simp add: visits.simps Let_def)
qed (simp add: visits.simps)

lemma all_endpoints_shard:
  "all_endpoints pm (cfg\<lparr>sc_shardIndex := i, sc_shardCount := n\<rparr>) = all_endpoints pm cfg"
proof -
  have "window (cfg\<lparr>sc_shardIndex := i, sc_shardCount := n\<rparr>) entries a = window cfg entries a" for entries a
    by (simp add: window_def search_min_def search_max_def)
  then show ?thesis by (simp add: all_endpoints_def visits_shard)
qed

lemma mset_residues:
  "0 < n \<Longrightarrow> (\<Sum>i \<leftarrow> [0..<n]. mset (map snd (filter (\<lambda>(j, _). j mod n = i) xs))) = mset (map snd xs)"
proof (induction xs)
  case (Cons x xs)
  have "(\<Sum>i \<leftarrow> [0..<n]. mset (map snd (filter (\<lambda>(j, _). j mod n = i) (x # xs)))) =
      (\<Sum>i \<leftarrow> [0..<n]. (if fst x mod n = i then {#snd x#} else {#}) +
        mset (map snd (filter (\<lambda>(j, _). j mod n = i) xs)))"
    by (intro arg_cong[of _ _ sum_list] map_cong refl) (auto split: prod.splits)
  also have "\<dots> = (\<Sum>i \<leftarrow> [0..<n]. if fst x mod n = i then {#snd x#} else {#}) + mset (map snd xs)"
    using Cons by (simp add: sum_list_addf)
  also have "(\<Sum>i \<leftarrow> [0..<n]. if fst x mod n = i then {#snd x#} else {#}) = {#snd x#}"
    using Cons.prems by (simp add: sum_list_distinct_conv_sum_set)
  finally show ?case by simp
qed simp

text \<open>
  C15: when a scan finds at most ten thousand paths, the scans of its shards together return exactly
  the same paths, each in one shard.
\<close>

theorem shards_partition:
  assumes "makePointerScanShards cfg n = Some shards" "length (all_endpoints pm cfg) \<le> result_cap"
  shows "mset (concat (map (scanWithMap pm) shards)) =
    mset (scanWithMap pm (cfg\<lparr>sc_shardIndex := 0, sc_shardCount := 1\<rparr>))"
proof -
  have n: "0 < n" and shards: "shards = map (\<lambda>i. cfg\<lparr>sc_shardIndex := i, sc_shardCount := n\<rparr>) [0..<n]"
    using assms(1) by (auto simp: makePointerScanShards_def split: if_splits)
  let ?found = "all_endpoints pm cfg"
  have part: "scanWithMap pm (cfg\<lparr>sc_shardIndex := i, sc_shardCount := n\<rparr>) =
      map snd (filter (\<lambda>(j, _). j mod n = i) ?found)" if "i < n" for i
  proof -
    have "owned_by (cfg\<lparr>sc_shardIndex := i, sc_shardCount := n\<rparr>) j \<longleftrightarrow> j mod n = i" for j
      using that by (cases "n = 1") (auto simp: owned_by_def)
    then have "owned (cfg\<lparr>sc_shardIndex := i, sc_shardCount := n\<rparr>) ?found =
        map snd (filter (\<lambda>(j, _). j mod n = i) ?found)" by (simp add: owned_def)
    moreover have "length (filter (\<lambda>(j, _). j mod n = i) ?found) \<le> result_cap"
      using assms(2) length_filter_le order_trans by blast
    ultimately show ?thesis using that by (simp add: scanWithMap_reference all_endpoints_shard)
  qed
  have "mset (concat (map (scanWithMap pm) shards)) =
      (\<Sum>i \<leftarrow> [0..<n]. mset (scanWithMap pm (cfg\<lparr>sc_shardIndex := i, sc_shardCount := n\<rparr>)))"
    by (simp add: shards mset_concat comp_def)
  also have "\<dots> = (\<Sum>i \<leftarrow> [0..<n]. mset (map snd (filter (\<lambda>(j, _). j mod n = i) ?found)))"
    by (intro arg_cong[of _ _ sum_list] map_cong refl) (simp add: part)
  also have "\<dots> = mset (map snd ?found)" using n by (rule mset_residues)
  also have "map snd ?found = scanWithMap pm (cfg\<lparr>sc_shardIndex := 0, sc_shardCount := 1\<rparr>)"
    using assms(2) by (simp add: scanWithMap_reference all_endpoints_shard owned_def owned_by_def case_prod_beta)
  finally show ?thesis .
qed

theorem shards_partition_witness:
  "mset (concat (map (scanWithMap (make_map [game_module] [(0x700000, 0x400010)]))
     (the (makePointerScanShards game_config 3)))) = {#game_path#}"
proof -
  let ?pm = "make_map [game_module] [(0x700000, 0x400010)]"
  have "length (all_endpoints ?pm game_config) \<le> result_cap" by code_simp
  from shards_partition[of game_config 3 "the (makePointerScanShards game_config 3)", OF _ this]
  show ?thesis using game_scan by (simp add: makePointerScanShards_def game_config_def)
qed

end
