(* ===== verification/Pointer_Build.thy ===== *)
theory Pointer_Build
  imports Pointer_Scan
begin

text \<open>
  Building the snapshot from a live process (\<^verbatim>\<open>buildPointerMap\<close> in
  \<^verbatim>\<open>src/src/scanner/pointer_scanner.cpp\<close>): every readable region is read in 64 MB windows that overlap
  by seven bytes, and each pointer-shaped value is recorded.  The GPU filter, cancellation and
  progress are not modelled; \<^verbatim>\<open>windowStart\<close> is a natural number.
\<close>

definition isInRange :: "u64 \<Rightarrow> MemoryRegion list \<Rightarrow> bool" where
  "isInRange addr regions = list_ex (\<lambda>r. r_base r \<le> addr \<and> addr < r_base r + r_size r) regions"

definition kPtrLow :: u64 where
  "kPtrLow = 0x10000"

definition kPtrHigh :: u64 where
  "kPtrHigh = 0x7fffffffffff"

definition kPtrReadWindow :: nat where
  "kPtrReadWindow = 64 * 1024 * 1024"

definition ptrStep :: "PointerScanConfig \<Rightarrow> nat" where
  "ptrStep cfg = (if sc_alignedOnly cfg then 8 else 1)"

definition ownedLen :: "PointerScanConfig \<Rightarrow> nat" where
  "ownedLen cfg = max (ptrStep cfg) (kPtrReadWindow div ptrStep cfg * ptrStep cfg)"

lemma ownedLen_value: "ownedLen cfg = 67108864" "0 < ownedLen cfg" "ptrStep cfg dvd ownedLen cfg" "0 < ptrStep cfg"
  by (auto simp: ownedLen_def ptrStep_def kPtrReadWindow_def)

text \<open>The offsets \<^verbatim>\<open>0, step, 2 * step, ...\<close> below a limit.\<close>

definition offsets_below :: "nat \<Rightarrow> nat \<Rightarrow> nat list" where
  "offsets_below step limit = map (\<lambda>i. i * step) [0..<(limit + step - 1) div step]"

definition pointer_shaped :: "MemoryRegion list \<Rightarrow> u64 \<Rightarrow> bool" where
  "pointer_shaped regions val \<longleftrightarrow> \<not> (val < kPtrLow \<or> val > kPtrHigh) \<and> isInRange val regions"

definition window_entries :: "PointerScanConfig \<Rightarrow> MemoryRegion list \<Rightarrow> u64 \<Rightarrow> bytes \<Rightarrow> ptr_entry list" where
  "window_entries cfg regions winBase buf =
     concat (map (\<lambda>offset.
         let val = le_val (take 8 (drop offset buf)) in
         if pointer_shaped regions val then [(val, winBase + of_nat offset)] else [])
       (offsets_below (ptrStep cfg) (length buf - 7)))"

function region_entries :: "'s process \<Rightarrow> 's \<Rightarrow> PointerScanConfig \<Rightarrow> MemoryRegion list \<Rightarrow> MemoryRegion \<Rightarrow> nat \<Rightarrow>
    ptr_entry list" where
  "region_entries P s cfg regions r windowStart =
     (if unat (r_size r) \<le> windowStart then []
      else
        let want = min (ownedLen cfg + 7) (unat (r_size r) - windowStart);
            winBase = r_base r + of_nat windowStart;
            here = (case pr_read P s winBase want of
                None \<Rightarrow> []
              | Some buf \<Rightarrow> if length buf < 8 then [] else window_entries cfg regions winBase buf)
        in here @ region_entries P s cfg regions r (windowStart + ownedLen cfg))"
  by pat_completeness auto

termination
  by (relation "measure (\<lambda>(P, s, cfg, regions, r, windowStart). unat (r_size r) - windowStart)")
    (simp_all add: ownedLen_value)

declare region_entries.simps [simp del]

definition process_entries :: "'s process \<Rightarrow> 's \<Rightarrow> PointerScanConfig \<Rightarrow> ptr_entry list" where
  "process_entries P s cfg =
     (let regions = pr_regions P s in
      concat (map (\<lambda>r. region_entries P s cfg regions r 0)
        (filter (\<lambda>r. prot_and (r_protection r) ProtRead) regions)))"

definition buildPointerMap :: "'s process \<Rightarrow> 's \<Rightarrow> PointerScanConfig \<Rightarrow> pointer_map" where
  "buildPointerMap P s cfg = make_map (pr_modules P s) (process_entries P s cfg)"


section \<open>The recorded entries\<close>

lemma set_offsets_below:
  assumes "0 < step"
  shows "set (offsets_below step limit) = {k. k < limit \<and> step dvd k}"
proof -
  have bound: "i < (limit + step - 1) div step \<longleftrightarrow> i * step < limit" for i
  proof -
    have "i < (limit + step - 1) div step \<longleftrightarrow> Suc i * step \<le> limit + step - 1"
      unfolding less_eq_Suc_le by (rule less_eq_div_iff_mult_less_eq[OF assms])
    also have "\<dots> \<longleftrightarrow> i * step < limit" using assms by auto
    finally show ?thesis .
  qed
  have "set (offsets_below step limit) = (\<lambda>i. i * step) ` {i. i * step < limit}"
    unfolding bound[symmetric] by (simp add: offsets_below_def atLeast0LessThan lessThan_def)
  also have "\<dots> = {k. k < limit \<and> step dvd k}"
    by (auto simp: dvd_def mult.commute)
  finally show ?thesis .
qed






text \<open>One window of a region, read from a memory.\<close>

definition window_read :: "memory \<Rightarrow> PointerScanConfig \<Rightarrow> MemoryRegion \<Rightarrow> nat \<Rightarrow> bytes" where
  "window_read m cfg r w =
     readable_prefix m (range_addrs (r_base r + of_nat w) (min (ownedLen cfg + 7) (unat (r_size r) - w)))"

lemma region_step:
  assumes "read_law P mem" "w < unat (r_size r)"
  shows "region_entries P s cfg regions r w =
    window_entries cfg regions (r_base r + of_nat w) (window_read (mem s) cfg r w) @
    region_entries P s cfg regions r (w + ownedLen cfg)"
proof -
  have short: "window_entries cfg regions b buf = []" if "length buf < 8" for b buf
    using that by (cases "sc_alignedOnly cfg") (simp_all add: window_entries_def offsets_below_def ptrStep_def)
  show ?thesis
    using assms short by (subst region_entries.simps) (auto simp: read_law_def window_read_def Let_def)
qed

lemma length_window_read:
  "length (window_read m cfg r w) - 7 \<le> ownedLen cfg"
  "w + (length (window_read m cfg r w) - 7) \<le> max w (unat (r_size r) - 7)"
proof -
  have "length (window_read m cfg r w) \<le> min (ownedLen cfg + 7) (unat (r_size r) - w)"
    unfolding window_read_def using prefix_slot[OF refl] by blast
  then show "length (window_read m cfg r w) - 7 \<le> ownedLen cfg"
    "w + (length (window_read m cfg r w) - 7) \<le> max w (unat (r_size r) - 7)" by auto
qed


lemma window_content:
  fixes m cfg r w
  defines "got \<equiv> window_read m cfg r w"
  shows "(v, a) \<in> set (window_entries cfg regions (r_base r + of_nat w) got) \<longleftrightarrow>
    (\<exists>j < length got - 7. ptrStep cfg dvd j \<and> a = r_base r + of_nat (w + j) \<and>
       slot_ok m a 8 \<and> v = le_val (slot_val m a 8) \<and> pointer_shaped regions v)"
proof -
  let ?h = "r_base r + of_nat w"
  have got: "got = readable_prefix m (range_addrs ?h (min (ownedLen cfg + 7) (unat (r_size r) - w)))"
    by (simp add: got_def window_read_def)
  have slot: "take 8 (drop j got) = slot_val m (?h + of_nat j) 8 \<and> slot_ok m (?h + of_nat j) 8"
    if "j < length got - 7" for j
  proof -
    have le: "j + 8 \<le> length got" using that by simp
    then have "readable m (?h + of_nat i)" if "i < j + 8" for i
      using prefix_slot[OF got] that by blast
    then have "readable m (?h + of_nat j + of_nat i)" if "i < 8" for i
    proof -
      have "j + i < j + 8" using that by simp
      then have "readable m (?h + of_nat (j + i))"
        using \<open>\<And>i. i < j + 8 \<Longrightarrow> readable m (?h + of_nat i)\<close> by blast
      then show ?thesis by (simp add: add.assoc)
    qed
    then have "slot_ok m (?h + of_nat j) 8" by (simp add: slot_ok_iff)
    with prefix_slot[OF got] le show ?thesis by blast
  qed
  have "set (window_entries cfg regions ?h got) =
      {(le_val (take 8 (drop j got)), ?h + of_nat j) | j. j < length got - 7 \<and> ptrStep cfg dvd j \<and>
         pointer_shaped regions (le_val (take 8 (drop j got)))}"
    by (auto simp: window_entries_def Let_def concat_map_if set_offsets_below ownedLen_value)
  note window = this
  have "(v, a) \<in> set (window_entries cfg regions ?h got) \<longleftrightarrow>
      (\<exists>j < length got - 7. ptrStep cfg dvd j \<and> a = ?h + of_nat j \<and> v = le_val (take 8 (drop j got)) \<and>
         pointer_shaped regions v)"
    unfolding window mem_Collect_eq prod.inject by (intro ex_cong1) auto
  also have "\<dots> \<longleftrightarrow> (\<exists>j < length got - 7. ptrStep cfg dvd j \<and> a = ?h + of_nat j \<and>
         slot_ok m a 8 \<and> v = le_val (slot_val m a 8) \<and> pointer_shaped regions v)"
    by (rule ex_cong1) (auto simp: slot)
  finally show ?thesis by (simp add: add.assoc)
qed

lemma read_u64_iff:
  "read_law P mem \<Longrightarrow> read_u64 P s a = Some v \<longleftrightarrow> slot_ok (mem s) a 8 \<and> v = le_val (slot_val (mem s) a 8)"
  by (auto simp: read_u64_def read_exact_iff)

lemma region_entries_sound:
  assumes "read_law P mem" "ptrStep cfg dvd w" "(v, a) \<in> set (region_entries P s cfg regions r w)"
  shows "\<exists>k. w \<le> k \<and> k + 8 \<le> unat (r_size r) \<and> ptrStep cfg dvd k \<and> a = r_base r + of_nat k \<and>
    read_u64 P s a = Some v \<and> pointer_shaped regions v"
  using assms
proof (induction P s cfg regions r w rule: region_entries.induct)
  case (1 P s cfg regions r w)
  show ?case
  proof (cases "w < unat (r_size r)")
    case False
    then show ?thesis using 1(4) by (simp add: region_entries.simps)
  next
    case True
    have next_window: "ptrStep cfg dvd w + ownedLen cfg" using 1(3) by (intro dvd_add ownedLen_value(3))
    from 1(4) consider
      "(v, a) \<in> set (window_entries cfg regions (r_base r + of_nat w) (window_read (mem s) cfg r w))"
      | "(v, a) \<in> set (region_entries P s cfg regions r (w + ownedLen cfg))"
      by (auto simp: region_step[OF 1(2) True])
    then show ?thesis
    proof cases
      case 1
      then obtain j where j: "j < length (window_read (mem s) cfg r w) - 7" "ptrStep cfg dvd j"
        "a = r_base r + of_nat (w + j)" "slot_ok (mem s) a 8" "v = le_val (slot_val (mem s) a 8)"
        "pointer_shaped regions v"
        unfolding window_content by blast
      moreover have "w + j + 8 \<le> unat (r_size r)"
        using j(1) length_window_read(2)[of w "mem s" cfg r] True by linarith
      ultimately show ?thesis
        using "1.prems"(1, 2) by (intro exI[of _ "w + j"]) (simp add: read_u64_iff)
    next
      case 2
      from "1.IH"[OF _ refl refl refl "1.prems"(1) next_window 2] True show ?thesis
        by (metis add_leD1 not_le)
    qed
  qed
qed

lemma region_entries_complete:
  assumes "read_law P mem" "\<forall>j < unat (r_size r). readable (mem s) (r_base r + of_nat j)"
    and "w \<le> k" "k + 8 \<le> unat (r_size r)" "ptrStep cfg dvd w" "ptrStep cfg dvd k"
    and "read_u64 P s (r_base r + of_nat k) = Some v" "pointer_shaped regions v"
  shows "(v, r_base r + of_nat k) \<in> set (region_entries P s cfg regions r w)"
  using assms
proof (induction P s cfg regions r w rule: region_entries.induct)
  case (1 P s cfg regions r w)
  have w: "w < unat (r_size r)" using "1.prems"(3, 4) by simp
  show ?case
  proof (cases "k < w + ownedLen cfg")
    case True
    let ?want = "min (ownedLen cfg + 7) (unat (r_size r) - w)"
    have "readable (mem s) (r_base r + of_nat w + of_nat j)" if "j < ?want" for j
      using "1.prems"(2) that by (metis add.assoc less_diff_conv min_less_iff_conj of_nat_add add.commute)
    then have "length (window_read (mem s) cfg r w) = ?want"
      using prefix_slot[OF refl] unfolding window_read_def by (metis order_antisym order_refl)
    then have "k - w < length (window_read (mem s) cfg r w) - 7"
      using True "1.prems"(3, 4) by simp
    then have "(v, r_base r + of_nat k) \<in>
        set (window_entries cfg regions (r_base r + of_nat w) (window_read (mem s) cfg r w))"
      unfolding window_content using "1.prems"
      by (intro exI[of _ "k - w"]) (simp add: read_u64_iff dvd_diff_nat)
    then show ?thesis by (simp add: region_step[OF "1.prems"(1) w])
  next
    case False
    have "(v, r_base r + of_nat k) \<in> set (region_entries P s cfg regions r (w + ownedLen cfg))"
      using False w "1.prems" ownedLen_value(3)[of cfg] by (intro "1.IH"[OF _ refl refl refl]) simp_all
    then show ?thesis by (simp add: region_step[OF "1.prems"(1) w])
  qed
qed

section \<open>What the map holds\<close>





lemma process_entries_sound:
  assumes "read_law P mem" "(v, a) \<in> set (process_entries P s cfg)"
  shows "\<exists>r \<in> set (pr_regions P s). prot_and (r_protection r) ProtRead \<and>
    (\<exists>k. k + 8 \<le> unat (r_size r) \<and> ptrStep cfg dvd k \<and> a = r_base r + of_nat k \<and>
      read_u64 P s a = Some v \<and> pointer_shaped (pr_regions P s) v)"
  using assms(2) region_entries_sound[OF assms(1), of cfg 0 v a s "pr_regions P s"]
  unfolding process_entries_def Let_def by fastforce

text \<open>
  C12: when the readable regions can be read throughout, the pointer map holds exactly the
  pointer-shaped words of these regions, each at its address: every aligned position, or every
  position in an unaligned scan, and none is lost at the boundary of two read windows.
\<close>

theorem buildPointerMap_spec:
  assumes "read_law P mem"
    and "\<forall>r \<in> set (pr_regions P s). prot_and (r_protection r) ProtRead \<longrightarrow>
      (\<forall>j < unat (r_size r). readable (mem s) (r_base r + of_nat j))"
  shows "(v, a) \<in> set (pm_byTarget (buildPointerMap P s cfg)) \<longleftrightarrow>
    (\<exists>r \<in> set (pr_regions P s). prot_and (r_protection r) ProtRead \<and>
      (\<exists>k. k + 8 \<le> unat (r_size r) \<and> ptrStep cfg dvd k \<and> a = r_base r + of_nat k \<and>
        read_u64 P s a = Some v \<and> pointer_shaped (pr_regions P s) v))"
    (is "_ \<longleftrightarrow> ?spec")
proof -
  have "(v, a) \<in> set (process_entries P s cfg)" if ?spec
  proof -
    from that obtain r k where "r \<in> set (pr_regions P s)" "prot_and (r_protection r) ProtRead"
      "k + 8 \<le> unat (r_size r)" "ptrStep cfg dvd k" "a = r_base r + of_nat k"
      "read_u64 P s a = Some v" "pointer_shaped (pr_regions P s) v" by blast
    moreover from this assms have "(v, a) \<in> set (region_entries P s cfg (pr_regions P s) r 0)"
      using region_entries_complete[OF assms(1), of r s 0 k cfg v "pr_regions P s"] by simp
    ultimately show ?thesis by (auto simp: process_entries_def Let_def)
  qed
  with process_entries_sound[OF assms(1)] show ?thesis by (auto simp: buildPointerMap_def)
qed


definition game_regions :: "MemoryRegion list" where
  "game_regions =
     [\<lparr>r_base = 0x400010, r_size = 8, r_protection = ProtRead, r_type = Private, r_state = Committed, r_path = []\<rparr>,
      \<lparr>r_base = 0x700000, r_size = 16, r_protection = 0, r_type = Private, r_state = Committed, r_path = []\<rparr>]"

abbreviation game_process :: "memory process" where
  "game_process \<equiv> flat_process game_regions [game_module]"




theorem buildPointerMap_spec_witness:
  "(0x700000, 0x400010) \<in> set (pm_byTarget (buildPointerMap game_process game_memory game_config))"
proof -
  have here: "read_u64 game_process game_memory 0x400010 = Some 0x700000"
    by (simp add: game_memory_def read_u64_stored)
  then have "slot_ok game_memory 0x400010 8" by (simp add: read_u64_iff[OF flat_process_laws(1)])
  then have "\<forall>r \<in> set game_regions. prot_and (r_protection r) ProtRead \<longrightarrow>
      (\<forall>j < unat (r_size r). readable game_memory (r_base r + of_nat j))"
    by (simp add: game_regions_def slot_ok_iff prot_and_def ProtRead_def)
  with here show ?thesis
    by (subst buildPointerMap_spec[OF flat_process_laws(1)])
      (auto simp: game_regions_def prot_and_def ProtRead_def pointer_shaped_def isInRange_def kPtrLow_def kPtrHigh_def
        intro: exI[of _ 0])
qed

end
