(* ===== verification/Pointer_Paths.thy ===== *)
theory Pointer_Paths
  imports Pointer_Build Expression "HOL-Library.List_Lexorder" "HOL-Library.Product_Lexorder"
begin

text \<open>
  The result sets of a pointer scan (\<^verbatim>\<open>src/src/scanner/pointer_scanner.cpp\<close>): the text of a path,
  the file format, the four rescans, sorting and merging.  \<^verbatim>\<open>std::sort\<close> may order equal keys in any
  way; the model takes the stable order.  The offset sum of a path is an unbounded integer here.
\<close>

section \<open>The text of a path\<close>

text \<open>\<^verbatim>\<open>snprintf\<close> into the 64-byte buffer, and a \<^verbatim>\<open>std::string\<close> passed as \<^verbatim>\<open>%s\<close>.\<close>

definition snprintf64 :: "string \<Rightarrow> string" where
  "snprintf64 s = take 63 s"

definition c_str :: "string \<Rightarrow> string" where
  "c_str s = takeWhile (\<lambda>c. c \<noteq> CHR 0x00) s"

definition off_text :: "32 word \<Rightarrow> string" where
  "off_text off =
     (if 0 \<le> sint off then ''+0x'' @ fmt_hex (unat off) else ''-0x'' @ fmt_hex (unat (- off)))"

definition toString :: "PointerPath \<Rightarrow> string" where
  "toString path =
     replicate (length (pp_offsets path)) (CHR 0x5B) @
     snprintf64 (c_str (pp_module path) @ ''+'' @ fmt_hex (unat (pp_baseOffset path))) @
     concat (map (\<lambda>off. CHR 0x5D # snprintf64 (off_text off)) (pp_offsets path))"

section \<open>The file of a result set\<close>

definition kPointerScanMagic :: bytes where
  "kPointerScanMagic = name_bytes ''PSCAN001''"

definition kPointerScanVersion :: u32 where
  "kPointerScanVersion = 1"

definition put_path :: "PointerPath \<Rightarrow> bytes" where
  "put_path p =
     put_u64 (pp_moduleBase p) @ put_u64 (pp_baseOffset p) @
     put_u32 (of_nat (length (pp_offsets p))) @ put_u32 (of_nat (length (pp_module p))) @
     take (unat (of_nat (length (pp_module p)) :: u32)) (name_bytes (pp_module p)) @
     take (4 * unat (of_nat (length (pp_offsets p)) :: u32)) (concat (map (le_bytes 4) (pp_offsets p)))"

definition savePointerPaths :: "PointerPath list \<Rightarrow> bytes" where
  "savePointerPaths paths =
     kPointerScanMagic @ put_u32 kPointerScanVersion @ put_u32 (of_nat (length paths)) @ put_array put_path paths"

definition words_of :: "nat \<Rightarrow> bytes \<Rightarrow> 32 word list" where
  "words_of n bs = map (\<lambda>i. le_val (take 4 (drop (4 * i) bs))) [0..<n]"

definition get_path :: "bytes \<Rightarrow> string + (PointerPath \<times> bytes)" where
  "get_path bs =
     (case get_u64 bs of None \<Rightarrow> Inl ''truncated record header'' | Some (base, bs) \<Rightarrow>
      case get_u64 bs of None \<Rightarrow> Inl ''truncated record header'' | Some (baseOff, bs) \<Rightarrow>
      case get_u32 bs of None \<Rightarrow> Inl ''truncated record header'' | Some (offCount, bs) \<Rightarrow>
      case get_u32 bs of None \<Rightarrow> Inl ''truncated record header'' | Some (nameLen, bs) \<Rightarrow>
      if 64 < unat offCount \<or> 2 ^ 16 < unat nameLen then Inl ''record fields out of range''
      else case take_bytes (unat nameLen) bs of None \<Rightarrow> Inl ''truncated module name'' | Some (name, bs) \<Rightarrow>
      case take_bytes (4 * unat offCount) bs of None \<Rightarrow> Inl ''truncated offset list'' | Some (offs, bs) \<Rightarrow>
        Inr (\<lparr>pp_module = bytes_name name, pp_moduleBase = base, pp_baseOffset = baseOff,
              pp_offsets = words_of (unat offCount) offs\<rparr>, bs))"

definition loadPointerPaths :: "bytes option \<Rightarrow> PointerPath list \<times> string option" where
  "loadPointerPaths file =
     (case file of
        None \<Rightarrow> ([], Some ''open failed'')
      | Some bs \<Rightarrow>
          (case take_bytes 8 bs of
             None \<Rightarrow> ([], Some ''bad magic'')
           | Some (magic, bs) \<Rightarrow>
               if magic \<noteq> kPointerScanMagic then ([], Some ''bad magic'')
               else case get_u32 bs of
                   None \<Rightarrow> ([], Some ''unsupported version'')
                 | Some (version, bs) \<Rightarrow>
                     if version \<noteq> kPointerScanVersion then ([], Some ''unsupported version'')
                     else (case get_u32 bs of
                         None \<Rightarrow> ([], Some ''truncated header'')
                       | Some (n, bs) \<Rightarrow>
                           if 2 ^ 28 < unat n then ([], Some ''path count too large'')
                           else case get_array get_path (unat n) bs of
                               (_, Inl e) \<Rightarrow> ([], Some e)
                             | (paths, Inr _) \<Rightarrow> (paths, None))))"

section \<open>Rescans, sorting, merging\<close>

definition rescanPointerPaths :: "'s process \<Rightarrow> 's \<Rightarrow> PointerPath list \<Rightarrow> u64 \<Rightarrow> PointerPath list" where
  "rescanPointerPaths P s paths newTarget =
     filter (\<lambda>p. dereference_with P s (pr_modules P s) p = newTarget) paths"

definition value_mask :: "nat \<Rightarrow> u64" where
  "value_mask valueSize = (if valueSize = 8 then NOT 0 else push_bit (valueSize * 8) 1 - 1)"

definition same_value :: "nat \<Rightarrow> u64 \<Rightarrow> bytes \<Rightarrow> bool" where
  "same_value valueSize expected bs \<longleftrightarrow>
     le_val bs AND value_mask valueSize = expected AND value_mask valueSize"

definition rescanPointerPathsByValue :: "'s process \<Rightarrow> 's \<Rightarrow> PointerPath list \<Rightarrow> u64 \<Rightarrow> nat \<Rightarrow> PointerPath list" where
  "rescanPointerPathsByValue P s paths expectedValue valueSize =
     (if valueSize = 0 \<or> 8 < valueSize then []
      else filter (\<lambda>p.
          let addr = dereference_with P s (pr_modules P s) p in
          if addr = 0 then False
          else case read_exact P s addr valueSize of
              None \<Rightarrow> False
            | Some bs \<Rightarrow> same_value valueSize expectedValue bs) paths)"

definition rescanPointerPathsWithMap :: "pointer_map \<Rightarrow> PointerPath list \<Rightarrow> u64 \<Rightarrow> PointerPath list" where
  "rescanPointerPathsWithMap pm paths newTarget = filter (\<lambda>p. resolve pm p = newTarget) paths"

text \<open>The batched read is the per-address loop of the interface.\<close>

definition rescanPointerPathsByValueWithMap ::
    "'s process \<Rightarrow> 's \<Rightarrow> pointer_map \<Rightarrow> PointerPath list \<Rightarrow> u64 \<Rightarrow> nat \<Rightarrow> PointerPath list" where
  "rescanPointerPathsByValueWithMap P s pm paths expectedValue valueSize =
     (if valueSize = 0 \<or> 8 < valueSize then []
      else
        let pathIdx = filter (\<lambda>i. resolve pm (paths ! i) \<noteq> 0) [0..<length paths];
            addrs = map (\<lambda>i. resolve pm (paths ! i)) pathIdx
        in if addrs = [] then []
           else
             let (out, okFlags) = readMany_default (pr_read P s) addrs valueSize
                   (replicate (length addrs * valueSize) 0, replicate (length addrs) False)
             in map (\<lambda>k. paths ! (pathIdx ! k))
                  (filter (\<lambda>k. okFlags ! k \<and> same_value valueSize expectedValue (slot valueSize k out))
                    [0..<length addrs]))"

datatype PointerSortKey = Depth | BaseOffset | OffsetSum | Module

definition offsetSum :: "PointerPath \<Rightarrow> int" where
  "offsetSum p = sum_list (map (\<lambda>o'. \<bar>sint o'\<bar>) (pp_offsets p))"

definition char_codes :: "string \<Rightarrow> nat list" where
  "char_codes s = map of_char s"

fun sortPointerPaths :: "PointerSortKey \<Rightarrow> PointerPath list \<Rightarrow> PointerPath list" where
  "sortPointerPaths Depth paths = sort_key (\<lambda>p. length (pp_offsets p)) paths"
| "sortPointerPaths BaseOffset paths = sort_key pp_baseOffset paths"
| "sortPointerPaths OffsetSum paths = sort_key offsetSum paths"
| "sortPointerPaths Module paths = sort_key (\<lambda>p. (char_codes (pp_module p), pp_baseOffset p)) paths"

definition sameAs :: "PointerPath \<Rightarrow> PointerPath \<Rightarrow> bool" where
  "sameAs x y \<longleftrightarrow> pp_module x = pp_module y \<and> pp_baseOffset x = pp_baseOffset y \<and> pp_offsets x = pp_offsets y"

fun merge_into :: "PointerPath list \<Rightarrow> PointerPath list \<Rightarrow> PointerPath list" where
  "merge_into out [] = out"
| "merge_into out (p # b) = merge_into (if list_ex (\<lambda>existing. sameAs existing p) out then out else out @ [p]) b"

definition mergePointerPaths :: "PointerPath list \<Rightarrow> PointerPath list \<Rightarrow> bool \<Rightarrow> PointerPath list" where
  "mergePointerPaths a b deduplicate = (if \<not> deduplicate then a @ b else merge_into a b)"

section \<open>The file is read back\<close>

definition storable_path :: "PointerPath \<Rightarrow> bool" where
  "storable_path p \<longleftrightarrow> length (pp_offsets p) \<le> 64 \<and> length (pp_module p) \<le> 2 ^ 16"

lemma words_of_bytes: "words_of (length ws) (concat (map (le_bytes 4) ws)) = ws"
proof (induction ws)
  case (Cons w ws)
  let ?r = "concat (map (le_bytes 4) ws)"
  have tail: "le_val (take 4 (drop (4 * Suc i) (le_bytes 4 w @ ?r))) = (le_val (take 4 (drop (4 * i) ?r)) :: 32 word)" for i
    by (simp add: drop_append)
  have "words_of (Suc (length ws)) (le_bytes 4 w @ ?r) = le_val (le_bytes 4 w) # words_of (length ws) ?r"
    unfolding words_of_def upt_conv_Cons[OF zero_less_Suc] map_Suc_upt[symmetric] list.map map_map comp_def tail
    by simp
  with Cons show ?case by (simp add: le_val_le_bytes_full)
qed (simp add: words_of_def)

interpretation path_file: record_codec put_path get_path storable_path
proof
  fix p :: PointerPath and rest
  assume p: "storable_path p"
  then have n: "unat (of_nat (length (pp_offsets p)) :: u32) = length (pp_offsets p)"
    "unat (of_nat (length (pp_module p)) :: u32) = length (pp_module p)"
    by (auto simp: storable_path_def intro!: unat_u32_of_nat)
  have len: "length (concat (map (le_bytes 4) ws)) = 4 * length ws" for ws :: "32 word list"
    by (induction ws) simp_all
  show "get_path (put_path p @ rest) = Inr (p, rest)"
    using p by (simp add: storable_path_def get_path_def put_path_def bytes_simps n len words_of_bytes del: concat_map_if)
qed

text \<open>
  a result set of at most 2^28 paths, each with at most 64 offsets and a module name of at most
  2^16 characters, is read back as it was saved.
\<close>

theorem pointer_paths_save_load:
  assumes "length paths \<le> 2 ^ 28" "list_all storable_path paths"
  shows "loadPointerPaths (Some (savePointerPaths paths)) = (paths, None)"
proof -
  have "unat (of_nat (length paths) :: u32) = length paths"
    using assms(1) by (intro unat_u32_of_nat) simp
  then show ?thesis
    using assms path_file.get_put_array[OF assms(2), of "[]"]
    by (simp add: loadPointerPaths_def savePointerPaths_def bytes_simps kPointerScanMagic_def)
qed

theorem pointer_paths_save_load_witness:
  "loadPointerPaths (Some (savePointerPaths [game_path])) = ([game_path], None)"
  by (rule pointer_paths_save_load) (simp_all add: storable_path_def game_path_def)

section \<open>The text of a path is an expression for its target\<close>

definition wrap :: "string \<Rightarrow> 32 word \<Rightarrow> string" where
  "wrap t off = CHR 0x5B # t @ CHR 0x5D # off_text off"

lemma foldl_wrap:
  "foldl wrap t offs = replicate (length offs) (CHR 0x5B) @ t @ concat (map (\<lambda>off. CHR 0x5D # off_text off) offs)"
proof (induction offs arbitrary: t)
  case (Cons off offs)
  show ?case
    unfolding foldl.simps Cons.IH by (simp add: wrap_def replicate_app_Cons_same)
qed simp

lemma sint_cases_u32: "sint (off :: u32) = (if uint off < 2 ^ 31 then uint off else uint off - 2 ^ 32)"
proof -
  have s: "sint off = (uint off + 2 ^ 31) mod 2 ^ 32 - 2 ^ 31"
    using int_word_sint[of "uint off", where 'a = 32] by simp
  have range: "0 \<le> uint off" "uint off < 2 ^ 32" using uint_range_size[of off] by (simp_all add: word_size)
  show ?thesis
  proof (cases "uint off < 2 ^ 31")
    case True
    then show ?thesis using range unfolding s by (simp add: mod_pos_pos_trivial)
  next
    case False
    have "(uint off + 2 ^ 31) mod 2 ^ 32 = (uint off + 2 ^ 31 - 2 ^ 32) mod 2 ^ 32" by (rule minus_mod_self2[symmetric])
    also have "\<dots> = uint off + 2 ^ 31 - 2 ^ 32" using False range by (intro mod_pos_pos_trivial) simp_all
    finally show ?thesis using False s by simp
  qed
qed

lemma unat_ucast_u64 [simp]: "unat (ucast (w :: u32) :: u64) = unat w"
proof -
  have "unat w < 2 ^ 64" using unat_u32_less[of w] by simp
  then show ?thesis by (simp add: unsigned_ucast_eq take_bit_nat_eq_self)
qed

lemma scast_of_sign:
  "scast (off :: u32) = (if 0 \<le> sint off then ucast off else - (ucast (- off)) :: u64)"
proof (cases "0 \<le> sint off")
  case True
  have "uint off < 2 ^ 32" using uint_range_size[of off] by (simp add: word_size)
  with True have "sint off = uint off" unfolding sint_cases_u32 by (cases "uint off < 2 ^ 31") simp_all
  then have "scast off = (ucast off :: u64)" by (simp only: scast_eq ucast_eq)
  with True show ?thesis by (simp only: if_True)
next
  case False
  then have u: "sint off = uint off - 2 ^ 32" "off \<noteq> 0"
    by (simp_all only: sint_cases_u32 split: if_splits) (use uint_ge_0[of off] in auto)
  have "uint (- off) = 2 ^ 32 - uint off"
  proof -
    have neg: "(word_of_int (2 ^ 32 - uint off) :: u32) = - off" by simp
    have "0 < uint off" "uint off < 2 ^ 32"
      using u(2) uint_range_size[of off] by (auto simp: uint_0_iff order_less_le word_size)
    then show ?thesis by (intro word_of_int_inverse[OF neg]) simp_all
  qed
  then have "(ucast (- off) :: u64) = word_of_int (2 ^ 32 - uint off)" by (simp only: ucast_eq)
  also have "\<dots> = - word_of_int (uint off - 2 ^ 32)" by simp
  finally show ?thesis using False by (simp only: scast_eq u(1) if_False minus_minus)
qed

lemma off_text_hex:
  "off_text off = (if 0 \<le> sint off then CHR ''+'' # hex_text (ucast off) else CHR ''-'' # hex_text (ucast (- off)))"
  by (simp add: off_text_def hex_text_def)

definition good_text :: "'s expr_env \<Rightarrow> string \<Rightarrow> u64 \<Rightarrow> nat \<Rightarrow> bool" where
  "good_text E t v k \<longleftrightarrow>
     (\<forall>k' \<ge> k. parseImpl k' E t = Some v) \<and> 0 < k \<and>
     (\<forall>d u. 0 < d \<longrightarrow> close_bracket d (t @ u) = map_option (\<lambda>i. length t + i) (close_bracket d u)) \<and>
     t \<noteq> [] \<and> \<not> is_blank (hd t) \<and> \<not> is_blank (last t)"

lemma good_wrap:
  assumes good: "good_text E t v k" and E: "xe_proc E = Some (P, s)" and ptr: "read_u64 P s v = Some ptr"
  shows "good_text E (wrap t off) (ptr + scast off) (Suc k)"
proof -
  define w where "w = (if 0 \<le> sint off then ucast off else ucast (- off) :: u64)"
  define c where "c = (if 0 \<le> sint off then CHR ''+'' else CHR ''-'')"
  have off: "off_text off = c # hex_text w" by (simp add: off_text_hex c_def w_def)
  have c: "is_op c" "\<not> is_blank c" "c \<noteq> CHR 0x5B" "c \<noteq> CHR 0x5D"
    by (auto simp: c_def is_op_def is_blank_def)
  have hex: "hex_text w \<noteq> []" "\<not> is_blank (last (hex_text w))"
    using plain_hex_text[of w] by (auto simp: hex_text_def list_all_iff plain_char_def dest!: bspec[OF _ last_in_set])
  let ?n = "length t"
  have close: "close_bracket 0 (wrap t off) = Some (Suc ?n)"
    using good by (simp add: wrap_def good_text_def)
  have ends: "wrap t off \<noteq> []" "\<not> is_blank (hd (wrap t off))" "\<not> is_blank (last (wrap t off))"
    using hex by (auto simp: wrap_def off is_blank_def)
  have trim: "trim_blank (wrap t off) = wrap t off" using ends by (intro trim_blank_id) simp
  have inner: "take (Suc ?n - 1) (drop 1 (wrap t off)) = t" by (simp add: wrap_def)
  have rest: "trim_blank (drop (Suc ?n + 1) (wrap t off)) = c # hex_text w"
    using hex c by (simp add: wrap_def off trim_blank_id)
  have start: "wrap t off ! 0 = CHR 0x5B" by (simp add: wrap_def)
  have ptr_value: "deref_rest (parseImpl k' E) ptr (c # hex_text w) = Some (ptr + scast off)" if "k \<le> k'" for k'
  proof -
    have "0 < k'" using good that by (simp add: good_text_def)
    then obtain j where "k' = Suc j" by (cases k') auto
    then have "parseImpl k' E (hex_text w) = Some w" by (simp only: parse_hex_text)
    then show ?thesis
      by (auto simp: deref_rest_def c_def w_def scast_of_sign)
  qed
  have "parseImpl k' E (wrap t off) = Some (ptr + scast off)" if "Suc k \<le> k'" for k'
  proof -
    from Suc_le_D[OF that] obtain j where "k' = Suc j" by blast
    with that have j: "k' = Suc j" "k \<le> j" by simp_all
    then have "parseImpl j E t = Some v" using good by (simp add: good_text_def)
    with j ends show ?thesis
      unfolding j(1) parseImpl.simps trim close Let_def inner rest start
      by (simp add: close inner[simplified] rest[simplified] E ptr ptr_value)
  qed
  moreover have "close_bracket d (wrap t off @ u) = map_option (\<lambda>i. length (wrap t off) + i) (close_bracket d u)"
    if "0 < d" for d u
  proof -
    have "close_bracket d (c # hex_text w @ u) = map_option (\<lambda>i. Suc (length (hex_text w) + i)) (close_bracket d u)"
      using c by (simp add: close_plain[OF plain_hex_text] option.map_comp o_def)
    then show ?thesis
      using good that by (cases "close_bracket d u") (simp_all add: wrap_def off good_text_def)
  qed
  ultimately show ?thesis using ends by (simp add: good_text_def)
qed

lemma parse_links:
  assumes "xe_proc E = Some (P, s)"
  shows "good_text E t v k \<Longrightarrow> deref_links P s v offs \<noteq> 0 \<Longrightarrow>
    good_text E (foldl wrap t offs) (deref_links P s v offs) (k + length offs)"
proof (induction offs arbitrary: t v k)
  case (Cons off offs)
  then obtain ptr where ptr: "read_u64 P s v = Some ptr" "ptr \<noteq> 0"
    by (auto split: option.splits if_splits)
  with Cons.IH[OF good_wrap[OF Cons.prems(1) assms ptr(1), of off]] Cons.prems(2) show ?case by simp
qed simp

text \<open>
  A base offset the parser reads as a number: a digit, at least two hexadecimal digits, or a hexadecimal
  letter that names neither a symbol nor a module.
\<close>

definition numeric_offset :: "'s expr_env \<Rightarrow> u64 \<Rightarrow> bool" where
  "numeric_offset E w \<longleftrightarrow> unat w < 10 \<or> 16 \<le> unat w \<or>
     (case xe_resolver E of None \<Rightarrow> True | Some lookup \<Rightarrow> lookup (fmt_hex (unat w)) = 0) \<and>
     (\<forall>m \<in> set (env_modules E). m_name m \<noteq> fmt_hex (unat w))"

lemma plain_fmt_hex: "list_all plain_char (fmt_hex n)"
  using fmt_hex_set[of _ n] plain_hex_lower by (auto simp: list_all_iff)

lemma resolve_fmt_hex:
  assumes "numeric_offset E w"
  shows "resolveToken E (fmt_hex (unat w)) = w"
proof -
  let ?s = "fmt_hex (unat w)"
  have hex: "list_all is_xdigit ?s" by (auto simp: list_all_iff dest!: fmt_hex_set)
  have num: "2 \<le> length ?s \<or> list_all is_digit ?s" if "unat w < 10 \<or> 16 \<le> unat w"
  proof (cases "unat w < 10")
    case True
    then have "?s = [hex_lower (unat w)]" by (simp add: fmt_hex_def nat_digits_small)
    moreover have "is_digit (hex_lower (unat w))"
    proof -
      have "unat w \<in> {0, 1, 2, 3, 4, 5, 6, 7, 8, 9}" using True by auto
      then show ?thesis by (auto simp: hex_lower_def is_digit_def char_code_def)
    qed
    ultimately show ?thesis by simp
  next
    case False
    then have "nat_digits 16 (unat w) = nat_digits 16 (unat w div 16) @ [unat w mod 16]"
      using that by (subst nat_digits.simps) simp
    then show ?thesis by (cases "nat_digits 16 (unat w div 16)") (auto simp: fmt_hex_def)
  qed
  have "?s ! 0 \<noteq> CHR ''#''"
  proof -
    obtain d ds where "?s = hex_lower d # ds" "d < 16" using fmt_hex_Cons by blast
    then show ?thesis using less_16_cases[of d] by (auto simp: hex_lower_def)
  qed
  moreover have "\<not> (2 < length ?s \<and> ?s ! 0 = CHR ''0'' \<and> (?s ! 1 = CHR ''x'' \<or> ?s ! 1 = CHR ''X''))"
  proof
    assume x: "2 < length ?s \<and> ?s ! 0 = CHR ''0'' \<and> (?s ! 1 = CHR ''x'' \<or> ?s ! 1 = CHR ''X'')"
    then have "is_xdigit (?s ! 1)" using hex by (auto simp: list_all_length)
    with x show False by (auto simp: is_xdigit_def digit_val_def char_code_def)
  qed
  moreover have "find (\<lambda>m. m_name m = ?s) (env_modules E) = None" if "\<forall>m \<in> set (env_modules E). m_name m \<noteq> ?s"
    using that by (simp add: find_None_iff)
  ultimately show ?thesis
    using hex num stoull_hex[OF unat_u64_less, of w] assms
    by (auto simp: numeric_offset_def resolveToken_def or_zero_def Let_def split: option.splits)
qed

lemma toString_chain:
  assumes "CHR 0x00 \<notin> set (pp_module path)"
    and "length (pp_module path) + length (fmt_hex (unat (pp_baseOffset path))) \<le> 62"
  shows "toString path =
    foldl wrap (pp_module path @ CHR ''+'' # fmt_hex (unat (pp_baseOffset path))) (pp_offsets path)"
proof -
  have hex8: "length (fmt_hex (unat v)) \<le> 8" for v :: u32
    using nat_digits_length[of "unat v" 16 8] unat_u32_less[of v] by (simp add: fmt_hex_def)
  have "length (off_text off) \<le> 63" for off
    using order_trans[OF hex8[of off], of 60] order_trans[OF hex8[of "- off"], of 60] by (simp add: off_text_def)
  then have "snprintf64 (off_text off) = off_text off" for off by (simp add: snprintf64_def)
  moreover have "c_str (pp_module path) = pp_module path"
    using assms(1) unfolding c_str_def by (subst takeWhile_eq_all_conv) auto
  ultimately show ?thesis
    using assms(2) by (simp add: toString_def foldl_wrap) (simp add: snprintf64_def)
qed

text \<open>
  C9: the text shown for a pointer path is an expression that the parser evaluates to the address
  the path leads to, for a path that can be dereferenced, has at most 64 offsets and whose text fits the
  buffer.  The name of its module is read as that module (\<open>module_token\<close>; it may hold \<open>+\<close>, but no
  closing bracket and no NUL), no module of the process is itself named like the text of name and base offset, and
  a base offset of one hexadecimal letter names no symbol or module (\<open>numeric_offset\<close>).
\<close>

theorem parse_toString:
  assumes E: "xe_proc E = Some (P, s)" and deref: "dereference P s path \<noteq> 0"
    and m: "module_token E m" "pp_module path = m_name m" "CHR 0x5D \<notin> set (m_name m)" "CHR 0x00 \<notin> set (m_name m)"
    and plus: "\<forall>x \<in> set (env_modules E). m_name x \<noteq> m_name m @ CHR ''+'' # fmt_hex (unat (pp_baseOffset path))"
    and fits: "length (m_name m) + length (fmt_hex (unat (pp_baseOffset path))) \<le> 62"
    and num: "numeric_offset E (pp_baseOffset path)" and deep: "length (pp_offsets path) \<le> 64"
  shows "parse E (toString path) = Some (dereference P s path)"
proof -
  let ?h = "fmt_hex (unat (pp_baseOffset path))"
  let ?t = "m_name m @ CHR ''+'' # ?h"
  have found: "find (\<lambda>x. m_name x = m_name m) (pr_modules P s) = Some m"
    and name: "m_name m \<noteq> []" "\<not> is_blank (hd (m_name m))" "CHR 0x5B \<notin> set (m_name m)"
    using m(1) E by (simp_all add: module_token_def env_modules_def Let_def)
  then have base: "module_base (pr_modules P s) (pp_module path) = m_base m"
    by (simp add: module_base_def m(2))
  have here: "dereference P s path = deref_links P s (m_base m + pp_baseOffset path) (pp_offsets path)"
    using deref base by (auto simp: dereference_def dereference_with_def Let_def split: if_splits)
  have good: "good_text E ?t (m_base m + pp_baseOffset path) 1"
    unfolding good_text_def
  proof (intro conjI allI impI)
    fix k :: nat assume "1 \<le> k"
    then obtain j where j: "k = Suc j" by (cases k) auto
    show "parseImpl k E ?t = Some (m_base m + pp_baseOffset path)"
      unfolding j using parse_module_plus[OF m(1) plus plain_fmt_hex] resolve_fmt_hex[OF num] by simp
  next
    have pass: "close_bracket d (m_name m @ r) = map_option (\<lambda>i. length (m_name m) + i) (close_bracket d r)" for d r
      using name(3) m(3) by (rule close_bracket_pass)
    show "close_bracket d (?t @ u) = map_option (\<lambda>i. length ?t + i) (close_bracket d u)" if "0 < d" for d u
      by (simp add: pass close_plain[OF plain_fmt_hex] option.map_comp o_def add.assoc)
  next
    show "\<not> is_blank (last ?t)"
      using plain_fmt_hex[of "unat (pp_baseOffset path)"] by (auto simp: list_all_iff plain_char_def)
  qed (use name in simp_all)
  have "good_text E (foldl wrap ?t (pp_offsets path)) (dereference P s path) (1 + length (pp_offsets path))"
    using parse_links[OF E good] deref here by simp
  then have "parseImpl 65 E (foldl wrap ?t (pp_offsets path)) = Some (dereference P s path)"
    using deep by (simp add: good_text_def)
  then show ?thesis
    using toString_chain[of path] m(2, 4) fits by (simp add: parse_def del: parseImpl.simps)
qed

definition game_env :: "memory expr_env" where
  "game_env = \<lparr>xe_proc = Some (game_process, game_memory), xe_resolver = None\<rparr>"

lemma game_dereference: "dereference game_process game_memory game_path = 0x700008"
proof -
  have "read_u64 game_process game_memory 0x400010 = Some 0x700000"
    by (simp add: game_memory_def read_u64_stored)
  then show ?thesis
    by (simp add: dereference_def dereference_with_def module_base_def game_path_def game_module_def)
qed

theorem parse_toString_witness:
  "toString game_path = ''[game+10]+0x8'' \<and> parse game_env ''[game+10]+0x8'' = Some 0x700008"
proof -
  have t: "toString game_path = ''[game+10]+0x8''" by code_simp
  have fh: "fmt_hex (unat (pp_baseOffset game_path)) = ''10''" by code_simp
  have mods: "env_modules game_env = [game_module]" by (simp add: env_modules_def game_env_def)
  have "module_token game_env game_module"
    unfolding module_token_def mods
    by (simp add: game_module_def game_env_def is_blank_def is_xdigit_def digit_val_def char_code_def Let_def)
  then have "parse game_env (toString game_path) = Some (dereference game_process game_memory game_path)"
    by (rule parse_toString[rotated 2])
      (simp_all add: game_dereference mods fh, simp_all add: game_env_def game_path_def game_module_def numeric_offset_def)
  with t show ?thesis by (simp add: game_dereference)
qed

text \<open>
  A module name of 63 or more characters fills the buffer: the text no longer shows the base
  offset, so paths that differ in it look alike.
\<close>

lemma toString_long_name:
  assumes "63 \<le> length (c_str (pp_module path))"
  shows "toString (path\<lparr>pp_baseOffset := w\<rparr>) = toString path"
  using assms by (simp add: toString_def snprintf64_def)

section \<open>The rescans agree\<close>

lemma nth_filter_index: "map ((!) xs) (filter (\<lambda>k. g (xs ! k)) [0..<length xs]) = filter g xs"
proof -
  have "map ((!) xs) (filter (\<lambda>k. g (xs ! k)) [0..<length xs]) = filter g (map ((!) xs) [0..<length xs])"
    by (simp add: filter_map comp_def)
  then show ?thesis by (simp only: map_nth)
qed

text \<open>The batched read under the law of single reads.\<close>

lemma readMany_default_delivers:
  assumes "read_law P mem" "0 < n" "j < length addrs" "length out = length addrs * n" "length ok = length addrs"
  shows "delivered (mem s) addrs n (readMany_default (pr_read P s) addrs n (out, ok)) j"
proof -
  define rv where "rv iovs = (let got = readable_prefix (mem s) (iov_addrs iovs) in
      if got = [] \<and> iov_addrs iovs \<noteq> [] then None else Some got)" for iovs
  have law: "readv_law (mem s) rv" by (simp add: readv_law_def rv_def)
  have "pr_read P s = linux_read rv"
    using assms(1) by (intro ext) (simp add: linux_read_law[OF law] read_law_def)
  then show ?thesis
    using readMany_loop_delivers[OF law assms(2) _ assms(4, 5), of 0] assms(3)
    by (simp add: readMany_default_def Let_def)
qed

text \<open>
  C36: the rescan by value over a pointer map keeps the same paths, in the same order, as the rescan
  that dereferences every path in the process, when the map resolves each path as the process does.
\<close>

theorem rescan_by_value_agrees:
  assumes law: "read_law P mem"
    and res: "\<forall>p \<in> set paths. resolve pm p = dereference_with P s (pr_modules P s) p"
  shows "rescanPointerPathsByValueWithMap P s pm paths v n = rescanPointerPathsByValue P s paths v n"
proof (cases "n = 0 \<or> 8 < n")
  case False
  then have n: "0 < n" by simp
  define idx where "idx = filter (\<lambda>i. resolve pm (paths ! i) \<noteq> 0) [0..<length paths]"
  define ps where "ps = map ((!) paths) idx"
  define addrs where "addrs = map (resolve pm) ps"
  define r where "r = readMany_default (pr_read P s) addrs n (replicate (length addrs * n) 0, replicate (length addrs) False)"
  define hit where "hit p = (case read_exact P s (resolve pm p) n of None \<Rightarrow> False | Some bs \<Rightarrow> same_value n v bs)" for p
  have ps: "ps = filter (\<lambda>p. resolve pm p \<noteq> 0) paths"
    unfolding ps_def idx_def by (rule nth_filter_index)
  have addrs: "map (\<lambda>i. resolve pm (paths ! i)) idx = addrs" by (simp add: addrs_def ps_def)
  have len: "length addrs = length ps" "length idx = length ps" by (simp_all add: addrs_def ps_def)
  have flag: "(snd r ! k \<and> same_value n v (slot n k (fst r))) = hit (ps ! k)" if "k < length ps" for k
  proof -
    have "delivered (mem s) addrs n r k"
      unfolding r_def using that len by (intro readMany_default_delivers[OF law n]) simp_all
    moreover have "addrs ! k = resolve pm (ps ! k)" using that by (simp add: addrs_def)
    ultimately show ?thesis by (auto simp: delivered_def hit_def read_exact_eq[OF law])
  qed
  have "rescanPointerPathsByValueWithMap P s pm paths v n =
      map (\<lambda>k. paths ! (idx ! k)) (filter (\<lambda>k. snd r ! k \<and> same_value n v (slot n k (fst r))) [0..<length ps])"
    unfolding rescanPointerPathsByValueWithMap_def if_not_P[OF False] Let_def idx_def[symmetric] addrs r_def[symmetric]
    by (cases "ps = []") (simp_all add: case_prod_beta len addrs_def)
  also have "\<dots> = map (\<lambda>k. ps ! k) (filter (\<lambda>k. hit (ps ! k)) [0..<length ps])"
  proof (rule map_cong)
    show "filter (\<lambda>k. snd r ! k \<and> same_value n v (slot n k (fst r))) [0..<length ps] =
        filter (\<lambda>k. hit (ps ! k)) [0..<length ps]"
      by (rule filter_cong[OF refl], rule flag) simp
    show "paths ! (idx ! k) = ps ! k" if "k \<in> set (filter (\<lambda>k. hit (ps ! k)) [0..<length ps])" for k
    proof -
      have "k < length idx" using that len(2) by (metis atLeastLessThan_iff filter_is_subset set_upt subsetD)
      then show ?thesis by (simp add: ps_def)
    qed
  qed
  also have "\<dots> = filter hit ps" by (rule nth_filter_index)
  also have "\<dots> = rescanPointerPathsByValue P s paths v n"
    unfolding ps filter_filter rescanPointerPathsByValue_def if_not_P[OF False]
    by (rule filter_cong[OF refl]) (simp add: hit_def Let_def bspec[OF res])
  finally show ?thesis .
qed (auto simp: rescanPointerPathsByValueWithMap_def rescanPointerPathsByValue_def)

theorem rescan_by_value_agrees_witness:
  "rescanPointerPathsByValueWithMap game_process game_memory (make_map [game_module] [(0x700000, 0x400010)])
     [game_path] 5 4 = rescanPointerPathsByValue game_process game_memory [game_path] 5 4"
  using game_dereference
  by (intro rescan_by_value_agrees[OF flat_process_laws(1)]) (simp add: game_resolve dereference_def)

section \<open>Merging\<close>

lemma sameAs_refl [simp]: "sameAs p p"
  by (simp add: sameAs_def)

lemma merge_into_spec:
  "\<exists>ys. merge_into out b = out @ ys \<and> set ys \<subseteq> set b \<and> (\<forall>p \<in> set b. \<exists>q \<in> set (out @ ys). sameAs q p) \<and>
     (\<forall>q \<in> set out. \<forall>p \<in> set ys. \<not> sameAs q p) \<and> sorted_wrt (\<lambda>q p. \<not> sameAs q p) ys"
proof (induction b arbitrary: out)
  case (Cons p b)
  show ?case
  proof (cases "list_ex (\<lambda>existing. sameAs existing p) out")
    case True
    obtain ys where "merge_into out b = out @ ys" "set ys \<subseteq> set b" "\<forall>p \<in> set b. \<exists>q \<in> set (out @ ys). sameAs q p"
      "\<forall>q \<in> set out. \<forall>p \<in> set ys. \<not> sameAs q p" "sorted_wrt (\<lambda>q p. \<not> sameAs q p) ys"
      using Cons.IH[of out] by blast
    with True show ?thesis by (intro exI[of _ ys]) (auto simp: list_ex_iff)
  next
    case False
    obtain ys where "merge_into (out @ [p]) b = (out @ [p]) @ ys" "set ys \<subseteq> set b"
      "\<forall>x \<in> set b. \<exists>q \<in> set ((out @ [p]) @ ys). sameAs q x"
      "\<forall>q \<in> set (out @ [p]). \<forall>x \<in> set ys. \<not> sameAs q x" "sorted_wrt (\<lambda>q p. \<not> sameAs q p) ys"
      using Cons.IH[of "out @ [p]"] by blast
    with False show ?thesis by (intro exI[of _ "p # ys"]) (auto simp: list_ex_iff)
  qed
qed simp

text \<open>
  merging two result sets keeps the first as it is and appends paths of the second, so that
  every path of both is represented and no appended path repeats an earlier one.
\<close>

theorem mergePointerPaths_spec:
  "\<exists>ys. mergePointerPaths a b True = a @ ys \<and> set ys \<subseteq> set b \<and>
     (\<forall>p \<in> set b. \<exists>q \<in> set (a @ ys). sameAs q p) \<and>
     (\<forall>q \<in> set a. \<forall>p \<in> set ys. \<not> sameAs q p) \<and> sorted_wrt (\<lambda>q p. \<not> sameAs q p) ys"
  using merge_into_spec[of a b] by (simp add: mergePointerPaths_def)

theorem mergePointerPaths_spec_witness:
  "mergePointerPaths [game_path] [game_path] True = [game_path]"
proof -
  obtain ys where ys: "mergePointerPaths [game_path] [game_path] True = [game_path] @ ys" "set ys \<subseteq> set [game_path]"
    "\<forall>q \<in> set [game_path]. \<forall>p \<in> set ys. \<not> sameAs q p"
    using mergePointerPaths_spec[of "[game_path]" "[game_path]"] by blast
  then have "ys = []" by (cases ys) auto
  with ys show ?thesis by simp
qed

end
