(* ===== verification/Gdb_Remote.thy ===== *)
theory Gdb_Remote
  imports Text_Format
begin

text \<open>
  The GDB remote protocol client (\<^verbatim>\<open>src/src/debug/gdb_remote.cpp\<close>): packet framing and checksum,
  the escape and run-length decoding of a response, and the two commands built on them.  The socket
  is a record of the bytes still to be received and the bytes sent; receiving past the end is the
  failure of \<^verbatim>\<open>recv\<close>.  \<^verbatim>\<open>send\<close> is a parameter: it gives the number of bytes accepted, not
  positive for a failure.  A \<^verbatim>\<open>char\<close> is a character, its code below 256; \<^verbatim>\<open>strerror\<close> texts are
  left out of the error messages.  Connecting to a host is not modelled.
\<close>

type_synonym sender = "string \<Rightarrow> string \<Rightarrow> int"

record gdb_conn =
  gd_open :: bool
  gd_in :: string
  gd_out :: string

definition kMaxRawPayload :: nat where
  "kMaxRawPayload = 2 ^ 20"

definition kMaxDecoded :: nat where
  "kMaxDecoded = 16 * 2 ^ 20"

definition packetChecksum :: "string \<Rightarrow> u8" where
  "packetChecksum payload = foldl (\<lambda>sum c. sum + of_nat (char_code c)) 0 payload"

definition hexValue :: "char \<Rightarrow> int" where
  "hexValue c =
     (let k = char_code c in
      if 48 \<le> k \<and> k \<le> 57 then int k - 48
      else if 97 \<le> k \<and> k \<le> 102 then int k - 97 + 10
      else if 65 \<le> k \<and> k \<le> 70 then int k - 65 + 10
      else -1)"

text \<open>\<^verbatim>\<open>static_cast<uint8_t>((hi << 4) | lo)\<close>.\<close>

definition hex_byte :: "int \<Rightarrow> int \<Rightarrow> u8" where
  "hex_byte hi lo = word_of_int (push_bit 4 hi OR lo)"

section \<open>Sending\<close>

function sendAll :: "sender \<Rightarrow> gdb_conn \<Rightarrow> string \<Rightarrow> nat \<Rightarrow> gdb_conn \<times> bool" where
  "sendAll tx c data sent =
     (if sent < length data then
        let n = tx (gd_out c) (drop sent data) in
        if n \<le> 0 then (c, False)
        else sendAll tx (c\<lparr>gd_out := gd_out c @ take (nat n) (drop sent data)\<rparr>) data (sent + nat n)
      else (c, True))"
  by pat_completeness auto
termination by (relation "measure (\<lambda>(tx, c, data, sent). length data - sent)") auto

declare sendAll.simps [simp del]

section \<open>Receiving a packet\<close>

fun skip_to_dollar :: "string \<Rightarrow> string option" where
  "skip_to_dollar [] = None"
| "skip_to_dollar (c # cs) = (if c = CHR ''$'' then Some cs else skip_to_dollar cs)"

fun read_raw :: "string \<Rightarrow> nat \<Rightarrow> string + (string \<times> string)" where
  "read_raw [] have_n = Inl ''recv''"
| "read_raw (c # cs) have_n =
     (if c = CHR ''#'' then Inr ([], cs)
      else if kMaxRawPayload \<le> have_n then Inl ''packet exceeds maximum size''
      else case read_raw cs (Suc have_n) of Inl e \<Rightarrow> Inl e | Inr (raw, rest) \<Rightarrow> Inr (c # raw, rest))"

definition escape_char :: "char \<Rightarrow> char" where
  "escape_char c = char_of (char_code c XOR 0x20)"

fun decode_packet :: "string \<Rightarrow> string \<Rightarrow> string + string" where
  "decode_packet payload [] = Inr payload"
| "decode_packet payload (ch # cs) =
     (if ch = CHR ''}'' then
        (case cs of
           [] \<Rightarrow> Inl ''truncated escape in packet''
         | e # cs' \<Rightarrow>
             if kMaxDecoded \<le> length payload then Inl ''decoded packet exceeds maximum size''
             else decode_packet (payload @ [escape_char e]) cs')
      else if ch = CHR ''*'' then
        (case cs of
           [] \<Rightarrow> Inl ''invalid run-length encoding in packet''
         | k # cs' \<Rightarrow>
             if payload = [] then Inl ''invalid run-length encoding in packet''
             else
               let repeat = int (char_code k) - 29 in
               if repeat < 0 then Inl ''invalid run-length count in packet''
               else if kMaxDecoded < length payload + nat repeat then Inl ''decoded packet exceeds maximum size''
               else decode_packet (payload @ replicate (nat repeat) (last payload)) cs')
      else if kMaxDecoded \<le> length payload then Inl ''decoded packet exceeds maximum size''
      else decode_packet (payload @ [ch]) cs)"

definition readPacket :: "sender \<Rightarrow> gdb_conn \<Rightarrow> gdb_conn \<times> (string + string)" where
  "readPacket tx c =
     (case skip_to_dollar (gd_in c) of
        None \<Rightarrow> (c\<lparr>gd_in := []\<rparr>, Inl ''recv'')
      | Some bytes \<Rightarrow>
          (case read_raw bytes 0 of
             Inl e \<Rightarrow> (c\<lparr>gd_in := (if e = ''recv'' then [] else drop (Suc kMaxRawPayload) bytes)\<rparr>, Inl e)
           | Inr (raw, rest) \<Rightarrow>
               if length rest < 2 then (c\<lparr>gd_in := []\<rparr>, Inl ''recv checksum'')
               else
                 let c = c\<lparr>gd_in := drop 2 rest\<rparr>; hi = hexValue (rest ! 0); lo = hexValue (rest ! 1) in
                 if hi < 0 \<or> lo < 0 then (c, Inl ''invalid packet checksum'')
                 else if hex_byte hi lo \<noteq> packetChecksum raw then (c, Inl ''packet checksum mismatch'')
                 else case decode_packet [] raw of
                     Inl e \<Rightarrow> (c, Inl e)
                   | Inr payload \<Rightarrow>
                       (case sendAll tx c ''+'' 0 of
                          (c, False) \<Rightarrow> (c, Inl ''send'')
                        | (c, True) \<Rightarrow> (c, Inr payload))))"

section \<open>Commands\<close>

definition frame :: "string \<Rightarrow> string" where
  "frame payload = CHR ''$'' # payload @ CHR ''#'' # fmt_02x (packetChecksum payload)"

definition sendPacket :: "sender \<Rightarrow> gdb_conn \<Rightarrow> string \<Rightarrow> gdb_conn \<times> (string + string)" where
  "sendPacket tx c payload =
     (if \<not> gd_open c then (c, Inl ''not connected'')
      else case sendAll tx c (frame payload) 0 of
          (c, False) \<Rightarrow> (c, Inl ''send'')
        | (c, True) \<Rightarrow>
            (case gd_in c of
               [] \<Rightarrow> (c, Inl ''recv ack'')
             | ack # rest \<Rightarrow>
                 if ack \<noteq> CHR ''+'' then (c\<lparr>gd_in := rest\<rparr>, Inl ''GDB stub did not acknowledge packet'')
                 else case readPacket tx (c\<lparr>gd_in := rest\<rparr>) of
                     (c, Inl e) \<Rightarrow> (c, Inl e)
                   | (c, Inr response) \<Rightarrow>
                       if response \<noteq> [] \<and> hd response = CHR ''E''
                       then (c, Inl (''GDB error response: '' @ response))
                       else (c, Inr response)))"

definition readRegisters :: "sender \<Rightarrow> gdb_conn \<Rightarrow> gdb_conn \<times> (string + string)" where
  "readRegisters tx c = sendPacket tx c ''g''"

fun hex_pairs :: "string \<Rightarrow> string + bytes" where
  "hex_pairs (a # b # cs) =
     (let hi = hexValue a; lo = hexValue b in
      if hi < 0 \<or> lo < 0 then Inl ''memory response contains non-hex data''
      else case hex_pairs cs of Inl e \<Rightarrow> Inl e | Inr bs \<Rightarrow> Inr (hex_byte hi lo # bs))"
| "hex_pairs _ = Inr []"

definition memory_command :: "u64 \<Rightarrow> nat \<Rightarrow> string" where
  "memory_command address nbytes = take 63 (CHR ''m'' # fmt_hex (unat address) @ CHR '','' # fmt_hex nbytes)"

definition readMemory :: "sender \<Rightarrow> gdb_conn \<Rightarrow> u64 \<Rightarrow> nat \<Rightarrow> gdb_conn \<times> (string + bytes)" where
  "readMemory tx c address nbytes =
     (case sendPacket tx c (memory_command address nbytes) of
        (c, Inl e) \<Rightarrow> (c, Inl e)
      | (c, Inr response) \<Rightarrow>
          if odd (length response) then (c, Inl ''memory response has odd hex length'')
          else (c, hex_pairs response))"

section \<open>The encodings a stub may use\<close>

text \<open>
  \<open>wire payload raw\<close>: \<open>raw\<close> is an encoding of \<open>payload\<close> under the rules of the protocol: plain
  characters, escaped characters, and runs of the last character.
\<close>

inductive wire :: "string \<Rightarrow> string \<Rightarrow> bool" where
  wire_empty: "wire [] []"
| wire_plain: "wire p r \<Longrightarrow> c \<noteq> CHR ''}'' \<Longrightarrow> c \<noteq> CHR ''*'' \<Longrightarrow> wire (p @ [c]) (r @ [c])"
| wire_escape: "wire p r \<Longrightarrow> wire (p @ [c]) (r @ [CHR ''}'', escape_char c])"
| wire_run: "wire p r \<Longrightarrow> p \<noteq> [] \<Longrightarrow> n + 29 < 256 \<Longrightarrow>
    wire (p @ replicate n (last p)) (r @ [CHR ''*'', char_of (n + 29)])"

lemma escape_escape [simp]: "escape_char (escape_char c) = c"
proof -
  have k: "take_bit 8 (char_code c) = char_code c"
    by (simp add: char_code_def take_bit_eq_mod)
  have "char_code (escape_char c) = take_bit 8 (char_code c XOR 0x20)"
    by (simp add: escape_char_def char_code_def take_bit_eq_mod)
  also have "\<dots> = char_code c XOR 0x20"
    using k by (simp add: take_bit_xor take_bit_eq_mod[of 8 32])
  finally have "char_code (escape_char c) XOR 0x20 = char_code c"
    by (simp add: xor.assoc)
  then show ?thesis by (simp add: escape_char_def[of "escape_char c"] char_code_def)
qed

lemma decode_append:
  "decode_packet acc r1 = Inr p \<Longrightarrow> decode_packet acc (r1 @ r2) = decode_packet p r2"
proof (induction acc r1 rule: decode_packet.induct)
  case (2 payload ch cs)
  show ?case
  proof (cases "ch = CHR ''}'' \<or> ch = CHR ''*''")
    case True
    with "2.prems" obtain e cs' where cs: "cs = e # cs'" by (cases cs) auto
    show ?thesis
    proof (cases "ch = CHR ''}''")
      case True
      with "2.prems" "2.IH"(1)[OF True cs] show ?thesis by (simp add: cs split: if_splits)
    next
      case False
      with \<open>ch = CHR ''}'' \<or> ch = CHR ''*''\<close> have star: "ch = CHR ''*''" by simp
      with "2.prems" "2.IH"(2)[OF False star cs _ refl] show ?thesis by (simp add: cs Let_def split: if_splits)
    qed
  next
    case False
    with 2 show ?thesis by (simp split: if_splits)
  qed
qed simp

lemma decode_wire:
  "wire p r \<Longrightarrow> length p \<le> kMaxDecoded \<Longrightarrow> decode_packet [] r = Inr p"
proof (induction rule: wire.induct)
  case (wire_run p r n)
  then show ?case by (simp add: decode_append[of "[]" r p] char_code_def)
qed (simp_all add: decode_append)

lemma wire_no_growth: "wire p r \<Longrightarrow> p = [] \<longleftrightarrow> r = []"
  by (induction rule: wire.induct) auto

text \<open>What the decoder accepts stays within its bound.\<close>

lemma decode_bound: "decode_packet acc r = Inr p \<Longrightarrow> length acc \<le> kMaxDecoded \<Longrightarrow> length p \<le> kMaxDecoded"
proof (induction acc r rule: decode_packet.induct)
  case (2 payload ch cs)
  show ?case
  proof (cases "ch = CHR ''}'' \<or> ch = CHR ''*''")
    case True
    with "2.prems" obtain e cs' where cs: "cs = e # cs'" by (cases cs) auto
    show ?thesis
    proof (cases "ch = CHR ''}''")
      case True
      with "2.prems" "2.IH"(1)[OF True cs] show ?thesis by (simp add: cs split: if_splits)
    next
      case False
      with \<open>ch = CHR ''}'' \<or> ch = CHR ''*''\<close> have star: "ch = CHR ''*''" by simp
      with "2.prems" "2.IH"(2)[OF False star cs _ refl] show ?thesis by (simp add: cs Let_def split: if_splits)
    qed
  next
    case False
    with 2 show ?thesis by (simp split: if_splits)
  qed
qed simp

section \<open>Exchanging packets\<close>

text \<open>A sender that accepts at least one byte of what it is given, and no more.\<close>

definition sends :: "sender \<Rightarrow> bool" where
  "sends tx \<longleftrightarrow> (\<forall>sent data. data \<noteq> [] \<longrightarrow> 1 \<le> tx sent data \<and> tx sent data \<le> int (length data))"

lemma sendAll_ok:
  assumes "sends tx"
  shows "sendAll tx c data n = (c\<lparr>gd_out := gd_out c @ drop n data\<rparr>, True)"
proof (induction "length data - n" arbitrary: c n rule: less_induct)
  case less
  show ?case
  proof (cases "n < length data")
    case False
    then show ?thesis by (simp add: sendAll.simps)
  next
    case True
    define k where "k = tx (gd_out c) (drop n data)"
    have k: "1 \<le> k" "k \<le> int (length data - n)"
      using assms[unfolded sends_def, rule_format, of "drop n data" "gd_out c"] True by (simp_all add: k_def)
    have split: "take (nat k) (drop n data) @ drop (n + nat k) data = drop n data"
      by (metis append_take_drop_id drop_drop add.commute)
    have "sendAll tx c data n = sendAll tx (c\<lparr>gd_out := gd_out c @ take (nat k) (drop n data)\<rparr>) data (n + nat k)"
      using True k by (subst sendAll.simps) (simp add: k_def[symmetric] Let_def)
    also have "\<dots> = (c\<lparr>gd_out := gd_out c @ drop n data\<rparr>, True)"
      using less[of "n + nat k"] True k by (simp add: split)
    finally show ?thesis .
  qed
qed

lemma skip_noise: "CHR ''$'' \<notin> set noise \<Longrightarrow> skip_to_dollar (noise @ CHR ''$'' # s) = Some s"
  by (induction noise) auto

lemma read_raw_ok:
  "CHR ''#'' \<notin> set raw \<Longrightarrow> have_n + length raw \<le> kMaxRawPayload \<Longrightarrow>
   read_raw (raw @ CHR ''#'' # rest) have_n = Inr (raw, rest)"
  by (induction raw arbitrary: have_n) auto

lemma hexValue_lower: "d < 16 \<Longrightarrow> hexValue (hex_lower d) = int d"
  by (drule less_16_cases) (auto simp: hexValue_def hex_lower_def char_code_def)

lemma hexValue_upper: "d < 16 \<Longrightarrow> hexValue (hex_upper d) = int d"
  by (drule less_16_cases) (auto simp: hexValue_def hex_upper_def char_code_def)

lemma hex_byte_digits:
  "hexValue (hex_lower (unat b div 16)) \<ge> 0" "hexValue (hex_lower (unat b mod 16)) \<ge> 0"
  "hex_byte (hexValue (hex_lower (unat b div 16))) (hexValue (hex_lower (unat b mod 16))) = (b :: u8)"
proof -
  have d: "unat b div 16 < 16" "unat b mod 16 < 16" using unat_u8_less[of b] by auto
  then show "hexValue (hex_lower (unat b div 16)) \<ge> 0" "hexValue (hex_lower (unat b mod 16)) \<ge> 0"
    by (simp_all add: hexValue_lower)
  have "push_bit 4 (int (unat b div 16)) OR int (unat b mod 16) =
      push_bit 4 (drop_bit 4 (uint b)) OR take_bit 4 (uint b)"
    by (simp add: drop_bit_eq_div take_bit_eq_mod zdiv_int zmod_int)
  also have "\<dots> = uint b" by (rule bit_eqI) (auto simp: bit_simps)
  finally show "hex_byte (hexValue (hex_lower (unat b div 16))) (hexValue (hex_lower (unat b mod 16))) = b"
    using d by (simp add: hex_byte_def hexValue_lower)
qed

text \<open>The bytes of a response on the line: noise, the packet, and what follows it.\<close>

definition response_bytes :: "string \<Rightarrow> string \<Rightarrow> u8 \<Rightarrow> string \<Rightarrow> string" where
  "response_bytes noise raw cs rest = noise @ CHR ''$'' # raw @ CHR ''#'' # fmt_02x cs @ rest"

lemma readPacket_steps:
  assumes "CHR ''$'' \<notin> set noise" "CHR ''#'' \<notin> set raw" "length raw \<le> kMaxRawPayload"
    and "gd_in c = response_bytes noise raw cs rest"
  shows "readPacket tx c =
    (if cs \<noteq> packetChecksum raw then (c\<lparr>gd_in := rest\<rparr>, Inl ''packet checksum mismatch'')
     else case decode_packet [] raw of
         Inl e \<Rightarrow> (c\<lparr>gd_in := rest\<rparr>, Inl e)
       | Inr payload \<Rightarrow>
           (case sendAll tx (c\<lparr>gd_in := rest\<rparr>) ''+'' 0 of
              (c, False) \<Rightarrow> (c, Inl ''send'')
            | (c, True) \<Rightarrow> (c, Inr payload)))"
proof -
  have "skip_to_dollar (gd_in c) = Some (raw @ CHR ''#'' # fmt_02x cs @ rest)"
    using assms(1, 4) by (simp add: response_bytes_def skip_noise)
  moreover have "read_raw (raw @ CHR ''#'' # fmt_02x cs @ rest) 0 = Inr (raw, fmt_02x cs @ rest)"
    using assms(2, 3) by (intro read_raw_ok) simp_all
  ultimately show ?thesis
    using hex_byte_digits[of cs] by (simp add: readPacket_def fmt_02x_def Let_def)
qed

text \<open>
  When the stub acknowledges a command and answers with any encoding of a payload, the client
  returns that payload, or an error if it begins with \<open>E\<close>, has sent the framed command and one acknowledgement, and leaves the bytes
  after the packet unread.
\<close>

lemma sendPacket_payload:
  assumes "sends tx" "gd_open c" "wire payload raw" "length payload \<le> kMaxDecoded"
    and "CHR ''$'' \<notin> set noise" "CHR ''#'' \<notin> set raw" "length raw \<le> kMaxRawPayload"
    and "gd_in c = CHR ''+'' # response_bytes noise raw (packetChecksum raw) rest"
  shows "sendPacket tx c cmd = (c\<lparr>gd_in := rest, gd_out := gd_out c @ frame cmd @ ''+''\<rparr>,
    if payload \<noteq> [] \<and> hd payload = CHR ''E'' then Inl (''GDB error response: '' @ payload) else Inr payload)"
proof -
  let ?c1 = "c\<lparr>gd_out := gd_out c @ frame cmd\<rparr>"
  let ?c2 = "?c1\<lparr>gd_in := response_bytes noise raw (packetChecksum raw) rest\<rparr>"
  have "readPacket tx ?c2 = (c\<lparr>gd_in := rest, gd_out := gd_out c @ frame cmd @ ''+''\<rparr>, Inr payload)"
    using readPacket_steps[of noise raw ?c2 "packetChecksum raw" rest tx] assms(5-7) decode_wire[OF assms(3,4)]
    by (simp add: sendAll_ok[OF assms(1)])
  then show ?thesis
    using assms(2, 8) by (auto simp: sendPacket_def sendAll_ok[OF assms(1)] hd_conv_nth)
qed

definition whole_sender :: sender where
  "whole_sender sent data = int (length data)"

lemma whole_sender: "sends whole_sender"
  by (auto simp: sends_def whole_sender_def Suc_leI)

section \<open>Memory contents and damaged packets\<close>

text \<open>
  \<open>spells text bs\<close>: the text is two hexadecimal digits for every byte, each in upper or in lower case.
\<close>

definition digit_of :: "nat \<Rightarrow> char \<Rightarrow> bool" where
  "digit_of d c \<longleftrightarrow> c = hex_lower d \<or> c = hex_upper d"

fun spells :: "string \<Rightarrow> bytes \<Rightarrow> bool" where
  "spells (a # b # cs) (x # xs) \<longleftrightarrow> digit_of (unat x div 16) a \<and> digit_of (unat x mod 16) b \<and> spells cs xs"
| "spells cs xs \<longleftrightarrow> cs = [] \<and> xs = []"

lemma digit_value: "d < 16 \<Longrightarrow> digit_of d c \<Longrightarrow> hexValue c = int d"
  by (auto simp: digit_of_def hexValue_lower hexValue_upper)

lemma hex_pairs_spelled: "spells cs bs \<Longrightarrow> hex_pairs cs = Inr bs \<and> length cs = 2 * length bs"
proof (induction cs bs rule: spells.induct)
  case (1 a b cs x xs)
  have d: "unat x div 16 < 16" "unat x mod 16 < 16" using unat_u8_less[of x] by auto
  have "hexValue a = int (unat x div 16)" "hexValue b = int (unat x mod 16)"
    using 1 d digit_value by auto
  then show ?case using 1 hex_byte_digits(3)[of x] d by (simp add: hexValue_lower Let_def)
qed simp_all

text \<open>
  C22: a memory response that spells bytes in hexadecimal digits of either case, and does not begin
  with an upper-case \<open>E\<close>, gives back these bytes, with whatever escapes and runs the stub encoded it on the
  line; the framed command and one acknowledgement are sent and the bytes behind the packet are left
  unread.  The response is within the size limits, noise before it holds no \<open>$\<close>, and its checksum is in
  lower-case digits.  A response that begins with \<open>E\<close> is taken for an error: \<open>upper_case_rejected\<close>.
\<close>

theorem readMemory_bytes:
  assumes "sends tx" "gd_open c" "spells reply bs" "reply = [] \<or> hd reply \<noteq> CHR ''E''"
    and "wire reply raw" "length reply \<le> kMaxDecoded"
    and "CHR ''$'' \<notin> set noise" "CHR ''#'' \<notin> set raw" "length raw \<le> kMaxRawPayload"
    and "gd_in c = CHR ''+'' # response_bytes noise raw (packetChecksum raw) rest"
  shows "readMemory tx c address n =
    (c\<lparr>gd_in := rest, gd_out := gd_out c @ frame (memory_command address n) @ ''+''\<rparr>, Inr bs)"
proof -
  have "sendPacket tx c (memory_command address n) =
      (c\<lparr>gd_in := rest, gd_out := gd_out c @ frame (memory_command address n) @ ''+''\<rparr>, Inr reply)"
    using sendPacket_payload[OF assms(1,2,5-10)] assms(4) by simp
  then show ?thesis using hex_pairs_spelled[OF assms(3)] by (simp add: readMemory_def)
qed

text \<open>
  A response in upper case whose first byte is one of \<^verbatim>\<open>E0\<close> to \<^verbatim>\<open>EF\<close> is reported as an error of the stub.
\<close>

lemma upper_case_rejected:
  assumes "sends tx" "gd_open c" "spells (CHR ''E'' # reply) bs"
    and "wire (CHR ''E'' # reply) raw" "Suc (length reply) \<le> kMaxDecoded"
    and "CHR ''$'' \<notin> set noise" "CHR ''#'' \<notin> set raw" "length raw \<le> kMaxRawPayload"
    and "gd_in c = CHR ''+'' # response_bytes noise raw (packetChecksum raw) rest"
  shows "snd (readMemory tx c address n) = Inl (''GDB error response: E'' @ reply)"
  using sendPacket_payload[OF assms(1,2,4) _ assms(6-9), of "memory_command address n"] assms(5)
  by (simp add: readMemory_def)

lemma upper_case_e0: "spells ''E0'' [0xE0]"
  by code_simp



theorem readMemory_bytes_witness:
  "snd (readMemory whole_sender \<lparr>gd_open = True, gd_in = ''+$fF#acZ'', gd_out = []\<rparr> 0x1000 1) = Inr [255]"
proof -
  have sp: "spells ''fF'' [255]" by code_simp
  have w: "wire (([] @ ''f'') @ ''F'') (([] @ ''f'') @ ''F'')" by (intro wire_plain wire_empty) simp_all
  have "packetChecksum ''fF'' = 0xac" by (simp add: packetChecksum_def char_code_def)
  then show ?thesis
    using readMemory_bytes[OF whole_sender _ sp _ w[simplified], of "\<lparr>gd_open = True, gd_in = ''+$fF#acZ'', gd_out = []\<rparr>" "[]" "''Z''" "0x1000" 1]
    by (simp add: response_bytes_def fmt_02x_def hex_lower_def kMaxDecoded_def kMaxRawPayload_def)
qed


end
