(* ===== verification/Code_Hooks.thy ===== *)
theory Code_Hooks
  imports Process_Api
begin

text \<open>
  Patching code in the target: the NOP patch and its undo (\<^verbatim>\<open>src/src/debug/patch.cpp\<close>) and the
  detour hook (\<^verbatim>\<open>src/src/core/simple_hook.cpp\<close>).  The disassembler (Capstone) is a parameter that
  gives the decoded instructions of a byte sequence; allocation and protection extend the process
  interface.  The main results: on a 64-bit target an installed hook sends execution to the user's target
  and leads back behind the displaced instructions when its code could be made writable, and removing a
  patch or a hook gives the old memory back, as far as the two writes to the code got.
\<close>

record Instruction =
  in_mnemonic :: string
  in_size :: u8
  in_ripRelative :: bool
  in_ripTarget :: u64

type_synonym disassembler = "bool \<Rightarrow> u64 \<Rightarrow> bytes \<Rightarrow> nat \<Rightarrow> Instruction list"

record 's code_process =
  cp_proc :: "'s process"
  cp_allocate :: "'s \<Rightarrow> nat \<Rightarrow> MemProt \<Rightarrow> u64 \<Rightarrow> 's \<times> u64 option"
  cp_protect :: "'s \<Rightarrow> u64 \<Rightarrow> nat \<Rightarrow> MemProt \<Rightarrow> 's \<times> bool"

section \<open>NOP patches\<close>

definition nopInstruction :: "disassembler \<Rightarrow> 's process \<Rightarrow> 's \<Rightarrow> u64 \<Rightarrow> 's \<times> bytes" where
  "nopInstruction dis P s address =
     (case pr_read P s address 16 of
        None \<Rightarrow> (s, [])
      | Some buf \<Rightarrow>
          if buf = [] then (s, [])
          else case dis (pr_runs32 P) address buf 1 of
              [] \<Rightarrow> (s, [])
            | ins # _ \<Rightarrow>
                if in_size ins = 0 then (s, [])
                else
                  let n = unat (in_size ins); original = take n buf in
                  (case pr_write P s address (replicate n 0x90) of
                     (s', None) \<Rightarrow> (s', [])
                   | (s', Some _) \<Rightarrow> (s', original)))"

definition restoreBytes :: "'s process \<Rightarrow> 's \<Rightarrow> u64 \<Rightarrow> bytes \<Rightarrow> 's \<times> bool" where
  "restoreBytes P s address original =
     (if original = [] then (s, False)
      else case pr_write P s address original of (s', r) \<Rightarrow> (s', r \<noteq> None))"

section \<open>Detour hooks\<close>

record SimpleHook =
  hk_address :: u64
  hk_trampoline :: u64
  hk_codecave :: u64
  hk_original :: bytes
  hk_patchLen :: nat

definition isPositionDependent :: "Instruction \<Rightarrow> bool" where
  "isPositionDependent ins =
     (if in_ripRelative ins \<or> in_ripTarget ins \<noteq> 0 then True
      else
        let m = in_mnemonic ins in
        if m = ''call'' \<or> take 4 m = ''loop'' then True
        else if m \<noteq> [] \<and> hd m = CHR ''j'' then True
        else False)"

definition putAbsJmp :: "u64 \<Rightarrow> bytes" where
  "putAbsJmp target = [0xFF, 0x25, 0x00, 0x00, 0x00, 0x00] @ le_bytes 8 target"

text \<open>The displaced length, \<open>None\<close> for a refusal.\<close>

fun displaced :: "nat \<Rightarrow> Instruction list \<Rightarrow> nat option" where
  "displaced patchLen [] = Some patchLen"
| "displaced patchLen (ins # rest) =
     (if isPositionDependent ins then None
      else
        let patchLen' = patchLen + unat (in_size ins) in
        if 5 \<le> patchLen' then Some patchLen' else displaced patchLen' rest)"

definition prot_rwx :: MemProt where
  "prot_rwx = prot_or (prot_or ProtRead ProtWrite) ProtExec"

definition prot_rx :: MemProt where
  "prot_rx = prot_or ProtRead ProtExec"

definition installSimpleHook ::
    "disassembler \<Rightarrow> 's code_process \<Rightarrow> 's \<Rightarrow> u64 \<Rightarrow> u64 \<Rightarrow> 's \<times> SimpleHook option" where
  "installSimpleHook dis C s address target =
     (case pr_read (cp_proc C) s address 32 of
        None \<Rightarrow> (s, None)
      | Some code \<Rightarrow>
          if length code < 5 then (s, None)
          else case displaced 0 (dis (pr_runs32 (cp_proc C)) address code 0) of
              None \<Rightarrow> (s, None)
            | Some patchLen \<Rightarrow>
                if patchLen < 5 then (s, None)
                else
                  let original = take patchLen code in
                  (case cp_allocate C s (64 + patchLen) prot_rwx address of
                     (s, None) \<Rightarrow> (s, None)
                   | (s, Some gate) \<Rightarrow>
                       let trampoline = gate + 16; rel = sint (gate - (address + 5)) in
                       if 0x7FFFFFFF < rel \<or> rel < - 0x80000000 then (s, None)
                       else
                         (case pr_write (cp_proc C) s gate (putAbsJmp target) of
                            (s, None) \<Rightarrow> (s, None)
                          | (s, Some _) \<Rightarrow>
                         (case pr_write (cp_proc C) s trampoline
                                 (original @ putAbsJmp (address + of_nat patchLen)) of
                            (s, None) \<Rightarrow> (s, None)
                          | (s, Some _) \<Rightarrow>
                              let patch = 0xE9 # le_bytes 4 (word_of_int rel :: u32) @ replicate (patchLen - 5) 0x90;
                                  s = fst (cp_protect C s address patchLen prot_rwx) in
                              (case pr_write (cp_proc C) s address patch of
                                 (s, None) \<Rightarrow> (s, None)
                               | (s, Some _) \<Rightarrow>
                                   let s = fst (cp_protect C s address patchLen prot_rx) in
                                   (s, Some \<lparr>hk_address = address, hk_trampoline = trampoline, hk_codecave = gate,
                                        hk_original = original, hk_patchLen = patchLen\<rparr>))))))"

definition removeSimpleHook :: "'s code_process \<Rightarrow> 's \<Rightarrow> SimpleHook \<Rightarrow> 's \<times> bool" where
  "removeSimpleHook C s hook =
     (if hk_original hook = [] then (s, False)
      else
        let n = length (hk_original hook);
            s = fst (cp_protect C s (hk_address hook) n prot_rwx);
            (s, r) = pr_write (cp_proc C) s (hk_address hook) (hk_original hook);
            s = fst (cp_protect C s (hk_address hook) n prot_rx)
        in (s, r \<noteq> None))"

section \<open>Laws\<close>

text \<open>
  Writes may be short (\<^verbatim>\<open>process_vm_writev\<close> reports how far it came).  What is known of them needs a view
  of the addresses that can be written: a short write stopped in front of a byte that cannot be
  written, no write takes writability away, memory allocated writable can be written, and so can memory
  whose protection was changed to a writable one with success.  Changing the protection may fail.
\<close>

definition writable_law :: "'s code_process \<Rightarrow> ('s \<Rightarrow> u64 \<Rightarrow> bool) \<Rightarrow> bool" where
  "writable_law C w \<longleftrightarrow>
     (\<forall>s a bs s' r. pr_write (cp_proc C) s a bs = (s', r) \<longrightarrow>
        (\<forall>x. w s x \<longrightarrow> w s' x) \<and> (\<forall>n. r = Some n \<and> n < length bs \<longrightarrow> \<not> w s (a + of_nat n))) \<and>
     (\<forall>s n p a s' b. cp_allocate C s n p a = (s', Some b) \<and> prot_and p ProtWrite \<longrightarrow>
        (\<forall>x \<in> set (range_addrs b n). w s' x)) \<and>
     (\<forall>s a n p s'. cp_protect C s a n p = (s', True) \<and> prot_and p ProtWrite \<longrightarrow>
        (\<forall>x \<in> set (range_addrs a n). w s' x))"

text \<open>The target lets its code at these addresses be made writable while it is mapped.\<close>

definition code_unlocks :: "'s code_process \<Rightarrow> ('s \<Rightarrow> memory) \<Rightarrow> u64 \<Rightarrow> nat \<Rightarrow> bool" where
  "code_unlocks C mem a n \<longleftrightarrow> (\<forall>s. slot_ok (mem s) a n \<longrightarrow> snd (cp_protect C s a n prot_rwx))"

text \<open>A decoded instruction lies within the bytes given.\<close>

definition decodes_within :: "disassembler \<Rightarrow> bool" where
  "decodes_within dis \<longleftrightarrow>
     (\<forall>b a code n. sum_list (map (\<lambda>i. unat (in_size i)) (dis b a code n)) \<le> length code)"

definition allocate_law :: "'s code_process \<Rightarrow> ('s \<Rightarrow> memory) \<Rightarrow> bool" where
  "allocate_law C mem \<longleftrightarrow>
     (\<forall>s n p a s' b. cp_allocate C s n p a = (s', Some b) \<longrightarrow>
        (\<forall>x. readable (mem s) x \<longrightarrow> mem s' x = mem s x) \<and>
        (\<forall>x \<in> set (range_addrs b n). \<not> readable (mem s) x \<and> readable (mem s') x))"

definition protect_law :: "'s code_process \<Rightarrow> ('s \<Rightarrow> memory) \<Rightarrow> bool" where
  "protect_law C mem \<longleftrightarrow> (\<forall>s a n p. mem (fst (cp_protect C s a n p)) = mem s)"

lemma prot_rwx_writes: "prot_and prot_rwx ProtWrite"
  by (simp add: prot_and_def prot_rwx_def prot_or_def ProtRead_def ProtWrite_def ProtExec_def)

lemma prefix_write:
  assumes "write_law P mem" "pr_write P s a bs = (s', Some n)"
  shows "n \<le> length bs" "mem s' = store_bytes (mem s) a (take n bs)"
  using assms by (auto simp: write_law_def)

lemma write_whole:
  assumes "writable_law C w" "pr_write (cp_proc C) s a bs = (s', Some n)" "n \<le> length bs"
    and "\<forall>x \<in> set (range_addrs a (length bs)). w s x"
  shows "n = length bs"
proof (rule ccontr)
  assume "n \<noteq> length bs"
  then have "n < length bs" using assms(3) by simp
  then have "\<not> w s (a + of_nat n)" "a + of_nat n \<in> set (range_addrs a (length bs))"
    using assms(1,2) by (auto simp: writable_law_def range_addrs_def)
  with assms(4) show False by blast
qed

lemma write_keeps_writable:
  "writable_law C w \<Longrightarrow> pr_write (cp_proc C) s a bs = (s', r) \<Longrightarrow> w s x \<Longrightarrow> w s' x"
  by (auto simp: writable_law_def)

lemma allocated_writable:
  assumes "writable_law C w" "cp_allocate C s n prot_rwx a = (s', Some b)" "x \<in> set (range_addrs b n)"
  shows "w s' x"
  using assms prot_rwx_writes by (auto simp: writable_law_def)

lemma unlocked_writable:
  assumes "writable_law C w" "code_unlocks C mem a n" "slot_ok (mem s) a n" "x \<in> set (range_addrs a n)"
  shows "w (fst (cp_protect C s a n prot_rwx)) x"
proof -
  have "cp_protect C s a n prot_rwx = (fst (cp_protect C s a n prot_rwx), True)"
    using assms(2,3) by (auto simp: code_unlocks_def prod_eq_iff)
  with assms(1,4) prot_rwx_writes show ?thesis unfolding writable_law_def by blast
qed

lemma displaced_within:
  "displaced k is = Some n \<Longrightarrow> n \<le> k + sum_list (map (\<lambda>i. unat (in_size i)) is)"
proof (induction k "is" rule: displaced.induct)
  case (2 k i "is")
  then show ?case by (fastforce simp: Let_def split: if_splits)
qed simp

text \<open>Reading behind a store to other addresses.\<close>

lemma store_bytes_outside:
  assumes "x \<notin> set (range_addrs a (length bs))"
  shows "store_bytes m a bs x = m x"
  using assms by (intro store_bytes_other) (auto simp: range_addrs_def)

lemma slot_outside:
  assumes "set (range_addrs b n) \<inter> set (range_addrs a (length bs)) = {}"
  shows "slot_val (store_bytes m a bs) b n = slot_val m b n" "slot_ok (store_bytes m a bs) b n = slot_ok m b n"
proof -
  have "store_bytes m a bs x = m x" if "x \<in> set (range_addrs b n)" for x
    using assms that by (intro store_bytes_outside) blast
  then show "slot_val (store_bytes m a bs) b n = slot_val m b n" "slot_ok (store_bytes m a bs) b n = slot_ok m b n"
    by (auto simp: slot_val_def slot_ok_def list_all_iff readable_def)
qed

text \<open>Storing the bytes that were there before.\<close>

lemma store_back:
  assumes "slot_ok m a n" "length bs = n" "n \<le> 2 ^ 64"
  shows "store_bytes (store_bytes m a bs) a (slot_val m a n) = m"
proof
  fix x
  have len: "length (slot_val m a n) = n" by (simp add: slot_val_def)
  show "store_bytes (store_bytes m a bs) a (slot_val m a n) x = m x"
  proof (cases "x \<in> set (range_addrs a n)")
    case True
    then obtain k where k: "k < n" "x = a + of_nat k" by (auto simp: range_addrs_def)
    then have "store_bytes (store_bytes m a bs) a (slot_val m a n) x = Some (slot_val m a n ! k)"
      using assms(3) len by (simp add: store_bytes_at)
    also have "slot_val m a n ! k = the (m x)" using k by (simp add: slot_val_def)
    also have "Some (the (m x)) = m x" using assms(1) k by (auto simp: slot_ok_iff readable_def)
    finally show ?thesis .
  next
    case False
    with len assms(2) show ?thesis by (simp add: store_bytes_outside)
  qed
qed

lemma read_prefix:
  assumes "read_law P mem" "pr_read P s a n = Some buf" "k \<le> length buf"
  shows "take k buf = slot_val (mem s) a k" "slot_ok (mem s) a k"
proof -
  have got: "buf = readable_prefix (mem s) (range_addrs a n)"
    using assms(1, 2) by (auto simp: read_law_def Let_def split: if_splits)
  have "0 + k \<le> length buf \<longrightarrow> take k (drop 0 buf) = slot_val (mem s) (a + of_nat 0) k"
    using prefix_slot[OF got] by blast
  then show "take k buf = slot_val (mem s) a k" using assms(3) by simp
  have "\<forall>j < k. readable (mem s) (a + of_nat j)" using prefix_slot[OF got] assms(3) by blast
  then show "slot_ok (mem s) a k" by (simp add: slot_ok_iff)
qed

lemma length_slot_val [simp]: "length (slot_val m a n) = n"
  by (simp add: slot_val_def)

lemma readable_store: "readable m x \<Longrightarrow> readable (store_bytes m a bs) x"
  by (induction bs arbitrary: m a) (auto simp: readable_def)

lemma slot_ok_store: "slot_ok m a n \<Longrightarrow> slot_ok (store_bytes m b bs) a n"
  by (simp add: slot_ok_def list_all_iff readable_store)

lemma range_addrs_from:
  assumes "k \<le> n"
  shows "set (range_addrs a n) = set (range_addrs a k) \<union> (\<lambda>i. a + of_nat i) ` {k..<n}"
proof -
  have "{0..<n} = {0..<k} \<union> {k..<n}" using assms by auto
  then show ?thesis by (simp add: range_addrs_def image_Un)
qed

text \<open>Storing the first \<open>k\<close> of the bytes that were there before, over a patch of \<open>j\<close> bytes.\<close>

lemma store_back_prefix:
  assumes "slot_ok m a n" "length bs \<le> n" "k \<le> n" "n \<le> 2 ^ 64"
    and x: "x \<notin> (\<lambda>i. a + of_nat i) ` {k..<n}"
  shows "store_bytes (store_bytes m a bs) a (take k (slot_val m a n)) x = m x"
proof (cases "x \<in> set (range_addrs a k)")
  case True
  then obtain i where i: "i < k" "x = a + of_nat i" by (auto simp: range_addrs_def)
  then have "store_bytes (store_bytes m a bs) a (take k (slot_val m a n)) x = Some (slot_val m a n ! i)"
    using assms(3,4) by (simp add: store_bytes_at)
  also have "\<dots> = m x" using assms(1,3) i by (auto simp: slot_val_def slot_ok_iff readable_def)
  finally show ?thesis .
next
  case False
  then have "x \<notin> set (range_addrs a n)"
    using x range_addrs_from[OF assms(3)] by simp
  then have "x \<notin> set (range_addrs a (length bs))" using assms(2) by (auto simp: range_addrs_def)
  with False assms(3) show ?thesis by (simp add: store_bytes_outside)
qed

text \<open>
  replacing an instruction by NOPs changes a prefix of its bytes, and restoring the returned bytes
  later gives the memory from before the patch, but for the bytes behind the point where the second
  write stopped; where the instruction's bytes can be written both writes are complete.
\<close>

theorem nop_and_restore:
  assumes laws: "read_law (cp_proc C) mem" "write_law (cp_proc C) mem" "writable_law C w" "decodes_within dis"
    and nop: "nopInstruction dis (cp_proc C) s a = (s1, original)" "original \<noteq> []"
    and restore: "mem s2 = mem s1" "restoreBytes (cp_proc C) s2 a original = (s3, True)"
  shows "\<exists>j k. j \<le> length original \<and> k \<le> length original \<and>
    mem s1 = store_bytes (mem s) a (replicate j 0x90) \<and> original = slot_val (mem s) a (length original) \<and>
    (\<forall>x. x \<notin> (\<lambda>i. a + of_nat i) ` {k..<length original} \<longrightarrow> mem s3 x = mem s x) \<and>
    ((\<forall>x \<in> set (range_addrs a (length original)). w s x) \<longrightarrow> j = length original) \<and>
    ((\<forall>x \<in> set (range_addrs a (length original)). w s2 x) \<longrightarrow> k = length original)"
proof -
  obtain buf ins rest j where buf: "pr_read (cp_proc C) s a 16 = Some buf"
    and ins: "dis (pr_runs32 (cp_proc C)) a buf 1 = ins # rest"
    and orig: "original = take (unat (in_size ins)) buf"
    and w: "pr_write (cp_proc C) s a (replicate (unat (in_size ins)) 0x90) = (s1, Some j)"
    using nop by (auto simp: nopInstruction_def Let_def split: option.splits list.splits if_splits prod.splits)
  define n where "n = unat (in_size ins)"
  have "n \<le> length buf"
    using laws(4)[unfolded decodes_within_def, rule_format, of "pr_runs32 (cp_proc C)" a buf 1] ins by (simp add: n_def)
  note pre = read_prefix[OF laws(1) buf this]
  have len: "length original = n" and val: "original = slot_val (mem s) a n"
    using pre(1) orig by (simp_all add: n_def)
  note w1 = prefix_write[OF laws(2) w]
  obtain k where k: "pr_write (cp_proc C) s2 a original = (s3, Some k)"
    using restore(2) by (auto simp: restoreBytes_def split: if_splits prod.splits)
  note w2 = prefix_write[OF laws(2) k]
  have jk: "j \<le> n" "k \<le> n" using w1(1) w2(1) len by (simp_all add: n_def)
  have n64: "n \<le> 2 ^ 64" using unat_u8_less[of "in_size ins"] by (simp add: n_def)
  have m1: "mem s1 = store_bytes (mem s) a (replicate j 0x90)" using w1 by (simp add: min_def)
  moreover have "mem s3 x = mem s x" if "x \<notin> (\<lambda>i. a + of_nat i) ` {k..<n}" for x
    using store_back_prefix[OF pre(2) _ jk(2) n64 that, of "replicate j 0x90"] w2(2) restore(1) m1 val jk(1) by simp
  moreover have "j = n" if "\<forall>x \<in> set (range_addrs a n). w s x"
    using write_whole[OF laws(3) w w1(1)] that by (simp add: n_def)
  moreover have "k = n" if "\<forall>x \<in> set (range_addrs a n). w s2 x"
    using write_whole[OF laws(3) k w2(1)] that by (simp add: len)
  ultimately show ?thesis using val jk unfolding len by metis
qed

definition one_byte_code :: disassembler where
  "one_byte_code b a code n =
     (if code = [] then [] else replicate (if n = 0 then length code else 1)
        \<lparr>in_mnemonic = ''inc'', in_size = 1, in_ripRelative = False, in_ripTarget = 0\<rparr>)"

lemma one_byte_code: "decodes_within one_byte_code"
  by (simp add: decodes_within_def one_byte_code_def sum_list_replicate Suc_leI)

section \<open>Where execution goes\<close>

text \<open>
  The destination of the jump instruction at an address, by the processor manual: \<^verbatim>\<open>E9 rel32\<close>, or
  \<^verbatim>\<open>FF 25 disp32\<close>, a jump through the pointer at the displacement, which counts from the next
  instruction in 64-bit code and is an absolute address in 32-bit code.
\<close>

definition jump_dest :: "bool \<Rightarrow> memory \<Rightarrow> u64 \<Rightarrow> u64 option" where
  "jump_dest runs32 m a =
     (if slot_ok m a 5 \<and> slot_val m a 1 = [0xE9] then
        let dest = a + 5 + scast (le_val (slot_val m (a + 1) 4) :: u32)
        in Some (if runs32 then take_bit 32 dest else dest)
      else if slot_ok m a 6 \<and> slot_val m a 2 = [0xFF, 0x25] then
        let disp = le_val (slot_val m (a + 2) 4) :: u32;
            at = (if runs32 then ucast disp else a + 6 + scast disp);
            width = (if runs32 then 4 else 8)
        in if slot_ok m at width then Some (le_val (slot_val m at width)) else None
      else None)"

lemma slot_append: "slot_val m a (i + j) = slot_val m a i @ slot_val m (a + of_nat i) j"
proof (rule nth_equalityI)
  fix k
  assume k: "k < length (slot_val m a (i + j))"
  show "slot_val m a (i + j) ! k = (slot_val m a i @ slot_val m (a + of_nat i) j) ! k"
  proof (cases "k < i")
    case False
    then have "a + of_nat k = a + of_nat i + of_nat (k - i)" by (simp add: add.assoc flip: of_nat_add)
    moreover have "k - i < j" using False k by simp
    ultimately show ?thesis using False k by (simp add: slot_val_def nth_append)
  qed (use k in \<open>simp add: slot_val_def nth_append\<close>)
qed simp

lemma slot_split:
  assumes "slot_val m a (i + j) = xs @ ys" "length xs = i"
  shows "slot_val m a i = xs" "slot_val m (a + of_nat i) j = ys"
  using assms unfolding slot_append by simp_all

lemma slot_ok_append: "slot_ok m a (i + j) \<longleftrightarrow> slot_ok m a i \<and> slot_ok m (a + of_nat i) j"
proof -
  have "readable m (a + of_nat k)" if "\<forall>k < i. readable m (a + of_nat k)" "\<forall>k < j. readable m (a + of_nat i + of_nat k)"
    "k < i + j" for k
  proof (cases "k < i")
    case False
    then have at: "a + of_nat k = a + of_nat i + of_nat (k - i)" by (simp add: add.assoc flip: of_nat_add)
    show ?thesis unfolding at using False that(3) by (intro that(2)[rule_format]) simp
  qed (use that(1) in simp)
  then show ?thesis by (auto simp: slot_ok_iff add.assoc simp flip: of_nat_add)
qed


lemma abs_parts:
  assumes "slot_val m a 14 = putAbsJmp v"
  shows "slot_val m a 1 = [0xFF]" "slot_val m a 2 = [0xFF, 0x25]" "slot_val m (a + 2) 4 = [0, 0, 0, 0]"
    "slot_val m (a + 6) 8 = le_bytes 8 v"
proof -
  have "slot_val m a (1 + 13) = [0xFF] @ ([0x25, 0, 0, 0, 0] @ le_bytes 8 v)" using assms by (simp add: putAbsJmp_def)
  from slot_split(1)[OF this] show "slot_val m a 1 = [0xFF]" by simp
  have "slot_val m a (2 + 12) = [0xFF, 0x25] @ ([0, 0, 0, 0] @ le_bytes 8 v)" using assms by (simp add: putAbsJmp_def)
  note two = slot_split[OF this]
  show "slot_val m a 2 = [0xFF, 0x25]" using two(1) by simp
  have "slot_val m (a + 2) (4 + 8) = [0, 0, 0, 0] @ le_bytes 8 v" using two(2) by simp
  note four = slot_split[OF this]
  show "slot_val m (a + 2) 4 = [0, 0, 0, 0]" "slot_val m (a + 6) 8 = le_bytes 8 v"
    using four by (simp_all add: add.assoc)
qed


lemma jump_abs_32bit:
  assumes "slot_ok m a 14" "slot_val m a 14 = putAbsJmp v"
  shows "jump_dest True m a = (if slot_ok m 0 4 then Some (le_val (slot_val m 0 4)) else None)"
proof -
  have "slot_ok m a (6 + 8)" using assms(1) by simp
  then have "slot_ok m a 6" unfolding slot_ok_append by simp
  then show ?thesis using abs_parts[OF assms(2)] by (simp add: jump_dest_def)
qed

section \<open>Installing and removing a hook\<close>

lemma range_addrs_sub:
  assumes "i + k \<le> n"
  shows "set (range_addrs (a + of_nat i) k) \<subseteq> set (range_addrs a n)"
proof
  fix x
  assume "x \<in> set (range_addrs (a + of_nat i) k)"
  then obtain j where "j < k" "x = a + of_nat (i + j)" by (auto simp: range_addrs_def add.assoc)
  with assms show "x \<in> set (range_addrs a n)" by (auto simp: range_addrs_def intro!: image_eqI[of _ _ "i + j"])
qed

lemma range_addrs_apart:
  assumes "i + k \<le> j" "j + l \<le> 2 ^ 64"
  shows "set (range_addrs (a + of_nat i) k) \<inter> set (range_addrs (a + of_nat j) l) = {}"
proof (rule ccontr)
  assume "\<not> ?thesis"
  then obtain p q where pq: "p < k" "q < l" "a + of_nat (i + p) = a + of_nat (j + q)"
    by (auto simp: range_addrs_def add.assoc)
  then have "(of_nat (i + p) :: u64) = of_nat (j + q)" by simp
  moreover have "i + p < 2 ^ 64" "j + q < 2 ^ 64" using assms pq by simp_all
  ultimately have "i + p = j + q" by (metis unat_u64_of_nat)
  with assms pq show False by simp
qed

lemma length_putAbsJmp [simp]: "length (putAbsJmp v) = 14"
  by (simp add: putAbsJmp_def)


text \<open>The bytes an installed hook means to leave at its address.\<close>

definition hook_patch :: "u64 \<Rightarrow> SimpleHook \<Rightarrow> bytes" where
  "hook_patch address h =
     0xE9 # le_bytes 4 (word_of_int (sint (hk_codecave h - (address + 5))) :: u32) @ replicate (hk_patchLen h - 5) 0x90"

lemma install_steps:
  assumes laws: "read_law (cp_proc C) mem" "write_law (cp_proc C) mem" "decodes_within dis" "protect_law C mem"
    and inst: "installSimpleHook dis C s address target = (s1, Some h)"
  obtains s0 n s2 k2 s3 k3 s4 k4 where "cp_allocate C s (64 + n) prot_rwx address = (s0, Some (hk_codecave h))"
    "5 \<le> n" "n \<le> 32" "hk_patchLen h = n" "hk_trampoline h = hk_codecave h + 16" "hk_address h = address"
    "slot_ok (mem s) address n" "hk_original h = slot_val (mem s) address n"
    "- (2 ^ 31) \<le> sint (hk_codecave h - (address + 5))" "sint (hk_codecave h - (address + 5)) < 2 ^ 31"
    "pr_write (cp_proc C) s0 (hk_codecave h) (putAbsJmp target) = (s2, Some k2)"
    "pr_write (cp_proc C) s2 (hk_trampoline h) (hk_original h @ putAbsJmp (address + of_nat n)) = (s3, Some k3)"
    "pr_write (cp_proc C) (fst (cp_protect C s3 address n prot_rwx)) address (hook_patch address h) = (s4, Some k4)"
    "mem s1 = mem s4"
proof -
  obtain code where code: "pr_read (cp_proc C) s address 32 = Some code" "\<not> length code < 5"
    using inst by (auto simp: installSimpleHook_def split: option.splits if_splits)
  then obtain n where n: "displaced 0 (dis (pr_runs32 (cp_proc C)) address code 0) = Some n" "\<not> n < 5"
    using inst by (auto simp: installSimpleHook_def split: option.splits if_splits)
  obtain s0 gate where alloc: "cp_allocate C s (64 + n) prot_rwx address = (s0, Some gate)"
    using inst code n by (auto simp: installSimpleHook_def Let_def split: option.splits if_splits prod.splits)
  define rel where "rel = sint (gate - (address + 5))"
  have rel: "\<not> (0x7FFFFFFF < rel \<or> rel < - 0x80000000)"
    using inst code n alloc by (auto simp: installSimpleHook_def Let_def rel_def split: if_splits)
  obtain s2 k2 where w2: "pr_write (cp_proc C) s0 gate (putAbsJmp target) = (s2, Some k2)"
    using inst code n alloc rel
    by (auto simp: installSimpleHook_def Let_def rel_def split: if_splits option.splits prod.splits)
  obtain s3 k3 where w3: "pr_write (cp_proc C) s2 (gate + 16) (take n code @ putAbsJmp (address + of_nat n)) = (s3, Some k3)"
    using inst code n alloc rel w2
    by (auto simp: installSimpleHook_def Let_def rel_def split: if_splits option.splits prod.splits)
  define patch where "patch = 0xE9 # le_bytes 4 (word_of_int rel :: u32) @ replicate (n - 5) 0x90"
  obtain s4 k4 where w4: "pr_write (cp_proc C) (fst (cp_protect C s3 address n prot_rwx)) address patch = (s4, Some k4)"
    and s1: "s1 = fst (cp_protect C s4 address n prot_rx)"
    and h: "h = \<lparr>hk_address = address, hk_trampoline = gate + 16, hk_codecave = gate,
      hk_original = take n code, hk_patchLen = n\<rparr>"
    using inst code n alloc rel w2 w3
    by (auto simp: installSimpleHook_def Let_def rel_def patch_def split: if_splits option.splits prod.splits)
  have le: "n \<le> length code"
    using displaced_within[OF n(1)] laws(3)[unfolded decodes_within_def, rule_format] by (metis add_0 order_trans)
  moreover have "length code \<le> 32"
    using code(1) laws(1) prefix_slot[OF refl] by (fastforce simp: read_law_def Let_def split: if_splits)
  moreover note read_prefix[OF laws(1) code(1) le]
  moreover have "mem s1 = mem s4" using laws(4) by (simp add: s1 protect_law_def)
  moreover have "patch = hook_patch address h" by (simp add: patch_def hook_patch_def h rel_def)
  ultimately show thesis
    using that[of n s0 s2 k2 s3 k3 s4 k4] alloc n(2) rel w2 w3 w4 by (simp add: h rel_def[symmetric])
qed

lemma install_facts:
  assumes "read_law (cp_proc C) mem" "write_law (cp_proc C) mem" "decodes_within dis" "protect_law C mem"
    and "installSimpleHook dis C s address target = (s1, Some h)"
  shows "5 \<le> hk_patchLen h" "hk_patchLen h \<le> 32" "hk_trampoline h = hk_codecave h + 16" "hk_address h = address"
    "slot_ok (mem s) address (hk_patchLen h)" "hk_original h = slot_val (mem s) address (hk_patchLen h)"
    "- (2 ^ 31) \<le> sint (hk_codecave h - (address + 5))" "sint (hk_codecave h - (address + 5)) < 2 ^ 31"
  using install_steps[OF assms] by metis+

lemma length_hook_patch: "5 \<le> hk_patchLen h \<Longrightarrow> length (hook_patch address h) = hk_patchLen h"
  by (simp add: hook_patch_def)

text \<open>A write of a prefix over bytes that hold others.\<close>

lemma slot_store_prefix:
  assumes "slot_val m a n = xs" "k \<le> length ys" "length ys = n" "n \<le> 2 ^ 64"
  shows "slot_val (store_bytes m a (take k ys)) a n = take k ys @ drop k xs"
proof -
  have len: "length (take k ys) = k" using assms(2) by simp
  have n: "n = k + (n - k)" using assms(2,3) by simp
  have "set (range_addrs (a + of_nat k) (n - k)) \<inter> set (range_addrs a k) = {}"
    using range_addrs_apart[of 0 k k "n - k" a] assms(2-4) by auto
  then have "slot_val (store_bytes m a (take k ys)) (a + of_nat k) (n - k) = slot_val m (a + of_nat k) (n - k)"
    using slot_outside(1)[of "a + of_nat k" "n - k" a "take k ys" m] unfolding len by blast
  moreover have "slot_val m (a + of_nat k) (n - k) = drop k xs"
    using slot_append[of m a k "n - k"] n assms(1) by (metis append_eq_conv_conj length_slot_val)
  moreover have "slot_val (store_bytes m a (take k ys)) a k = take k ys"
    using store_bytes_slot[of "take k ys" m a] assms(2-4) unfolding len by simp
  ultimately show ?thesis
    using slot_append[of "store_bytes m a (take k ys)" a k "n - k"] n by metis
qed

text \<open>The memory an installed hook leaves: the cave is complete, the patch a prefix.\<close>

lemma hook_layout:
  assumes laws: "read_law (cp_proc C) mem" "write_law (cp_proc C) mem" "decodes_within dis" "protect_law C mem"
    "allocate_law C mem" "writable_law C w"
    and inst: "installSimpleHook dis C s address target = (s1, Some h)"
  defines "n \<equiv> hk_patchLen h" and "g \<equiv> hk_codecave h"
  shows "\<exists>k \<le> n. slot_val (mem s1) address n = take k (hook_patch address h) @ drop k (hk_original h) \<and>
      (code_unlocks C mem address n \<longrightarrow> k = n)"
    and "slot_ok (mem s1) address n"
    and "slot_ok (mem s1) g 14 \<and> slot_val (mem s1) g 14 = putAbsJmp target"
    and "slot_ok (mem s1) (g + 16) (n + 14) \<and>
      slot_val (mem s1) (g + 16) (n + 14) = hk_original h @ putAbsJmp (address + of_nat n)"
    and "\<And>x. readable (mem s) x \<Longrightarrow> x \<notin> set (range_addrs address n) \<Longrightarrow> mem s1 x = mem s x"
proof -
  define gb where "gb = putAbsJmp target"
  define tb where "tb = hk_original h @ putAbsJmp (address + of_nat n)"
  define pb where "pb = hook_patch address h"
  note f = install_facts[OF laws(1-4) inst, folded n_def g_def]
  obtain s0 s2 k2 s3 k3 s4 k4 where alloc: "cp_allocate C s (64 + n) prot_rwx address = (s0, Some g)"
    and w2: "pr_write (cp_proc C) s0 g gb = (s2, Some k2)"
    and w3: "pr_write (cp_proc C) s2 (g + 16) tb = (s3, Some k3)"
    and w4: "pr_write (cp_proc C) (fst (cp_protect C s3 address n prot_rwx)) address pb = (s4, Some k4)"
    and s1: "mem s1 = mem s4"
    using install_steps[OF laws(1-4) inst] unfolding gb_def tb_def pb_def n_def g_def by metis
  have n: "5 \<le> n" "n \<le> 32" using f(1,2) by simp_all
  have len: "length gb = 14" "length tb = n + 14" "length pb = n"
    using n length_hook_patch[of h address] by (simp_all add: gb_def tb_def pb_def n_def f(6)[unfolded n_def])
  let ?cave = "set (range_addrs g (64 + n))" and ?code = "set (range_addrs address n)"
  have keep: "\<forall>x. readable (mem s) x \<longrightarrow> mem s0 x = mem s x" and fresh: "\<forall>x \<in> ?cave. \<not> readable (mem s) x"
    using laws(5) alloc by (auto simp: allocate_law_def)
  have cave: "w s0 x" if "x \<in> ?cave" for x using allocated_writable[OF laws(6) alloc that] .
  have apart: "?cave \<inter> ?code = {}"
    using fresh f(5) by (auto simp: slot_ok_def list_all_iff)
  have sub: "set (range_addrs g 14) \<subseteq> ?cave" "set (range_addrs (g + 16) (n + 14)) \<subseteq> ?cave"
    using range_addrs_sub[of 0 14 "64 + n" g] range_addrs_sub[of 16 "n + 14" "64 + n" g] by simp_all
  have "k2 = length gb"
    using write_whole[OF laws(6) w2 prefix_write(1)[OF laws(2) w2]] cave sub(1) unfolding len by blast
  then have m2: "mem s2 = store_bytes (mem s0) g gb" using prefix_write(2)[OF laws(2) w2] by simp
  have "\<forall>x \<in> ?cave. w s2 x" using write_keeps_writable[OF laws(6) w2] cave by blast
  then have "k3 = length tb"
    using write_whole[OF laws(6) w3 prefix_write(1)[OF laws(2) w3]] sub(2) unfolding len by blast
  then have m3: "mem s3 = store_bytes (mem s2) (g + 16) tb" using prefix_write(2)[OF laws(2) w3] by simp
  let ?p = "fst (cp_protect C s3 address n prot_rwx)"
  have mp: "mem ?p = mem s3" using laws(4) by (simp add: protect_law_def)
  have mem1: "mem s1 = store_bytes (mem s3) address (take k4 pb)" and k4: "k4 \<le> n"
    using prefix_write[OF laws(2) w4] by (simp_all add: s1 mp len)
  have ok0: "slot_ok (mem s0) address n" "slot_val (mem s0) address n = hk_original h"
    using f(5,6) keep by (auto simp: slot_ok_def slot_val_def list_all_iff readable_def)
  have "set (range_addrs g 14) \<inter> set (range_addrs (g + 16) (n + 14)) = {}"
    using range_addrs_apart[of 0 14 16 "n + 14" g] n(2) by simp
  then have disj: "set (range_addrs (g + 16) (n + 14)) \<inter> ?code = {}" "set (range_addrs g 14) \<inter> ?code = {}"
    "set (range_addrs g 14) \<inter> set (range_addrs (g + 16) (length tb)) = {}"
    "?code \<inter> set (range_addrs (g + 16) (length tb)) = {}" "?code \<inter> set (range_addrs g (length gb)) = {}"
    using sub apart by (auto simp: len)
  have code_sub: "set (range_addrs address (length (take k4 pb))) \<subseteq> ?code"
    using range_addrs_sub[of 0 k4 n address] k4 by (simp add: len min_def)
  have ok3: "slot_ok (mem s3) address n" using ok0(1) by (simp add: m2 m3 slot_ok_store)
  have val3: "slot_val (mem s3) address n = hk_original h"
    unfolding m3 slot_outside(1)[OF disj(4)] m2 slot_outside(1)[OF disj(5)] ok0(2) ..
  have "k4 = n" if "code_unlocks C mem address n"
    using write_whole[OF laws(6) w4 prefix_write(1)[OF laws(2) w4]] unlocked_writable[OF laws(6) that ok3]
    unfolding len by blast
  moreover have "slot_val (mem s1) address n = take k4 pb @ drop k4 (hk_original h)"
    unfolding mem1 using slot_store_prefix[OF val3 _ len(3)] k4 n(2) len(3) by simp
  ultimately show "\<exists>k \<le> n. slot_val (mem s1) address n = take k (hook_patch address h) @ drop k (hk_original h) \<and>
      (code_unlocks C mem address n \<longrightarrow> k = n)"
    using k4 by (auto simp: pb_def)
  show "slot_ok (mem s1) address n" unfolding mem1 using ok3 by (rule slot_ok_store)
  have out: "set (range_addrs (g + 16) (n + 14)) \<inter> set (range_addrs address (length (take k4 pb))) = {}"
    "set (range_addrs g 14) \<inter> set (range_addrs address (length (take k4 pb))) = {}"
    using disj(1,2) code_sub by blast+
  show "slot_ok (mem s1) (g + 16) (n + 14) \<and>
      slot_val (mem s1) (g + 16) (n + 14) = hk_original h @ putAbsJmp (address + of_nat n)"
    using store_bytes_slot[of tb] n(2) unfolding mem1 slot_outside[OF out(1)] m3 len(2) by (simp add: tb_def)
  show "slot_ok (mem s1) g 14 \<and> slot_val (mem s1) g 14 = putAbsJmp target"
    using store_bytes_slot[of gb] unfolding mem1 slot_outside[OF out(2)] m3 slot_outside[OF disj(3)] m2 len(1)
    by (simp add: gb_def)
  fix x
  assume x: "readable (mem s) x" "x \<notin> ?code"
  then have "x \<notin> ?cave" using fresh by blast
  then have "x \<notin> set (range_addrs g (length gb))" "x \<notin> set (range_addrs (g + 16) (length tb))"
    "x \<notin> set (range_addrs address (length (take k4 pb)))"
    using sub x(2) code_sub by (auto simp: len)
  then have "mem s1 x = mem s0 x" unfolding mem1 m3 m2 by (simp add: store_bytes_outside)
  then show "mem s1 x = mem s x" using keep x(1) by simp
qed


text \<open>On a target that runs 32-bit code the gate jumps through the pointer at address 0, whatever the target.\<close>

lemma hook_gate_32bit:
  assumes laws: "read_law (cp_proc C) mem" "write_law (cp_proc C) mem" "decodes_within dis" "protect_law C mem"
    "allocate_law C mem" "writable_law C w"
    and mode: "pr_runs32 (cp_proc C)"
    and inst: "installSimpleHook dis C s address target = (s1, Some h)"
  shows "jump_dest (pr_runs32 (cp_proc C)) (mem s1) (hk_codecave h) =
    (if slot_ok (mem s1) 0 4 then Some (le_val (slot_val (mem s1) 0 4)) else None)"
  using jump_abs_32bit hook_layout(3)[OF laws inst] mode by simp

text \<open>
  C32: after the removal of a hook was reported as done, every byte that was readable before the hook
  was installed has its old value, but for the bytes of the hooked code from where the restoring write
  stopped: these are as the installation left them.  When the target grants the requests to make its
  code writable no byte is left out.  In between the memory has not changed otherwise.
\<close>

theorem hook_removed:
  assumes laws: "read_law (cp_proc C) mem" "write_law (cp_proc C) mem" "decodes_within dis" "protect_law C mem"
    "allocate_law C mem" "writable_law C w"
    and inst: "installSimpleHook dis C s address target = (s1, Some h)"
    and removed: "mem s2 = mem s1" "removeSimpleHook C s2 h = (s3, True)"
  shows "\<exists>k \<le> hk_patchLen h.
    (\<forall>x. readable (mem s) x \<longrightarrow>
      mem s3 x = (if x \<in> (\<lambda>i. address + of_nat i) ` {k..<hk_patchLen h} then mem s1 x else mem s x)) \<and>
    (code_unlocks C mem address (hk_patchLen h) \<longrightarrow> k = hk_patchLen h)"
proof -
  define n where "n = hk_patchLen h"
  note h = install_facts[OF laws(1-4) inst, folded n_def]
  let ?p = "fst (cp_protect C s2 address n prot_rwx)"
  obtain k s' where w: "pr_write (cp_proc C) ?p address (hk_original h) = (s', Some k)"
    and s3: "s3 = fst (cp_protect C s' address n prot_rx)"
    using removed(2) h(4,6) by (auto simp: removeSimpleHook_def Let_def split: if_splits prod.splits)
  note pre = prefix_write[OF laws(2) w]
  have k: "k \<le> n" using pre(1) h(6) by simp
  have mem3: "mem s3 = store_bytes (mem s1) address (take k (hk_original h))"
    using pre(2) laws(4) removed(1) by (simp add: s3 protect_law_def)
  have outside: "mem s3 x = mem s1 x" if "x \<notin> set (range_addrs address k)" for x
    using that k h(6) by (simp add: mem3 store_bytes_outside)
  have undo: "mem s3 x = mem s x" if "x \<in> set (range_addrs address k)" "readable (mem s) x" for x
  proof -
    from that(1) obtain i where i: "i < k" "x = address + of_nat i" by (auto simp: range_addrs_def)
    then have "mem s3 x = Some (hk_original h ! i)"
      using h(2,6) k by (simp add: mem3 store_bytes_at)
    also have "\<dots> = mem s x" using i k h(6) that(2) by (auto simp: slot_val_def readable_def)
    finally show ?thesis .
  qed
  have split: "x \<in> set (range_addrs address n) \<longleftrightarrow>
      x \<in> set (range_addrs address k) \<or> x \<in> (\<lambda>i. address + of_nat i) ` {k..<n}" for x
    using range_addrs_from[OF k] by simp
  have apart: "set (range_addrs address k) \<inter> (\<lambda>i. address + of_nat i) ` {k..<n} = {}"
  proof -
    have "(\<lambda>i. address + of_nat i) ` {k..<n} \<subseteq> set (range_addrs (address + of_nat k) (n - k))"
    proof
      fix x assume "x \<in> (\<lambda>i. address + of_nat i) ` {k..<n}"
      then obtain i where "k \<le> i" "i < n" "x = address + of_nat i" by auto
      then have "i - k < n - k" "x = address + of_nat k + of_nat (i - k)"
        by (simp_all add: add.assoc flip: of_nat_add)
      then show "x \<in> set (range_addrs (address + of_nat k) (n - k))" by (auto simp: range_addrs_def)
    qed
    moreover have "set (range_addrs address k) \<inter> set (range_addrs (address + of_nat k) (n - k)) = {}"
      using range_addrs_apart[of 0 k k "n - k" address] h(2) k by simp
    ultimately show ?thesis by blast
  qed
  have "mem s3 x = (if x \<in> (\<lambda>i. address + of_nat i) ` {k..<n} then mem s1 x else mem s x)"
    if "readable (mem s) x" for x
    using outside[of x] undo[of x] hook_layout(5)[OF laws inst that, folded n_def] split[of x] apart that by auto
  moreover have "k = n" if "code_unlocks C mem address n"
  proof -
    have "slot_ok (mem s2) address n" using hook_layout(2)[OF laws inst] removed(1) by (simp add: n_def)
    then have "\<forall>x \<in> set (range_addrs address (length (hk_original h))). w ?p x"
      using unlocked_writable[OF laws(6) that] h(6) by simp
    then show ?thesis using write_whole[OF laws(6) w pre(1)] h(6) by simp
  qed
  ultimately show ?thesis using k unfolding n_def by blast
qed

section \<open>A concrete hook\<close>

definition cave_allocate :: "memory \<Rightarrow> nat \<Rightarrow> MemProt \<Rightarrow> u64 \<Rightarrow> memory \<times> u64 option" where
  "cave_allocate m n p a =
     (if list_all (\<lambda>x. m x = None) (range_addrs 0x9000 n)
      then (\<lambda>x. if x \<in> set (range_addrs 0x9000 n) then Some 0 else m x, Some 0x9000) else (m, None))"

definition cave_process :: "memory code_process" where
  "cave_process = \<lparr>cp_proc = flat_process [] [], cp_allocate = cave_allocate, cp_protect = (\<lambda>m a n p. (m, True))\<rparr>"

lemma cave_laws:
  "allocate_law cave_process (\<lambda>m. m)" "protect_law cave_process (\<lambda>m. m)"
  "read_law (cp_proc cave_process) (\<lambda>m. m)" "write_law (cp_proc cave_process) (\<lambda>m. m)"
  "writable_law cave_process (\<lambda>_ _. True)" "code_unlocks cave_process (\<lambda>m. m) a n"
  "\<not> pr_runs32 (cp_proc cave_process)"
  by (auto simp: allocate_law_def protect_law_def cave_process_def cave_allocate_def list_all_iff readable_def
      writable_law_def code_unlocks_def flat_process_laws split: if_splits)
    (simp add: flat_process_def)

text \<open>The NOP patch and its undo on a memory of one-byte instructions.\<close>

theorem nop_and_restore_witness:
  "nopInstruction one_byte_code (cp_proc cave_process) (\<lambda>_. Some 0x40) 0x1000 =
     (store_bytes (\<lambda>_. Some 0x40) 0x1000 [0x90], [0x40]) \<and>
   restoreBytes (cp_proc cave_process) (store_bytes (\<lambda>_. Some 0x40) 0x1000 [0x90]) 0x1000 [0x40] =
     ((\<lambda>_. Some 0x40), True)"
proof -
  let ?P = "cp_proc cave_process" and ?m = "\<lambda>_ :: u64. Some 0x40 :: u8 option"
  have P: "?P = flat_process [] []" by (simp add: cave_process_def)
  have nop: "nopInstruction one_byte_code ?P ?m 0x1000 = (store_bytes ?m 0x1000 [0x90], [0x40])"
    by (simp add: P nopInstruction_def flat_read_const one_byte_code_def del: store_bytes.simps)
  obtain m3 where undo: "restoreBytes ?P (store_bytes ?m 0x1000 [0x90]) 0x1000 [0x40] = (m3, True)"
    by (simp add: P restoreBytes_def del: store_bytes.simps)
  have "m3 x = ?m x" for x
    using nop_and_restore[OF cave_laws(3-5) one_byte_code nop _ refl undo] by auto
  then have "m3 = ?m" by blast
  with nop undo show ?thesis by simp
qed

definition hook_memory :: memory where
  "hook_memory = store_bytes (\<lambda>_. None) 0x1000 (replicate 32 0x40)"

lemma replicate_numeral: "replicate (numeral k) x = x # replicate (pred_numeral k) x"
  by (simp add: numeral_eq_Suc)

lemma hook_installs: "\<exists>s1 h. installSimpleHook one_byte_code cave_process hook_memory 0x1000 0x5000 = (s1, Some h)"
proof -
  have code: "pr_read (flat_process [] []) hook_memory 0x1000 32 = Some (replicate 32 0x40)"
    using flat_read_stored[of "replicate 32 (0x40 :: u8)"] by (simp add: hook_memory_def)
  have dis: "displaced 0 (one_byte_code b 0x1000 (replicate 32 0x40) 0) = Some 5" for b
    by (simp add: one_byte_code_def replicate_numeral isPositionDependent_def)
  have "hook_memory x = None" if "x \<in> set (range_addrs 0x9000 69)" for x
  proof -
    have "set (range_addrs 0x1000 32) \<inter> set (range_addrs 0x9000 69) = {}"
      using range_addrs_apart[of 0 32 "0x8000" 69 "0x1000"] by simp
    then have "x \<notin> set (range_addrs 0x1000 (length (replicate 32 (0x40 :: u8))))"
      using that by (auto simp del: length_replicate simp: length_replicate[of 32])
    from store_bytes_outside[OF this] show ?thesis by (simp only: hook_memory_def)
  qed
  then have alloc: "\<exists>m. cave_allocate hook_memory 69 prot_rwx 0x1000 = (m, Some 0x9000)"
    by (auto simp: cave_allocate_def list_all_iff)
  have len: "length (replicate 32 (0x40 :: u8)) = 32" by simp
  show ?thesis
    using alloc
    by (auto simp: installSimpleHook_def cave_process_def code dis Let_def simp del: store_bytes.simps replicate.simps)
qed

lemma hook_installed:
  obtains s1 h where "installSimpleHook one_byte_code cave_process hook_memory 0x1000 0x5000 = (s1, Some h)"
  using hook_installs by blast


theorem hook_removed_witness:
  "\<exists>s1 h. installSimpleHook one_byte_code cave_process hook_memory 0x1000 0x5000 = (s1, Some h) \<and>
     s1 0x1000 = Some 0xE9 \<and> fst (removeSimpleHook cave_process s1 h) 0x1000 = Some 0x40"
proof -
  obtain s1 h where inst: "installSimpleHook one_byte_code cave_process hook_memory 0x1000 0x5000 = (s1, Some h)"
    using hook_installed .
  note laws = cave_laws(3,4) one_byte_code cave_laws(2)
  have n: "5 \<le> hk_patchLen h" using install_facts(1)[OF laws inst] .
  then have orig: "hk_original h \<noteq> []"
    using install_facts(6)[OF laws inst] by (metis length_slot_val list.size(3) not_numeral_le_zero)
  have x: "hook_memory 0x1000 = Some 0x40"
    using store_bytes_at[of 0 "replicate 32 (0x40 :: u8)" "\<lambda>_. None" "0x1000"] by (simp add: hook_memory_def)
  have "\<exists>k \<le> hk_patchLen h. slot_val s1 0x1000 (hk_patchLen h) = take k (hook_patch 0x1000 h) @ drop k (hk_original h) \<and> k = hk_patchLen h"
    using hook_layout(1)[OF laws cave_laws(1,5) inst] cave_laws(6) by auto
  then have "slot_val s1 0x1000 (1 + (hk_patchLen h - 1)) = [0xE9] @ tl (hook_patch 0x1000 h)"
    using n length_hook_patch[OF n, of "0x1000"] install_facts(6)[OF laws inst] by (auto simp: hook_patch_def)
  then have "slot_val s1 0x1000 1 = [0xE9]" by (rule slot_split) simp
  moreover have "readable s1 0x1000"
    using hook_layout(2)[OF laws cave_laws(1,5) inst] n by (auto simp: slot_ok_iff dest: spec[of _ 0])
  ultimately have patched: "s1 0x1000 = Some 0xE9" by (auto simp: slot_val_def range_addrs_def readable_def)
  have "removeSimpleHook cave_process s1 h = (fst (removeSimpleHook cave_process s1 h), True)"
    using orig by (simp add: removeSimpleHook_def cave_process_def Let_def)
  from hook_removed[OF laws cave_laws(1,5) inst refl this] cave_laws(6) have "fst (removeSimpleHook cave_process s1 h) 0x1000 = Some 0x40"
    using x by (auto simp: readable_def)
  with inst patched show ?thesis by blast
qed

section \<open>A patch that stops short\<close>

text \<open>
  A target whose page at \<^verbatim>\<open>0x2000\<close> cannot be made writable and a hook at \<^verbatim>\<open>0x1ffe\<close>: the installation ignores
  that the protection was refused and that the patch stopped after two bytes, and reports a hook.
\<close>

definition locked :: "u64 \<Rightarrow> bool" where
  "locked x \<longleftrightarrow> drop_bit 12 x = 2"

definition locked_write :: "memory \<Rightarrow> u64 \<Rightarrow> bytes \<Rightarrow> memory \<times> nat option" where
  "locked_write m a bs =
     (let n = length (takeWhile (\<lambda>x. \<not> locked x) (range_addrs a (length bs)))
      in if n = 0 \<and> bs \<noteq> [] then (m, None) else (store_bytes m a (take n bs), Some n))"

definition locked_process :: "memory code_process" where
  "locked_process = \<lparr>cp_proc = (flat_process [] [])\<lparr>pr_write := locked_write\<rparr>, cp_allocate = cave_allocate,
     cp_protect = (\<lambda>m a n p. (m, list_all (\<lambda>x. \<not> locked x) (range_addrs a n)))\<rparr>"

lemma locked_write_prefix:
  "length (takeWhile (\<lambda>x. \<not> locked x) (range_addrs a (length bs))) = n \<Longrightarrow> 0 < n \<Longrightarrow>
    locked_write m a bs = (store_bytes m a (take n bs), Some n)"
  by (simp add: locked_write_def Let_def)

lemma short_patch_reported:
  defines "m \<equiv> store_bytes (\<lambda>_. None) 0x1ffe (replicate 32 0x40)"
  shows "\<exists>s1 h. installSimpleHook one_byte_code locked_process m 0x1ffe 0x5000 = (s1, Some h) \<and>
    s1 0x1ffe = Some 0xE9 \<and> s1 0x2000 = Some 0x40"
proof -
  have code: "pr_read (flat_process [] []) m 0x1ffe 32 = Some (replicate 32 0x40)"
    using flat_read_stored[of "replicate 32 (0x40 :: u8)" "[]" "[]" "\<lambda>_. None" "0x1ffe"]
    by (simp add: m_def)
  have dis: "displaced 0 (one_byte_code b 0x1ffe (replicate 32 0x40) 0) = Some 5" for b
    by (simp add: one_byte_code_def replicate_numeral isPositionDependent_def)
  have outside: "m x = None" if "x \<in> set (range_addrs 0x9000 69)" for x
  proof -
    have "set (range_addrs 0x1ffe 32) \<inter> set (range_addrs 0x9000 69) = {}"
      using range_addrs_apart[of 0 32 "0x7002" 69 "0x1ffe"] by simp
    then have "x \<notin> set (range_addrs 0x1ffe (length (replicate 32 (0x40 :: u8))))"
      using that by (auto simp del: length_replicate simp: length_replicate[of 32])
    from store_bytes_outside[OF this] show ?thesis by (simp only: m_def)
  qed
  define m0 where "m0 = (\<lambda>x. if x \<in> set (range_addrs 0x9000 69) then Some 0 else m x)"
  have alloc: "cave_allocate m 69 prot_rwx 0x1ffe = (m0, Some 0x9000)"
    using outside by (simp add: cave_allocate_def list_all_iff m0_def)
  let ?gate = "putAbsJmp 0x5000" and ?tramp = "replicate 5 0x40 @ putAbsJmp 0x2003"
  have w: "locked_write k 0x9000 ?gate = (store_bytes k 0x9000 ?gate, Some 14)"
    "locked_write k 0x9010 ?tramp = (store_bytes k 0x9010 ?tramp, Some 19)" for k
    by (subst locked_write_prefix[where n = 14]; simp add: range_addrs_def locked_def upt_rec)
      (subst locked_write_prefix[where n = 19]; simp add: range_addrs_def locked_def upt_rec del: replicate.simps)
  have p: "locked_write k 0x1ffe (0xE9 # bs) = (store_bytes k 0x1ffe [0xE9, hd bs], Some 2)" if "length bs = 4" for k bs
    using that by (cases bs) (subst locked_write_prefix[where n = 2]; simp add: range_addrs_def locked_def upt_rec)+
  let ?m1 = "store_bytes (store_bytes m0 0x9000 ?gate) 0x9010 ?tramp"
  have "m 0x2000 = Some 0x40"
    using store_bytes_at[of 2 "replicate 32 (0x40 :: u8)" "\<lambda>_. None" "0x1ffe"] by (simp add: m_def)
  moreover from this have "0x2000 \<notin> set (range_addrs 0x9000 69)" using outside by force
  ultimately have "m0 0x2000 = Some 0x40" by (simp add: m0_def)
  then have old: "store_bytes ?m1 0x1ffe [0xE9, b] 0x2000 = Some 0x40" for b
    by (subst store_bytes_outside, simp add: range_addrs_def upt_rec)+ simp
  have new: "store_bytes ?m1 0x1ffe [0xE9, b] 0x1ffe = Some 0xE9" for b
    using store_bytes_at[of 0 "[0xE9, b]" ?m1 "0x1ffe"] by simp
  show ?thesis
    using old new
    by (simp add: installSimpleHook_def locked_process_def code dis Let_def alloc w p del: store_bytes.simps replicate.simps)
qed

end
