(* ===== verification/Structure_Tools.thy ===== *)
theory Structure_Tools
  imports Process_Api Text_Format
begin

text \<open>
  The structure dissector (\<^verbatim>\<open>src/src/analysis/structure_tools.cpp\<close>): C++ export, comparison of
  snapshots, detection of field boundaries, pointer following, display of field values, and the
  conversion of IL2CPP classes and DWARF structures.  Offsets and sizes are natural numbers.  The
  stream output of floating point values and \<^verbatim>\<open>queryRegion\<close> are parameters.  Templates on disk are
  cheat tables and not part of this theory.
\<close>

record StructureField =
  sf_name :: string
  sf_offset :: nat
  sf_type :: ValueType
  sf_size :: nat
  sf_displayMethod :: string
  sf_nestedStructure :: string

record StructureDefinition =
  st_name :: string
  st_size :: nat
  st_fields :: "StructureField list"

section \<open>Identifiers and types\<close>

definition is_alnum :: "char \<Rightarrow> bool" where
  "is_alnum c \<longleftrightarrow> (let k = char_code c in (48 \<le> k \<and> k \<le> 57) \<or> (65 \<le> k \<and> k \<le> 90) \<or> (97 \<le> k \<and> k \<le> 122))"

definition sanitize_step :: "string \<Rightarrow> char \<Rightarrow> string" where
  "sanitize_step out c =
     (if is_alnum c \<or> c = CHR ''_'' then out @ [c]
      else if out \<noteq> [] \<and> last out \<noteq> CHR ''_'' then out @ ''_''
      else out)"

definition sanitizeIdentifier :: "string \<Rightarrow> string \<Rightarrow> string" where
  "sanitizeIdentifier input fallback =
     (let out = rtrim (\<lambda>c. c = CHR ''_'') (foldl sanitize_step [] input);
          out = (if out = [] then fallback else out)
      in if is_digit (hd out) then CHR ''_'' # out else out)"

fun cppTypeFor :: "ValueType \<Rightarrow> nat \<Rightarrow> string" where
  "cppTypeFor VByte n = ''uint8_t''"
| "cppTypeFor VInt16 n = ''int16_t''"
| "cppTypeFor VInt32 n = ''int32_t''"
| "cppTypeFor VInt64 n = ''int64_t''"
| "cppTypeFor VPointer n = ''uintptr_t''"
| "cppTypeFor VFloat n = ''float''"
| "cppTypeFor VDouble n = ''double''"
| "cppTypeFor _ n = ''uint8_t['' @ fmt_dec (max 1 n) @ '']''"

fun natural_size :: "ValueType \<Rightarrow> nat" where
  "natural_size VByte = 1"
| "natural_size VInt16 = 2"
| "natural_size VInt32 = 4"
| "natural_size VFloat = 4"
| "natural_size VInt64 = 8"
| "natural_size VPointer = 8"
| "natural_size VDouble = 8"
| "natural_size _ = 1"

definition defaultSizeFor :: "ValueType \<Rightarrow> nat \<Rightarrow> nat" where
  "defaultSizeFor type explicitSize = (if explicitSize \<noteq> 0 then explicitSize else natural_size type)"

definition suggestedTypeForRun :: "nat \<Rightarrow> ValueType" where
  "suggestedTypeForRun n =
     (if n = 1 then VByte else if n = 2 then VInt16 else if n = 4 then VInt32 else if n = 8 then VInt64 else VByteArray)"

section \<open>C++ export\<close>

text \<open>The lines of the struct, before they are printed.\<close>

datatype cpp_line =
    Padding nat nat
  | Member string string nat
  | Omitted string nat nat

fun struct_lines :: "StructureField list \<Rightarrow> nat \<Rightarrow> nat \<Rightarrow> cpp_line list \<times> nat \<times> nat" where
  "struct_lines [] cursor padIndex = ([], cursor, padIndex)"
| "struct_lines (f # fs) cursor padIndex =
     (let fieldSize = defaultSizeFor (sf_type f) (sf_size f);
          name = sanitizeIdentifier (sf_name f) (''field_'' @ fmt_dec (sf_offset f)) in
      if sf_offset f < cursor then
        (case struct_lines fs cursor padIndex of (ls, r) \<Rightarrow> (Omitted name (sf_offset f) cursor # ls, r))
      else
        let pad = (if cursor < sf_offset f then [Padding padIndex (sf_offset f - cursor)] else []);
            padIndex' = padIndex + length pad;
            type = (if sf_nestedStructure f = [] then cppTypeFor (sf_type f) fieldSize
                    else sanitizeIdentifier (sf_nestedStructure f) ''NestedStruct'')
        in (case struct_lines fs (max (sf_offset f) (sf_offset f + fieldSize)) padIndex' of
              (ls, r) \<Rightarrow> (pad @ Member type name (sf_offset f) # ls, r)))"

definition LF :: string where
  "LF = [CHR 0x0A]"

fun cpp_text :: "cpp_line \<Rightarrow> string" where
  "cpp_text (Padding i n) = ''    uint8_t _pad'' @ fmt_dec i @ ''[0x'' @ fmt_hex n @ ''];'' @ LF"
| "cpp_text (Member type name off) =
     (case split_first CHR 0x5B type of
        None \<Rightarrow> ''    '' @ type @ '' '' @ name @ ''; // 0x'' @ fmt_hex off @ LF
      | Some (elem, rest) \<Rightarrow> ''    '' @ elem @ '' '' @ name @ CHR 0x5B # rest @ ''; // 0x'' @ fmt_hex off @ LF)"
| "cpp_text (Omitted name off cursor) =
     ''    // '' @ name @ '' at 0x'' @ fmt_hex off @ '' overlaps previous field (ends at 0x'' @ fmt_hex cursor @
     ''); omitted to preserve layout'' @ LF"

definition export_lines :: "StructureDefinition \<Rightarrow> cpp_line list" where
  "export_lines structure =
     (case struct_lines (sort_key sf_offset (st_fields structure)) 0 0 of
        (ls, cursor, padIndex) \<Rightarrow>
          ls @ (if cursor < st_size structure then [Padding padIndex (st_size structure - cursor)] else []))"

definition generateCppStruct :: "StructureDefinition \<Rightarrow> string" where
  "generateCppStruct structure =
     ''#include <cstdint>'' @ LF @ LF @
     ''struct '' @ sanitizeIdentifier (st_name structure) ''GeneratedStruct'' @ '' {'' @ LF @
     concat (map cpp_text (export_lines structure)) @
     ''};'' @ LF"

section \<open>Comparing snapshots\<close>

record StructureFieldDiff =
  fd_name :: string
  fd_offset :: nat
  fd_size :: nat
  fd_changed :: bool
  fd_before :: bytes
  fd_after :: bytes

definition field_diff :: "bytes \<Rightarrow> bytes \<Rightarrow> StructureField \<Rightarrow> StructureFieldDiff option" where
  "field_diff before after f =
     (let fieldSize = defaultSizeFor (sf_type f) (sf_size f); off = sf_offset f in
      if fieldSize = 0 \<or> length before \<le> off \<or> length after \<le> off then None
      else
        let beforeSize = min fieldSize (length before - off);
            afterSize = min fieldSize (length after - off);
            compareSize = min beforeSize afterSize
        in if compareSize = 0 then None
           else
             let b = take compareSize (drop off before); a = take compareSize (drop off after)
             in Some \<lparr>fd_name = sf_name f, fd_offset = off, fd_size = compareSize, fd_changed = (b \<noteq> a),
                      fd_before = b, fd_after = a\<rparr>)"

definition compareStructureSnapshots :: "StructureDefinition \<Rightarrow> bytes \<Rightarrow> bytes \<Rightarrow> StructureFieldDiff list" where
  "compareStructureSnapshots structure before after = List.map_filter (field_diff before after) (st_fields structure)"

record StructureDetectedField =
  df_offset :: nat
  df_size :: nat
  df_changed :: bool
  df_type :: ValueType

definition byteVaries :: "bytes list \<Rightarrow> nat \<Rightarrow> bool" where
  "byteVaries snapshots index = list_ex (\<lambda>s. s ! index \<noteq> hd snapshots ! index) (tl snapshots)"

definition detected :: "nat \<Rightarrow> nat \<Rightarrow> bool \<Rightarrow> StructureDetectedField" where
  "detected start stop changed =
     \<lparr>df_offset = start, df_size = stop - start, df_changed = changed, df_type = suggestedTypeForRun (stop - start)\<rparr>"

fun detect_runs :: "(nat \<Rightarrow> bool) \<Rightarrow> nat list \<Rightarrow> nat \<Rightarrow> bool \<Rightarrow> nat \<Rightarrow> StructureDetectedField list" where
  "detect_runs varies [] start currentChanged n = [detected start n currentChanged]"
| "detect_runs varies (i # is) start currentChanged n =
     (let changed = varies i in
      if changed = currentChanged then detect_runs varies is start currentChanged n
      else detected start i currentChanged # detect_runs varies is i changed n)"

definition common_size :: "bytes list \<Rightarrow> nat" where
  "common_size snapshots = foldl (\<lambda>n s. min n (length s)) (length (hd snapshots)) snapshots"

definition autoDetectStructureFieldsMulti :: "bytes list \<Rightarrow> StructureDetectedField list" where
  "autoDetectStructureFieldsMulti snapshots =
     (if snapshots = [] then []
      else
        let n = common_size snapshots in
        if n = 0 then []
        else detect_runs (byteVaries snapshots) [1..<n] 0 (byteVaries snapshots 0) n)"

definition autoDetectStructureFields :: "bytes \<Rightarrow> bytes \<Rightarrow> StructureDetectedField list" where
  "autoDetectStructureFields before after = autoDetectStructureFieldsMulti [before, after]"

section \<open>Following pointers\<close>

record StructurePointerChain =
  pc_fieldName :: string
  pc_fieldOffset :: nat
  pc_addresses :: "u64 list"

definition isReadablePointer :: "(u64 \<Rightarrow> MemoryRegion option) \<Rightarrow> u64 \<Rightarrow> bool" where
  "isReadablePointer queryRegion address =
     (case queryRegion address of
        None \<Rightarrow> False
      | Some r \<Rightarrow>
          prot_and (r_protection r) ProtRead \<and> r_base r \<le> address \<and> 8 \<le> r_size r \<and>
          address \<le> r_base r + r_size r - 8)"

text \<open>The pointers behind \<open>current\<close>; \<open>n\<close> is the number of steps left.\<close>

primrec chain_from :: "'s process \<Rightarrow> 's \<Rightarrow> (u64 \<Rightarrow> MemoryRegion option) \<Rightarrow> nat \<Rightarrow> u64 \<Rightarrow> u64 list" where
  "chain_from P s queryRegion 0 current = []"
| "chain_from P s queryRegion (Suc n) current =
     (if \<not> isReadablePointer queryRegion current then []
      else case read_u64 P s current of
          None \<Rightarrow> []
        | Some nxt \<Rightarrow> if nxt = 0 then [] else nxt # chain_from P s queryRegion n nxt)"

definition field_chain :: "'s process \<Rightarrow> 's \<Rightarrow> (u64 \<Rightarrow> MemoryRegion option) \<Rightarrow> u64 \<Rightarrow> nat \<Rightarrow> StructureField \<Rightarrow>
    StructurePointerChain option" where
  "field_chain P s queryRegion baseAddress maxDepth f =
     (if sf_type f \<noteq> VPointer then None
      else case read_u64 P s (baseAddress + of_nat (sf_offset f)) of
          None \<Rightarrow> None
        | Some pointer \<Rightarrow>
            if pointer = 0 then None
            else Some \<lparr>pc_fieldName = sf_name f, pc_fieldOffset = sf_offset f,
              pc_addresses = pointer # chain_from P s queryRegion (maxDepth - 1) pointer\<rparr>)"

definition followStructurePointers :: "'s process \<Rightarrow> 's \<Rightarrow> (u64 \<Rightarrow> MemoryRegion option) \<Rightarrow> u64 \<Rightarrow>
    StructureDefinition \<Rightarrow> nat \<Rightarrow> StructurePointerChain list" where
  "followStructurePointers P s queryRegion baseAddress structure maxDepth =
     (if maxDepth = 0 then []
      else List.map_filter (field_chain P s queryRegion baseAddress maxDepth) (st_fields structure))"

section \<open>Displaying a field\<close>

definition to_lower :: "char \<Rightarrow> char" where
  "to_lower c = (let k = char_code c in if 65 \<le> k \<and> k \<le> 90 then char_of (k + 32) else c)"

definition lowerCopy :: "string \<Rightarrow> string" where
  "lowerCopy s = map to_lower s"

fun default_method :: "ValueType \<Rightarrow> string" where
  "default_method VFloat = ''float''"
| "default_method VDouble = ''float''"
| "default_method VPointer = ''pointer''"
| "default_method VByteArray = ''hex''"
| "default_method VString = ''hex''"
| "default_method VUnicodeString = ''hex''"
| "default_method _ = ''signed''"

definition readSnapshotValue :: "bytes \<Rightarrow> nat \<Rightarrow> nat \<Rightarrow> bytes option" where
  "readSnapshotValue snapshot off n =
     (if length snapshot < off \<or> length snapshot - off < n then None else Some (take n (drop off snapshot)))"

fun join_spaces :: "string list \<Rightarrow> string" where
  "join_spaces [] = []"
| "join_spaces [x] = x"
| "join_spaces (x # xs) = x @ '' '' @ join_spaces xs"

definition signed_value :: "bytes \<Rightarrow> int" where
  "signed_value bs =
     (if length bs = 1 then sint (le_val bs :: u8)
      else if length bs = 2 then sint (le_val bs :: u16)
      else if length bs = 4 then sint (le_val bs :: u32)
      else sint (le_val bs :: u64))"

definition formatStructureFieldValue ::
    "(u64 \<Rightarrow> string) \<Rightarrow> (u32 \<Rightarrow> string) \<Rightarrow> StructureField \<Rightarrow> bytes \<Rightarrow> string" where
  "formatStructureFieldValue show_double show_float f snapshot =
     (let fieldSize = defaultSizeFor (sf_type f) (sf_size f); off = sf_offset f in
      if fieldSize = 0 \<or> length snapshot \<le> off then []
      else
        let available = min fieldSize (length snapshot - off);
            method = lowerCopy (sf_displayMethod f);
            method = (if method = [] then default_method (sf_type f) else method);
            field_bytes = (\<lambda>n. take (min available n) (drop off snapshot))
        in if method = ''hex'' \<or> method = ''bytes'' then
             join_spaces (map fmt_02x (take available (drop off snapshot)))
           else if method = ''pointer'' then
             (case readSnapshotValue snapshot off 8 of
                None \<Rightarrow> []
              | Some bs \<Rightarrow> ''0x'' @ fmt_hex (unat (le_val bs :: u64)))
           else if method = ''float'' then
             (if sf_type f = VDouble \<or> fieldSize = 8 then
                (case readSnapshotValue snapshot off 8 of None \<Rightarrow> [] | Some bs \<Rightarrow> show_double (le_val bs))
              else
                (case readSnapshotValue snapshot off 4 of None \<Rightarrow> [] | Some bs \<Rightarrow> show_float (le_val bs)))
           else if method = ''unsigned'' then fmt_dec (unat (le_val (field_bytes 8) :: u64))
           else fmt_int (signed_value (field_bytes 8)))"

section \<open>Layouts from IL2CPP and DWARF\<close>

fun il2cppTypeEnumToValueType :: "nat \<Rightarrow> ValueType" where
  "il2cppTypeEnumToValueType e =
     (if e \<in> {0x02, 0x04, 0x05} then VByte
      else if e \<in> {0x03, 0x06, 0x07} then VInt16
      else if e \<in> {0x08, 0x09} then VInt32
      else if e \<in> {0x0A, 0x0B} then VInt64
      else if e = 0x0C then VFloat
      else if e = 0x0D then VDouble
      else if e = 0x11 then VByteArray
      else VPointer)"

definition il2cppTypeEnumSize :: "nat \<Rightarrow> nat" where
  "il2cppTypeEnumSize e =
     (if e \<in> {0x02, 0x04, 0x05} then 1
      else if e \<in> {0x03, 0x06, 0x07} then 2
      else if e \<in> {0x08, 0x09, 0x0C} then 4
      else if e \<in> {0x0A, 0x0B, 0x0D} then 8
      else if e = 0x11 then 0
      else 8)"

record Il2CppResolvedField =
  rf_name :: string
  rf_offset :: int
  rf_isStatic :: bool
  rf_isConst :: bool
  rf_typeEnum :: nat

record Il2CppClassLayout =
  cl_namespaceName :: string
  cl_name :: string
  cl_fields :: "Il2CppResolvedField list"

definition fullName :: "Il2CppClassLayout \<Rightarrow> string" where
  "fullName cls = (if cl_namespaceName cls = [] then cl_name cls else cl_namespaceName cls @ ''.'' @ cl_name cls)"

definition new_field :: "string \<Rightarrow> nat \<Rightarrow> ValueType \<Rightarrow> nat \<Rightarrow> StructureField" where
  "new_field name off type n =
     \<lparr>sf_name = name, sf_offset = off, sf_type = type, sf_size = n, sf_displayMethod = [], sf_nestedStructure = []\<rparr>"

fun il2cpp_fields :: "(string \<times> nat \<times> nat) list \<Rightarrow> StructureField list" where
  "il2cpp_fields [] = []"
| "il2cpp_fields ((name, off, e) # rest) =
     (let sz = il2cppTypeEnumSize e;
          sz = (if sz = 0 then
                  (let nxt = (case rest of (_, off', _) # _ \<Rightarrow> off' | [] \<Rightarrow> off + 4) in
                   if off < nxt then nxt - off else 4)
                else sz)
      in new_field name off (il2cppTypeEnumToValueType e) sz # il2cpp_fields rest)"

definition il2cppClassToStructure :: "Il2CppClassLayout \<Rightarrow> StructureDefinition" where
  "il2cppClassToStructure cls =
     (let insts = map (\<lambda>f. (rf_name f, nat (rf_offset f), rf_typeEnum f))
            (filter (\<lambda>f. \<not> rf_isStatic f \<and> \<not> rf_isConst f) (cl_fields cls));
          fields = il2cpp_fields (sort_key (\<lambda>(_, off, _). off) insts)
      in \<lparr>st_name = fullName cls,
          st_size = (if fields = [] then 0 else sf_offset (last fields) + sf_size (last fields)),
          st_fields = fields\<rparr>)"

record DwarfMember =
  dm_name :: string
  dm_offset :: nat
  dm_size :: nat
  dm_isFloat :: bool
  dm_isPointer :: bool

record DwarfStruct =
  ds_name :: string
  ds_size :: nat
  ds_members :: "DwarfMember list"

definition dwarf_field :: "DwarfMember \<Rightarrow> StructureField" where
  "dwarf_field m =
     (if dm_isPointer m then
        new_field (dm_name m) (dm_offset m) VPointer (if dm_size m = 0 then 8 else dm_size m)
      else if dm_isFloat m then
        new_field (dm_name m) (dm_offset m) (if dm_size m = 8 then VDouble else VFloat) (dm_size m)
      else
        new_field (dm_name m) (dm_offset m)
          (if dm_size m = 1 then VByte else if dm_size m = 2 then VInt16 else if dm_size m = 4 then VInt32
           else if dm_size m = 8 then VInt64 else VByteArray) (dm_size m))"

definition dwarfStructToStructure :: "DwarfStruct \<Rightarrow> StructureDefinition" where
  "dwarfStructToStructure s =
     (let fields = map dwarf_field (ds_members s) in
      \<lparr>st_name = ds_name s,
       st_size = (if ds_size s = 0 \<and> fields \<noteq> [] then
                    sf_offset (last fields) + (if sf_size (last fields) \<noteq> 0 then sf_size (last fields) else 1)
                  else ds_size s),
       st_fields = fields\<rparr>)"

section \<open>Where the compiler puts the exported members\<close>

text \<open>
  Size and alignment of the exported types under the x86-64 ABI, and the offset a C++ compiler
  gives each member of a struct.  The structs defined elsewhere (the types of nested members) have the
  size and alignment that \<open>structs\<close> gives.
\<close>

definition cpp_scalars :: "(string \<times> nat) list" where
  "cpp_scalars = [(''uint8_t'', 1), (''int16_t'', 2), (''int32_t'', 4), (''float'', 4), (''int64_t'', 8), (''uintptr_t'', 8),
     (''double'', 8)]"

definition cpp_sizeof :: "(string \<Rightarrow> nat \<times> nat) \<Rightarrow> string \<Rightarrow> nat" where
  "cpp_sizeof structs t =
     (case map_of cpp_scalars t of
        Some n \<Rightarrow> n
      | None \<Rightarrow> if CHR 0x5B \<in> set t then fst (scan_digits 10 0 (drop 8 t)) else fst (structs t))"

definition cpp_alignof :: "(string \<Rightarrow> nat \<times> nat) \<Rightarrow> string \<Rightarrow> nat" where
  "cpp_alignof structs t =
     (case map_of cpp_scalars t of Some n \<Rightarrow> n | None \<Rightarrow> if CHR 0x5B \<in> set t then 1 else snd (structs t))"

definition align_to :: "nat \<Rightarrow> nat \<Rightarrow> nat" where
  "align_to a n = (n + a - 1) div a * a"

fun compiled_offsets :: "(string \<Rightarrow> nat \<times> nat) \<Rightarrow> cpp_line list \<Rightarrow> nat \<Rightarrow> (string \<times> nat) list" where
  "compiled_offsets structs [] pos = []"
| "compiled_offsets structs (Padding i n # ls) pos = compiled_offsets structs ls (pos + n)"
| "compiled_offsets structs (Member type name off # ls) pos =
     (let at = align_to (cpp_alignof structs type) pos
      in (name, at) # compiled_offsets structs ls (at + cpp_sizeof structs type))"
| "compiled_offsets structs (Omitted name off cursor # ls) pos = compiled_offsets structs ls pos"

fun stated_offsets :: "cpp_line list \<Rightarrow> (string \<times> nat) list" where
  "stated_offsets [] = []"
| "stated_offsets (Member type name off # ls) = (name, off) # stated_offsets ls"
| "stated_offsets (_ # ls) = stated_offsets ls"

text \<open>The type of an exported member.\<close>

definition member_type :: "StructureField \<Rightarrow> string" where
  "member_type f =
     (if sf_nestedStructure f = [] then cppTypeFor (sf_type f) (defaultSizeFor (sf_type f) (sf_size f))
      else sanitizeIdentifier (sf_nestedStructure f) ''NestedStruct'')"

text \<open>
  A field the export can lay out: a scalar type at its natural size and alignment, bytes or text of any
  size anywhere, and a nested structure whose struct has the size of the field and whose alignment
  divides the offset.
\<close>

definition layout_ok :: "(string \<Rightarrow> nat \<times> nat) \<Rightarrow> StructureField \<Rightarrow> bool" where
  "layout_ok structs f \<longleftrightarrow>
     (if sf_nestedStructure f = [] then
        sf_type f \<in> {VByte, VInt16, VInt32, VInt64, VPointer, VFloat, VDouble} \<longrightarrow>
          (sf_size f = 0 \<or> sf_size f = natural_size (sf_type f)) \<and> natural_size (sf_type f) dvd sf_offset f
      else
        cpp_sizeof structs (member_type f) = defaultSizeFor (sf_type f) (sf_size f) \<and>
        0 < cpp_alignof structs (member_type f) \<and> cpp_alignof structs (member_type f) dvd sf_offset f)"

lemma cpp_array:
  "cpp_sizeof structs (''uint8_t['' @ fmt_dec n @ '']'') = n" "cpp_alignof structs (''uint8_t['' @ fmt_dec n @ '']'') = 1"
proof -
  have "stops_digits 10 '']''" by (simp add: stops_digits_def starts_digit_def digit_val_def char_code_def)
  then show "cpp_sizeof structs (''uint8_t['' @ fmt_dec n @ '']'') = n"
    by (simp add: cpp_sizeof_def cpp_scalars_def scan_digits_fmt_dec)
qed (simp add: cpp_alignof_def cpp_scalars_def)

lemma cpp_scalar:
  "map_of cpp_scalars t = Some n \<Longrightarrow> cpp_sizeof structs t = n" "map_of cpp_scalars t = Some n \<Longrightarrow> cpp_alignof structs t = n"
  by (simp_all add: cpp_sizeof_def cpp_alignof_def)

lemma exported_size:
  assumes "layout_ok structs f"
  shows "cpp_sizeof structs (member_type f) = defaultSizeFor (sf_type f) (sf_size f) \<and>
    cpp_alignof structs (member_type f) dvd sf_offset f \<and> 0 < cpp_alignof structs (member_type f)"
proof (cases "sf_nestedStructure f = []")
  case True
  let ?n = "defaultSizeFor (sf_type f) (sf_size f)"
  have t: "member_type f = cppTypeFor (sf_type f) ?n" using True by (simp add: member_type_def)
  consider "sf_type f \<in> {VByte, VInt16, VInt32, VInt64, VPointer, VFloat, VDouble}"
    | "member_type f = ''uint8_t['' @ fmt_dec (max 1 ?n) @ '']''" "natural_size (sf_type f) = 1"
    unfolding t by (cases "sf_type f") simp_all
  then show ?thesis
  proof cases
    case 1
    then have n: "?n = natural_size (sf_type f)" "natural_size (sf_type f) dvd sf_offset f"
      using assms(1) True by (auto simp: layout_ok_def defaultSizeFor_def)
    have "map_of cpp_scalars (member_type f) = Some (natural_size (sf_type f))"
      using 1 unfolding t by (elim insertE emptyE) (simp_all add: cpp_scalars_def)
    moreover have "0 < natural_size (sf_type f)" by (cases "sf_type f") simp_all
    ultimately show ?thesis using n by (simp add: cpp_scalar)
  next
    case 2
    have "max 1 ?n = ?n" using 2(2) by (simp add: defaultSizeFor_def)
    then show ?thesis unfolding 2(1) cpp_array by simp
  qed
qed (use assms in \<open>simp add: layout_ok_def\<close>)

lemma align_to_id:
  assumes "a dvd n" "0 < a"
  shows "align_to a n = n"
proof -
  obtain k where "n = k * a" using assms(1) by (auto simp: dvd_def mult.commute)
  then have "n + a - 1 = (a - 1) + k * a" using assms(2) by simp
  then have "(n + a - 1) div a = k + (a - 1) div a" using assms(2) by (simp only: div_mult_self1)
  with assms(2) \<open>n = k * a\<close> show ?thesis by (simp add: align_to_def)
qed

lemma compiled_append_padding: "compiled_offsets structs (ls @ [Padding i n]) pos = compiled_offsets structs ls pos"
  by (induction structs ls pos rule: compiled_offsets.induct) (simp_all add: Let_def)

lemma stated_append_padding: "stated_offsets (ls @ [Padding i n]) = stated_offsets ls"
  by (induction ls rule: stated_offsets.induct) simp_all

lemma struct_lines_layout:
  "\<forall>f \<in> set fs. layout_ok structs f \<Longrightarrow> struct_lines fs cursor padIndex = (ls, r) \<Longrightarrow>
   compiled_offsets structs ls cursor = stated_offsets ls"
proof (induction fs cursor padIndex arbitrary: ls r rule: struct_lines.induct)
  case (2 f fs cursor padIndex)
  show ?case
  proof (cases "sf_offset f < cursor")
    case True
    with 2 show ?thesis by (auto simp: Let_def split: prod.splits)
  next
    case False
    have size: "cpp_sizeof structs (member_type f) = defaultSizeFor (sf_type f) (sf_size f)"
      "align_to (cpp_alignof structs (member_type f)) (sf_offset f) = sf_offset f"
      using exported_size[of structs f] "2.prems"(1) align_to_id by auto
    have "max (sf_offset f) (sf_offset f + n) = sf_offset f + n" for n :: nat by simp
    with False size "2.prems" "2.IH"(2)[OF refl refl False refl refl refl] show ?thesis
      by (auto simp: Let_def member_type_def[symmetric] split: prod.splits)
  qed
qed simp

text \<open>
  C17: a C++ compiler places each member of the exported struct at the offset its comment states,
  whatever the order, gaps and overlaps of the fields, when every scalar field has its natural size and
  alignment and every nested structure the size of its struct and an offset its alignment divides
  (\<open>layout_ok\<close>); bytes and text fields may have any size and offset.  The condition is needed:
  \<open>export_misaligned\<close> and \<open>export_resized\<close> below.
\<close>

theorem export_layout:
  assumes "\<forall>f \<in> set (st_fields structure). layout_ok structs f"
  shows "compiled_offsets structs (export_lines structure) 0 = stated_offsets (export_lines structure)"
proof -
  obtain ls cursor padIndex where ls: "struct_lines (sort_key sf_offset (st_fields structure)) 0 0 = (ls, cursor, padIndex)"
    by (metis prod.exhaust)
  have "compiled_offsets structs ls 0 = stated_offsets ls"
    using assms by (intro struct_lines_layout[OF _ ls]) simp
  then show ?thesis
    by (auto simp: export_lines_def ls compiled_append_padding stated_append_padding)
qed

definition four_fields :: StructureDefinition where
  "four_fields = \<lparr>st_name = ''Player'', st_size = 48,
     st_fields = [new_field ''mana'' 8 VFloat 0, new_field ''hp'' 4 VInt32 4, new_field ''tag'' 13 VByteArray 5,
       (new_field ''pos'' 24 VByteArray 12)\<lparr>sf_nestedStructure := ''Vec3''\<rparr>]\<rparr>"

theorem export_layout_witness:
  "compiled_offsets (\<lambda>t. (12, 4)) (export_lines four_fields) 0 = [(''hp'', 4), (''mana'', 8), (''tag'', 13), (''pos'', 24)]"
proof -
  have "stated_offsets (export_lines four_fields) = [(''hp'', 4), (''mana'', 8), (''tag'', 13), (''pos'', 24)]" by code_simp
  moreover have "list_all (layout_ok (\<lambda>t. (12, 4))) (st_fields four_fields)" by code_simp
  ultimately show ?thesis using export_layout[of four_fields "\<lambda>t. (12, 4)"] by (simp add: list_all_iff)
qed

text \<open>
  Outside that case the export is wrong: a misaligned field moves, and a scalar with an explicit
  size of its own shifts the fields behind it.
\<close>

lemma export_misaligned:
  "compiled_offsets structs (export_lines \<lparr>st_name = ''S'', st_size = 6, st_fields = [new_field ''x'' 2 VInt32 4]\<rparr>) 0 = [(''x'', 4)]"
  by code_simp

lemma export_resized:
  "compiled_offsets structs (export_lines \<lparr>st_name = ''S'', st_size = 8,
     st_fields = [new_field ''a'' 0 VByte 4, new_field ''b'' 4 VByte 1]\<rparr>) 0 = [(''a'', 0), (''b'', 1)]"
  by code_simp

section \<open>The detected fields\<close>

fun tiles :: "nat \<Rightarrow> nat \<Rightarrow> StructureDetectedField list \<Rightarrow> bool" where
  "tiles start stop [] \<longleftrightarrow> start = stop"
| "tiles start stop (f # fs) \<longleftrightarrow> df_offset f = start \<and> 0 < df_size f \<and> tiles (start + df_size f) stop fs"

definition uniform :: "(nat \<Rightarrow> bool) \<Rightarrow> StructureDetectedField \<Rightarrow> bool" where
  "uniform varies f \<longleftrightarrow> (\<forall>i. df_offset f \<le> i \<and> i < df_offset f + df_size f \<longrightarrow> varies i = df_changed f)"

lemma detect_runs_spec:
  "start < k \<Longrightarrow> k \<le> n \<Longrightarrow> \<forall>i. start \<le> i \<and> i < k \<longrightarrow> varies i = cur \<Longrightarrow>
   (let fs = detect_runs varies [k..<n] start cur n in
     tiles start n fs \<and> list_all (uniform varies) fs \<and> fs \<noteq> [] \<and> df_changed (hd fs) = cur \<and>
     successively (\<lambda>f g. df_changed f \<noteq> df_changed g) fs)"
proof (induction "n - k" arbitrary: k start cur)
  case 0
  then show ?case by (auto simp: detected_def uniform_def)
next
  case (Suc d)
  then have k: "k < n" "[k..<n] = k # [Suc k..<n]" by (simp_all add: upt_conv_Cons)
  show ?case
  proof (cases "varies k = cur")
    case True
    have "\<forall>i. start \<le> i \<and> i < Suc k \<longrightarrow> varies i = cur"
      using Suc.prems(3) True by (auto simp: less_Suc_eq)
    with Suc.hyps(1)[of "Suc k" start cur] Suc.hyps(2) Suc.prems(1) k True show ?thesis
      by (simp add: Let_def)
  next
    case False
    have d: "d = n - Suc k" using Suc.hyps(2) by simp
    have "\<forall>i. k \<le> i \<and> i < Suc k \<longrightarrow> varies i = varies k" by (auto simp: less_Suc_eq)
    note ih = Suc.hyps(1)[OF d lessI Suc_leI[OF k(1)] this]
    define fs where "fs = detect_runs varies [Suc k..<n] k (varies k) n"
    have fs: "tiles k n fs" "list_all (uniform varies) fs" "fs \<noteq> []" "df_changed (hd fs) = varies k"
      "successively (\<lambda>f g. df_changed f \<noteq> df_changed g) fs"
      using ih unfolding fs_def[symmetric] Let_def by blast+
    have "detect_runs varies [k..<n] start cur n = detected start k cur # fs"
      using False k by (simp add: fs_def Let_def)
    moreover have "uniform varies (detected start k cur)" "df_offset (detected start k cur) = start"
      "df_size (detected start k cur) = k - start" "df_changed (detected start k cur) = cur"
      using Suc.prems(1,3) by (simp_all add: uniform_def detected_def)
    ultimately show ?thesis
      using fs False Suc.prems(1) by (simp add: Let_def successively_Cons)
  qed
qed

lemma common_size_le: "s \<in> set snapshots \<Longrightarrow> common_size snapshots \<le> length s"
proof -
  have "foldl (\<lambda>n s. min n (length s)) a xs \<le> a \<and> (\<forall>s \<in> set xs. foldl (\<lambda>n s. min n (length s)) a xs \<le> length s)"
    for a and xs :: "bytes list"
  proof (induction xs arbitrary: a)
    case (Cons x xs)
    then show ?case using Cons[of "min a (length x)"] by auto
  qed simp
  then show "s \<in> set snapshots \<Longrightarrow> common_size snapshots \<le> length s" by (simp add: common_size_def)
qed

text \<open>
  C40: the detected fields tile the common part of the snapshots without gap or overlap; a field is
  marked changed exactly when each of its bytes differs between the snapshots, unchanged when none
  does; neighbouring fields differ in their mark.
\<close>

theorem autoDetect_tiles:
  assumes "snapshots \<noteq> []" "0 < common_size snapshots"
  shows "tiles 0 (common_size snapshots) (autoDetectStructureFieldsMulti snapshots) \<and>
    list_all (uniform (\<lambda>i. \<exists>s \<in> set snapshots. \<exists>t \<in> set snapshots. s ! i \<noteq> t ! i))
      (autoDetectStructureFieldsMulti snapshots) \<and>
    successively (\<lambda>f g. df_changed f \<noteq> df_changed g) (autoDetectStructureFieldsMulti snapshots)"
proof -
  obtain s0 rest where s: "snapshots = s0 # rest" using assms(1) by (cases snapshots) auto
  have "byteVaries snapshots = (\<lambda>i. \<exists>s \<in> set snapshots. \<exists>t \<in> set snapshots. s ! i \<noteq> t ! i)"
  proof
    fix i
    have "(\<exists>s \<in> set rest. s ! i \<noteq> s0 ! i) \<longleftrightarrow>
        (\<exists>s \<in> insert s0 (set rest). \<exists>t \<in> insert s0 (set rest). s ! i \<noteq> t ! i)"
      by (metis insert_iff)
    then show "byteVaries snapshots i = (\<exists>s \<in> set snapshots. \<exists>t \<in> set snapshots. s ! i \<noteq> t ! i)"
      by (simp add: byteVaries_def s list_ex_iff)
  qed
  then show ?thesis
    using detect_runs_spec[of 0 1 "common_size snapshots" "byteVaries snapshots" "byteVaries snapshots 0"] assms
    by (simp add: autoDetectStructureFieldsMulti_def Let_def)
qed

theorem autoDetect_tiles_witness:
  "tiles 0 3 (autoDetectStructureFieldsMulti [[1, 2, 3], [1, 5, 6, 7]])"
proof -
  have "common_size [[1, 2, 3], [1, 5, 6, 7 :: u8]] = 3" by (simp add: common_size_def)
  then show ?thesis using autoDetect_tiles[of "[[1, 2, 3], [1, 5, 6, 7]]"] by simp
qed

section \<open>Identifiers\<close>

definition cpp_identifier :: "string \<Rightarrow> bool" where
  "cpp_identifier s \<longleftrightarrow> s \<noteq> [] \<and> \<not> is_digit (hd s) \<and> list_all (\<lambda>c. is_alnum c \<or> c = CHR ''_'') s"

text \<open>
  the names of the exported struct are valid C++ identifiers whatever the input, provided the
  fallback consists of identifier characters.
\<close>

theorem sanitize_identifier:
  assumes "fallback \<noteq> []" "list_all (\<lambda>c. is_alnum c \<or> c = CHR ''_'') fallback"
  shows "cpp_identifier (sanitizeIdentifier input fallback)"
proof -
  let ?ok = "list_all (\<lambda>c. is_alnum c \<or> c = CHR ''_'')"
  have step: "?ok out \<Longrightarrow> ?ok (sanitize_step out c)" for out c by (simp add: sanitize_step_def)
  have "?ok out \<Longrightarrow> ?ok (foldl sanitize_step out input)" for out
    by (induction input arbitrary: out) (simp_all add: step)
  then have "?ok (foldl sanitize_step [] input)" by simp
  moreover have "set (rtrim p out) \<subseteq> set out" for p and out :: string
    unfolding rtrim_def using set_dropWhileD[of _ p "rev out"] by auto
  ultimately have "?ok (rtrim p (foldl sanitize_step [] input))" for p
    unfolding list_all_iff by blast
  moreover define out where "out = (let out = rtrim (\<lambda>c. c = CHR ''_'') (foldl sanitize_step [] input) in
      if out = [] then fallback else out)"
  ultimately have out: "?ok out" "out \<noteq> []" using assms by (simp_all add: Let_def)
  have "sanitizeIdentifier input fallback = (if is_digit (hd out) then CHR ''_'' # out else out)"
    by (simp add: sanitizeIdentifier_def out_def Let_def)
  moreover have "\<not> is_digit CHR ''_''" by (simp add: is_digit_def char_code_def)
  ultimately show ?thesis using out by (cases "is_digit (hd out)") (simp_all add: cpp_identifier_def)
qed

theorem sanitize_identifier_witness:
  "cpp_identifier (sanitizeIdentifier ''3rd  item!'' ''field_0'')"
  by (rule sanitize_identifier) (simp_all add: is_alnum_def char_code_def)

section \<open>Pointer chains\<close>

lemma chain_from_spec:
  "length (chain_from P s qr n current) \<le> n \<and> 0 \<notin> set (chain_from P s qr n current) \<and>
   (\<forall>i. Suc i < length (current # chain_from P s qr n current) \<longrightarrow>
      read_u64 P s ((current # chain_from P s qr n current) ! i) = Some (chain_from P s qr n current ! i))"
proof (induction n arbitrary: current)
  case (Suc n)
  show ?case
  proof (cases "isReadablePointer qr current \<and> (\<exists>v. read_u64 P s current = Some v \<and> v \<noteq> 0)")
    case True
    then obtain v where "read_u64 P s current = Some v" "v \<noteq> 0" by blast
    with True Suc.IH[of v] show ?thesis by (auto simp: nth_Cons split: nat.splits)
  next
    case False
    then show ?thesis by (auto split: option.splits)
  qed
qed simp

text \<open>
  each chain starts at the non-null pointer of its field, holds at most \<open>maxDepth\<close> addresses,
  and every address after the first is what the process holds at the one before.
\<close>

theorem followed_chains:
  assumes "c \<in> set (followStructurePointers P s qr base structure maxDepth)"
  shows "\<exists>f \<in> set (st_fields structure). sf_type f = VPointer \<and> pc_fieldName c = sf_name f \<and>
    pc_addresses c \<noteq> [] \<and> length (pc_addresses c) \<le> maxDepth \<and> 0 \<notin> set (pc_addresses c) \<and>
    read_u64 P s (base + of_nat (sf_offset f)) = Some (hd (pc_addresses c)) \<and>
    (\<forall>i. Suc i < length (pc_addresses c) \<longrightarrow>
       read_u64 P s (pc_addresses c ! i) = Some (pc_addresses c ! Suc i))"
proof -
  have depth: "0 < maxDepth" using assms by (auto simp: followStructurePointers_def split: if_splits)
  with assms obtain f where f: "f \<in> set (st_fields structure)" "field_chain P s qr base maxDepth f = Some c"
    by (auto simp: followStructurePointers_def map_filter_def split: if_splits)
  then obtain v where v: "read_u64 P s (base + of_nat (sf_offset f)) = Some v" "v \<noteq> 0" "sf_type f = VPointer"
    and c: "pc_fieldName c = sf_name f" "pc_addresses c = v # chain_from P s qr (maxDepth - 1) v"
    by (auto simp: field_chain_def split: option.splits if_splits)
  then show ?thesis
    using chain_from_spec[of P s qr "maxDepth - 1" v] f(1) depth
    by (intro bexI[of _ f]) auto
qed

theorem followed_chains_witness:
  "let s = store_bytes (\<lambda>_. None) 0x1010 (le_bytes 8 (0x2000 :: u64));
       chains = followStructurePointers (flat_process [] []) s (\<lambda>_. None) 0x1000
         \<lparr>st_name = ''S'', st_size = 24, st_fields = [new_field ''next'' 16 VPointer 8]\<rparr> 2
   in chains \<noteq> [] \<and> length (pc_addresses (hd chains)) \<le> 2"
proof -
  let ?s = "store_bytes (\<lambda>_. None) 0x1010 (le_bytes 8 (0x2000 :: u64))"
  let ?st = "\<lparr>st_name = ''S'', st_size = 24, st_fields = [new_field ''next'' 16 VPointer 8]\<rparr>"
  have "read_u64 (flat_process [] []) ?s 0x1010 = Some 0x2000"
    using flat_read_stored[of "le_bytes 8 (0x2000 :: u64)"]
    by (simp add: read_u64_def read_exact_def le_val_le_bytes_full del: store_bytes.simps)
  then have ne: "followStructurePointers (flat_process [] []) ?s (\<lambda>_. None) 0x1000 ?st 2 \<noteq> []"
    by (simp add: followStructurePointers_def map_filter_def field_chain_def new_field_def del: store_bytes.simps)
  from followed_chains[OF hd_in_set[OF this]] ne show ?thesis by (auto simp: Let_def)
qed

end
