(* ===== verification/Float_Bits.thy ===== *)
theory Float_Bits
  imports Cheat_Prelude Complex_Main
begin

text \<open>
  The \<^verbatim>\<open>float\<close> and \<^verbatim>\<open>double\<close> of the C++ code: IEEE 754 binary32 and binary64 in their memory
  layout, the quiet comparisons, and arithmetic rounded to nearest, ties to even.  A value is \<open>NaN\<close>,
  an infinity or a rational number; the sign of a zero is dropped, since no comparison of the code
  and no division it makes (its divisors are not zero) can tell the zeros apart.
\<close>

datatype fp = NaN | Infinite bool | Fin rat

record fp_format =
  ff_exp :: nat
  ff_man :: nat

definition binary32 :: fp_format where
  "binary32 = \<lparr>ff_exp = 8, ff_man = 23\<rparr>"

definition binary64 :: fp_format where
  "binary64 = \<lparr>ff_exp = 11, ff_man = 52\<rparr>"

definition fp_min_exp :: "fp_format \<Rightarrow> int" where
  "fp_min_exp F = 2 - 2 ^ (ff_exp F - 1)"

definition fp_decode :: "fp_format \<Rightarrow> int \<Rightarrow> fp" where
  "fp_decode F n =
     (let man = n mod 2 ^ ff_man F; ex = n div 2 ^ ff_man F mod 2 ^ ff_exp F;
          neg = odd (n div 2 ^ (ff_man F + ff_exp F));
          sig = (if ex = 0 then man else 2 ^ ff_man F + man);
          q = fp_min_exp F - int (ff_man F) + max 0 (ex - 1)
      in if ex = 2 ^ ff_exp F - 1 then (if man = 0 then Infinite neg else NaN)
         else Fin ((if neg then - 1 else 1) * of_int sig * 2 powi q))"

definition float_val :: "bytes \<Rightarrow> fp" where
  "float_val bs = fp_decode binary32 (uint (le_val bs :: u32))"

definition double_val :: "bytes \<Rightarrow> fp" where
  "double_val bs = fp_decode binary64 (uint (le_val bs :: u64))"

section \<open>Comparisons\<close>

fun fp_eq :: "fp \<Rightarrow> fp \<Rightarrow> bool" where
  "fp_eq NaN y = False"
| "fp_eq x NaN = False"
| "fp_eq (Infinite a) (Infinite b) = (a = b)"
| "fp_eq (Fin x) (Fin y) = (x = y)"
| "fp_eq x y = False"

fun fp_less :: "fp \<Rightarrow> fp \<Rightarrow> bool" where
  "fp_less NaN y = False"
| "fp_less x NaN = False"
| "fp_less (Infinite a) (Infinite b) = (a \<and> \<not> b)"
| "fp_less (Infinite a) (Fin y) = a"
| "fp_less (Fin x) (Infinite b) = (\<not> b)"
| "fp_less (Fin x) (Fin y) = (x < y)"

definition fp_le :: "fp \<Rightarrow> fp \<Rightarrow> bool" where
  "fp_le x y = (fp_less x y \<or> fp_eq x y)"

fun fp_finite :: "fp \<Rightarrow> bool" where
  "fp_finite (Fin x) = True"
| "fp_finite x = False"

lemma fp_le_Fin [simp]: "fp_le (Fin x) (Fin y) = (x \<le> y)"
  by (auto simp: fp_le_def)

lemma fp_finite_iff: "fp_finite x \<longleftrightarrow> (\<exists>r. x = Fin r)"
  by (cases x) auto

section \<open>Rounding\<close>

definition round_even :: "rat \<Rightarrow> int" where
  "round_even x =
     (let f = \<lfloor>x\<rfloor>; d = x - of_int f in
      if d < 1 / 2 then f else if 1 / 2 < d then f + 1 else if even f then f else f + 1)"

function bit_length :: "int \<Rightarrow> int" where
  "bit_length n = (if n \<le> 0 then 0 else 1 + bit_length (n div 2))"
  by pat_completeness auto
termination by (relation "measure nat") auto

declare bit_length.simps [simp del]

text \<open>\<open>log2_floor x\<close> is the exponent of the leading bit of a positive \<open>x\<close>.\<close>

definition log2_floor :: "rat \<Rightarrow> int" where
  "log2_floor x =
     (let (a, b) = quotient_of x; k = bit_length a - bit_length b in
      if 2 powi k \<le> x then k else k - 1)"

definition ulp_exp :: "fp_format \<Rightarrow> rat \<Rightarrow> int" where
  "ulp_exp F x = max (log2_floor \<bar>x\<bar>) (fp_min_exp F) - int (ff_man F)"

definition round_rat :: "fp_format \<Rightarrow> rat \<Rightarrow> rat" where
  "round_rat F x =
     (if x = 0 then 0
      else of_int (round_even (x / 2 powi ulp_exp F x)) * 2 powi ulp_exp F x)"

definition fp_round :: "fp_format \<Rightarrow> rat \<Rightarrow> fp" where
  "fp_round F x =
     (let r = round_rat F x in
      if 2 ^ 2 ^ (ff_exp F - 1) \<le> \<bar>r\<bar> then Infinite (r < 0) else Fin r)"

text \<open>A conversion between the formats, \<^verbatim>\<open>static_cast<T>\<close>.\<close>

fun fp_cast :: "fp_format \<Rightarrow> fp \<Rightarrow> fp" where
  "fp_cast F (Fin x) = fp_round F x"
| "fp_cast F x = x"

section \<open>Arithmetic of doubles\<close>

fun fp_neg :: "fp \<Rightarrow> fp" where
  "fp_neg NaN = NaN"
| "fp_neg (Infinite a) = Infinite (\<not> a)"
| "fp_neg (Fin x) = Fin (- x)"

fun fp_abs :: "fp \<Rightarrow> fp" where
  "fp_abs NaN = NaN"
| "fp_abs (Infinite a) = Infinite False"
| "fp_abs (Fin x) = Fin \<bar>x\<bar>"

fun fp_add :: "fp \<Rightarrow> fp \<Rightarrow> fp" where
  "fp_add NaN y = NaN"
| "fp_add x NaN = NaN"
| "fp_add (Infinite a) (Infinite b) = (if a = b then Infinite a else NaN)"
| "fp_add (Infinite a) (Fin y) = Infinite a"
| "fp_add (Fin x) (Infinite b) = Infinite b"
| "fp_add (Fin x) (Fin y) = fp_round binary64 (x + y)"

definition fp_sub :: "fp \<Rightarrow> fp \<Rightarrow> fp" where
  "fp_sub x y = fp_add x (fp_neg y)"

fun fp_mul :: "fp \<Rightarrow> fp \<Rightarrow> fp" where
  "fp_mul NaN y = NaN"
| "fp_mul x NaN = NaN"
| "fp_mul (Infinite a) (Infinite b) = Infinite (a \<noteq> b)"
| "fp_mul (Infinite a) (Fin y) = (if y = 0 then NaN else Infinite (a \<noteq> (y < 0)))"
| "fp_mul (Fin x) (Infinite b) = (if x = 0 then NaN else Infinite (b \<noteq> (x < 0)))"
| "fp_mul (Fin x) (Fin y) = fp_round binary64 (x * y)"

text \<open>Division by a divisor that is not zero.\<close>

fun fp_div :: "fp \<Rightarrow> fp \<Rightarrow> fp" where
  "fp_div NaN y = NaN"
| "fp_div x NaN = NaN"
| "fp_div (Infinite a) (Infinite b) = NaN"
| "fp_div (Infinite a) (Fin y) = Infinite (a \<noteq> (y < 0))"
| "fp_div (Fin x) (Infinite b) = Fin 0"
| "fp_div (Fin x) (Fin y) = fp_round binary64 (x / y)"

text \<open>
  \<^verbatim>\<open>std::max(a, b)\<close> is \<^verbatim>\<open>a < b ? b : a\<close>, \<^verbatim>\<open>std::min(a, b)\<close> is \<^verbatim>\<open>b < a ? b : a\<close>; \<^verbatim>\<open>std::trunc\<close> and
  \<^verbatim>\<open>std::round\<close> (halves away from zero).
\<close>

definition fp_max :: "fp \<Rightarrow> fp \<Rightarrow> fp" where
  "fp_max a b = (if fp_less a b then b else a)"

definition fp_min :: "fp \<Rightarrow> fp \<Rightarrow> fp" where
  "fp_min a b = (if fp_less b a then b else a)"

definition rat_trunc :: "rat \<Rightarrow> int" where
  "rat_trunc x = (if x < 0 then - \<lfloor>- x\<rfloor> else \<lfloor>x\<rfloor>)"

definition rat_round :: "rat \<Rightarrow> int" where
  "rat_round x = (if x < 0 then - \<lfloor>1 / 2 - x\<rfloor> else \<lfloor>x + 1 / 2\<rfloor>)"

fun fp_trunc :: "fp \<Rightarrow> fp" where
  "fp_trunc (Fin x) = Fin (of_int (rat_trunc x))"
| "fp_trunc x = x"

fun fp_std_round :: "fp \<Rightarrow> fp" where
  "fp_std_round (Fin x) = Fin (of_int (rat_round x))"
| "fp_std_round x = x"

section \<open>Facts on rounding\<close>

lemma pow2_less_imp: "2 powi m < (2 powi n :: rat) \<Longrightarrow> m < n"
  using power_int_increasing[of n m "2 :: rat"] by force

lemma bit_length_pos: "0 < n \<Longrightarrow> bit_length n = 1 + bit_length (n div 2)"
  by (subst bit_length.simps) simp

lemma bit_length_nonneg: "0 \<le> bit_length n"
proof (induction n rule: bit_length.induct)
  case (1 n)
  show ?case
  proof (cases "n \<le> 0")
    case True
    then show ?thesis by (subst bit_length.simps) simp
  next
    case False
    with 1 show ?thesis by (simp add: bit_length_pos)
  qed
qed

lemma bit_length_bounds: "0 < n \<Longrightarrow> 2 ^ nat (bit_length n) \<le> 2 * n \<and> n < 2 ^ nat (bit_length n)"
proof (induction n rule: bit_length.induct)
  case (1 n)
  let ?h = "n div 2"
  have n: "nat (bit_length n) = Suc (nat (bit_length ?h))"
    using "1.prems" bit_length_nonneg[of ?h] by (simp add: bit_length_pos nat_add_distrib)
  have h: "?h * 2 \<le> n" "n < 2 * (?h + 1)" by simp_all
  show ?case
  proof (cases "n = 1")
    case True
    have "bit_length (0 :: int) = 0" by (subst bit_length.simps) simp
    with True show ?thesis by (simp add: bit_length_pos)
  next
    case False
    then have "0 < ?h" using "1.prems" by simp
    with "1.IH" "1.prems" have ih: "2 ^ nat (bit_length ?h) \<le> 2 * ?h" "?h < 2 ^ nat (bit_length ?h)" by auto
    from ih h have "2 * 2 ^ nat (bit_length ?h) \<le> 2 * n" "n < 2 * 2 ^ nat (bit_length ?h)" by linarith+
    then show ?thesis by (simp add: n)
  qed
qed

lemma bit_length_rat:
  assumes "0 < n"
  shows "2 powi (bit_length n - 1) \<le> (of_int n :: rat)" "(of_int n :: rat) < 2 powi bit_length n"
proof -
  have b: "2 powi bit_length n = (of_int (2 ^ nat (bit_length n)) :: rat)"
    using bit_length_nonneg[of n] by (simp add: power_int_nonneg_exp)
  have "(of_int (2 ^ nat (bit_length n)) :: rat) \<le> of_int (2 * n)"
    using bit_length_bounds[OF assms] by (simp only: of_int_le_iff)
  then show "2 powi (bit_length n - 1) \<le> (of_int n :: rat)" unfolding power_int_diff[of 2] b[symmetric]
    by (simp add: power_int_diff b)
  show "(of_int n :: rat) < 2 powi bit_length n"
    unfolding b using bit_length_bounds[OF assms] by (simp only: of_int_less_iff)
qed

lemma log2_floor_bounds:
  assumes "0 < x"
  shows "2 powi log2_floor x \<le> x" "x < 2 powi (log2_floor x + 1)"
proof -
  obtain a b where q: "quotient_of x = (a, b)" by (cases "quotient_of x")
  have b: "0 < b" and x: "x = of_int a / of_int b"
    using q quotient_of_denom_pos quotient_of_div by blast+
  have a: "0 < a" using assms b unfolding x by (simp add: zero_less_divide_iff)
  let ?k = "bit_length a - bit_length b"
  have "x < 2 powi bit_length a / of_int b"
    unfolding x using bit_length_rat(2)[OF a] b by (simp add: divide_strict_right_mono)
  also have "\<dots> \<le> 2 powi bit_length a / 2 powi (bit_length b - 1)"
    using bit_length_rat(1)[OF b] by (intro divide_left_mono) (simp_all add: b)
  also have "\<dots> = 2 powi (bit_length a - (bit_length b - 1))" by (rule power_int_diff[symmetric]) simp
  also have "\<dots> = 2 powi (?k + 1)" by (simp add: algebra_simps)
  finally have up: "x < 2 powi (?k + 1)" .
  have "2 powi (?k - 1) = (2 powi (bit_length a - 1 - bit_length b) :: rat)" by (simp add: algebra_simps)
  also have "\<dots> = 2 powi (bit_length a - 1) / 2 powi bit_length b" by (rule power_int_diff) simp
  also have "\<dots> \<le> of_int a / 2 powi bit_length b"
    using bit_length_rat(1)[OF a] by (intro divide_right_mono) simp_all
  also have "\<dots> \<le> x"
    unfolding x using bit_length_rat(2)[OF b] a b by (intro divide_left_mono) simp_all
  finally have low: "2 powi (?k - 1) \<le> x" .
  show "2 powi log2_floor x \<le> x" "x < 2 powi (log2_floor x + 1)"
    using up low by (auto simp: log2_floor_def q Let_def)
qed

lemma round_even_int [simp]: "round_even (of_int n) = n"
  by (simp add: round_even_def)

lemma round_even_mono:
  assumes "x \<le> y"
  shows "round_even x \<le> round_even y"
proof (cases "\<lfloor>x\<rfloor> = \<lfloor>y\<rfloor>")
  case True
  with assms show ?thesis by (auto simp: round_even_def Let_def)
next
  case False
  then have "\<lfloor>x\<rfloor> + 1 \<le> \<lfloor>y\<rfloor>" using assms floor_mono[OF assms] by linarith
  then show ?thesis by (auto simp: round_even_def Let_def)
qed

lemma round_even_minus: "round_even (- x) = - round_even x"
proof (cases "x = of_int \<lfloor>x\<rfloor>")
  case True
  then show ?thesis by (metis of_int_minus round_even_int)
next
  case False
  then have f: "\<lfloor>- x\<rfloor> = - \<lfloor>x\<rfloor> - 1" by linarith
  show ?thesis unfolding round_even_def Let_def f by auto
qed

lemma ulp_exp_le:
  assumes "0 < x" "x \<le> y"
  shows "ulp_exp F x \<le> ulp_exp F y"
proof -
  have "2 powi log2_floor x < (2 powi (log2_floor y + 1) :: rat)"
    using log2_floor_bounds[of x] log2_floor_bounds[of y] assms by linarith
  then have "log2_floor x < log2_floor y + 1" by (rule pow2_less_imp)
  with assms show ?thesis by (simp add: ulp_exp_def)
qed

lemma round_rat_minus: "round_rat F (- x) = - round_rat F x"
  by (simp add: round_rat_def ulp_exp_def round_even_minus)

lemma round_rat_nonneg: "0 \<le> x \<Longrightarrow> 0 \<le> round_rat F x"
  using round_even_mono[of 0 "x / 2 powi ulp_exp F x"] round_even_int[of 0]
  by (simp add: round_rat_def)

text \<open>A multiple of the unit in the last place is not changed.\<close>

lemma round_rat_fixed:
  assumes "x = of_int n * 2 powi j" "\<bar>n\<bar> < 2 ^ (ff_man F + 1)" "fp_min_exp F - int (ff_man F) \<le> j"
  shows "round_rat F x = x"
proof (cases "x = 0")
  case False
  let ?u = "ulp_exp F x"
  have ax: "\<bar>x\<bar> = of_int \<bar>n\<bar> * 2 powi j" by (simp add: assms(1) abs_mult)
  have "(of_int \<bar>n\<bar> :: rat) < of_int (2 ^ (ff_man F + 1))" using assms(2) by (simp only: of_int_less_iff)
  then have "\<bar>x\<bar> < 2 powi (int (ff_man F + 1) + j)"
    unfolding ax by (subst power_int_add) (simp_all only: power_int_of_nat, simp_all)
  then have "2 powi log2_floor \<bar>x\<bar> < (2 powi (int (ff_man F + 1) + j) :: rat)"
    using log2_floor_bounds[of "\<bar>x\<bar>"] False by linarith
  then have "log2_floor \<bar>x\<bar> < int (ff_man F + 1) + j" by (rule pow2_less_imp)
  with assms(3) have le: "?u \<le> j" by (simp add: ulp_exp_def)
  have "x / 2 powi ?u = of_int n * 2 powi (j - ?u)" by (simp add: assms(1) power_int_diff)
  also have "\<dots> = of_int (n * 2 ^ nat (j - ?u))" using le by (simp add: power_int_nonneg_exp)
  finally have q: "x / 2 powi ?u = of_int (n * 2 ^ nat (j - ?u))" .
  then have "round_even (x / 2 powi ?u) = n * 2 ^ nat (j - ?u)" by (simp only: round_even_int)
  with q have "of_int (round_even (x / 2 powi ?u)) = x / 2 powi ?u"
    by simp
  then show ?thesis by (simp add: round_rat_def)
qed (simp add: round_rat_def)

lemma round_rat_mono_pos:
  assumes "0 < x" "x \<le> y"
  shows "round_rat F x \<le> round_rat F y"
proof (cases "ulp_exp F x = ulp_exp F y")
  case True
  have "x / 2 powi ulp_exp F y \<le> y / 2 powi ulp_exp F y" using assms by (simp add: divide_right_mono)
  from round_even_mono[OF this] True assms show ?thesis by (simp add: round_rat_def)
next
  case False
  then have lt: "ulp_exp F x < ulp_exp F y" using ulp_exp_le[OF assms, of F] by simp
  then have ly: "ulp_exp F y = log2_floor y - int (ff_man F)" and
    lx: "log2_floor x < log2_floor y" "ulp_exp F x < log2_floor y - int (ff_man F)"
    using assms by (auto simp: ulp_exp_def max_def split: if_splits)
  let ?p = "2 powi log2_floor y :: rat"
  have p: "?p = of_int 1 * 2 powi log2_floor y" by simp
  have "2 powi (log2_floor x + 1) \<le> ?p" using lx(1) by (intro power_int_increasing) simp_all
  then have xp: "x \<le> ?p" using log2_floor_bounds[of x] assms by linarith
  have yp: "?p \<le> y" using log2_floor_bounds[of y] assms by linarith
  have step: "?p = of_int (2 ^ nat (log2_floor y - ulp_exp F z)) * 2 powi ulp_exp F z"
    if "ulp_exp F z \<le> log2_floor y" for z
    using that by (simp add: power_int_nonneg_exp[symmetric] power_int_diff)
  have "round_even (x / 2 powi ulp_exp F x) \<le> 2 ^ nat (log2_floor y - ulp_exp F x)"
  proof -
    have "x / 2 powi ulp_exp F x \<le> of_int (2 ^ nat (log2_floor y - ulp_exp F x))"
      using xp lx by (simp add: step[of x] divide_le_eq)
    from round_even_mono[OF this] show ?thesis by (simp only: round_even_int)
  qed
  then have "(of_int (round_even (x / 2 powi ulp_exp F x)) :: rat) \<le> of_int (2 ^ nat (log2_floor y - ulp_exp F x))"
    by (simp only: of_int_le_iff)
  then have a: "round_rat F x \<le> ?p" using assms lx by (simp add: round_rat_def step[of x])
  have "2 ^ nat (log2_floor y - ulp_exp F y) \<le> round_even (y / 2 powi ulp_exp F y)"
  proof -
    have "of_int (2 ^ nat (log2_floor y - ulp_exp F y)) \<le> y / 2 powi ulp_exp F y"
      using yp ly by (simp add: step[of y] le_divide_eq)
    from round_even_mono[OF this] show ?thesis by (simp only: round_even_int)
  qed
  then have "of_int (2 ^ nat (log2_floor y - ulp_exp F y)) \<le> (of_int (round_even (y / 2 powi ulp_exp F y)) :: rat)"
    by (simp only: of_int_le_iff)
  then have "?p \<le> round_rat F y" using assms ly by (simp add: round_rat_def step[of y])
  with a show ?thesis by linarith
qed

lemma round_rat_mono: "x \<le> y \<Longrightarrow> round_rat F x \<le> round_rat F y"
proof -
  assume xy: "x \<le> y"
  consider "0 < x" | "x \<le> 0" "0 \<le> y" | "y < 0" by linarith
  then show ?thesis
  proof cases
    case 1
    then show ?thesis using xy by (rule round_rat_mono_pos)
  next
    case 2
    then show ?thesis using round_rat_nonneg[of y F] round_rat_nonneg[of "- x" F] by (simp add: round_rat_minus)
  next
    case 3
    then show ?thesis using round_rat_mono_pos[of "- y" "- x" F] xy by (simp add: round_rat_minus)
  qed
qed

text \<open>The values a format holds: an integer of \<open>ff_man + 1\<close> bits times a power of two in range.\<close>

definition holds_rat :: "fp_format \<Rightarrow> rat \<Rightarrow> bool" where
  "holds_rat F x \<longleftrightarrow> \<bar>x\<bar> < 2 ^ 2 ^ (ff_exp F - 1) \<and>
     (\<exists>n j. x = of_int n * 2 powi j \<and> \<bar>n\<bar> < 2 ^ (ff_man F + 1) \<and> fp_min_exp F - int (ff_man F) \<le> j)"

lemma fp_round_holds: "holds_rat F x \<Longrightarrow> fp_round F x = Fin x"
  unfolding holds_rat_def fp_round_def Let_def using round_rat_fixed[of x _ _ F] by fastforce

lemma fp_le_Infinite [simp]: "fp_le x (Infinite False) = (x \<noteq> NaN)" "fp_le (Infinite True) x = (x \<noteq> NaN)"
  by (cases x; auto simp: fp_le_def)+

lemma fp_round_mono:
  assumes "x \<le> y"
  shows "fp_le (fp_round F x) (fp_round F y)"
  using round_rat_mono[OF assms, of F] by (auto simp: fp_round_def Let_def fp_le_def)

lemma fp_decode_holds:
  assumes "0 < ff_exp F" "1 < 2 ^ ff_exp F - (1 :: int)" "fp_decode F n = Fin x"
  shows "holds_rat F x"
proof -
  let ?M = "2 ^ ff_man F :: int" and ?E = "2 ^ ff_exp F :: int"
  define man where "man = n mod ?M"
  define ex where "ex = n div ?M mod ?E"
  define sig where "sig = (if ex = 0 then man else ?M + man)"
  define sg where "sg = (if odd (n div 2 ^ (ff_man F + ff_exp F)) then - 1 else 1 :: int)"
  define q where "q = fp_min_exp F - int (ff_man F) + max 0 (ex - 1)"
  have dec: "fp_decode F n = (if ex = ?E - 1 then if man = 0 then Infinite (sg < 0) else NaN
      else Fin ((if sg < 0 then - 1 else 1) * of_int sig * 2 powi q))"
    by (simp add: fp_decode_def Let_def man_def ex_def sig_def sg_def q_def)
  have ex: "ex \<noteq> ?E - 1"
  proof
    assume "ex = ?E - 1"
    then show False using dec unfolding assms(3) by (cases "man = 0") simp_all
  qed
  from dec have x': "x = (if sg < 0 then - 1 else 1) * of_int sig * 2 powi q"
    unfolding assms(3) if_not_P[OF ex] fp.inject .
  have sg: "sg = - 1 \<or> sg = 1" unfolding sg_def by (rule if_split[THEN iffD2]) blast
  then have "of_int (sg * k) = (if sg < 0 then - 1 else 1) * (of_int k :: rat)" for k by auto
  then have x: "x = of_int (sg * sig) * 2 powi q" by (simp only: x')
  have man: "0 \<le> man" "man < ?M" by (simp_all add: man_def)
  have "0 \<le> ex" "ex < ?E" by (simp_all add: ex_def)
  with ex have ex': "0 \<le> ex" "ex < ?E - 1" by linarith+
  have sig: "\<bar>sg * sig\<bar> < 2 ^ (ff_man F + 1)" "0 \<le> sig"
    using sg man ex' by (auto simp: sig_def)
  have q: "fp_min_exp F - int (ff_man F) \<le> q" by (simp add: q_def)
  have qu: "q \<le> 2 ^ (ff_exp F - 1) - int (ff_man F) - 1"
  proof -
    have "?E = 2 * 2 ^ (ff_exp F - 1)" using assms(1) by (cases "ff_exp F") simp_all
    then show ?thesis using ex' assms(2) by (auto simp: q_def fp_min_exp_def max_def)
  qed
  have "\<bar>x\<bar> = of_int \<bar>sg * sig\<bar> * 2 powi q" by (simp add: x abs_mult)
  also have "\<dots> < 2 ^ (ff_man F + 1) * 2 powi q"
  proof -
    have "(of_int \<bar>sg * sig\<bar> :: rat) < of_int (2 ^ (ff_man F + 1))" using sig(1) by (simp only: of_int_less_iff)
    then show ?thesis by simp
  qed
  also have "\<dots> \<le> 2 ^ (ff_man F + 1) * 2 powi (2 ^ (ff_exp F - 1) - int (ff_man F) - 1)"
    using power_int_increasing[OF qu, of "2 :: rat"] by simp
  also have "\<dots> = 2 powi int (ff_man F + 1) * 2 powi (2 ^ (ff_exp F - 1) - int (ff_man F) - 1)"
    by (simp only: power_int_of_nat)
  also have "\<dots> = 2 powi (int (ff_man F + 1) + (2 ^ (ff_exp F - 1) - int (ff_man F) - 1))"
    by (rule power_int_add[symmetric]) simp
  also have "\<dots> = 2 powi int (2 ^ (ff_exp F - 1))" by simp
  also have "\<dots> = 2 ^ 2 ^ (ff_exp F - 1)" by (simp only: power_int_of_nat)
  finally show ?thesis using x sig(1) q unfolding holds_rat_def by blast
qed

lemma float_val_holds: "float_val bs = Fin x \<Longrightarrow> holds_rat binary32 x"
  unfolding float_val_def by (rule fp_decode_holds) (simp_all add: binary32_def)

lemma double_val_holds: "double_val bs = Fin x \<Longrightarrow> holds_rat binary64 x"
  unfolding double_val_def by (rule fp_decode_holds) (simp_all add: binary64_def)

text \<open>Every float is a double, and small integers are doubles.\<close>

lemma holds_32_64: "holds_rat binary32 x \<Longrightarrow> holds_rat binary64 x"
proof -
  assume "holds_rat binary32 x"
  then obtain n j where x: "\<bar>x\<bar> < 2 ^ 128" "x = of_int n * 2 powi j" "\<bar>n\<bar> < 2 ^ 24" "- 149 \<le> j"
    by (auto simp: holds_rat_def binary32_def fp_min_exp_def)
  have "(2 :: rat) ^ 128 \<le> 2 ^ 1024" by (rule power_increasing) simp_all
  with x(1) have "\<bar>x\<bar> < 2 ^ 1024" by linarith
  moreover have "\<bar>n\<bar> < 2 ^ 53" using x(3) by simp
  moreover have "- 1074 \<le> j" using x(4) by simp
  ultimately show ?thesis unfolding holds_rat_def
    using x(2) by (intro conjI exI[of _ n] exI[of _ j]) (simp_all add: binary64_def fp_min_exp_def)
qed

lemma holds_small_int: "\<bar>n\<bar> < 2 ^ 53 \<Longrightarrow> holds_rat binary64 (of_int n)"
proof -
  assume n: "\<bar>n\<bar> < 2 ^ 53"
  then have "(of_int \<bar>n\<bar> :: rat) < of_int (2 ^ 53)" by (simp only: of_int_less_iff)
  also have "\<dots> \<le> 2 ^ 1024" using power_increasing[of 53 1024 "2 :: rat"] by simp
  finally have "\<bar>of_int n :: rat\<bar> < 2 ^ 1024" by simp
  with n show ?thesis
    unfolding holds_rat_def binary64_def fp_min_exp_def by (intro conjI exI[of _ n] exI[of _ 0]) simp_all
qed

end
