(* ===== verification/Scan_Config.thy ===== *)
theory Scan_Config
  imports Core_Types Bin_Format Float_Bits
begin

text \<open>
  The configuration of a memory scan (\<^verbatim>\<open>ScanConfig\<close> of \<^verbatim>\<open>src/src/scanner/memory_scanner.hpp\<close>): the
  comparison kinds in the order of the enumeration, the terms of a grouped scan, the sizes of a
  record, and the parsers of array-of-bytes, binary and grouped patterns.  Sizes and alignments
  (\<^verbatim>\<open>size_t\<close>) are natural numbers below \<open>2 ^ 64\<close>, with the overflow checks of the code written out;
  \<^verbatim>\<open>int64_t\<close> values are 64-bit words.
\<close>

section \<open>Comparison kinds\<close>

datatype ScanCompare =
  Exact | Greater | Less | Between | Unknown | Changed | Unchanged | Increased | Decreased
  | IncreasedBy | DecreasedBy | SameAsFirst

primrec cmp_rank :: "ScanCompare \<Rightarrow> nat" where
  "cmp_rank Exact = 0"
| "cmp_rank Greater = 1"
| "cmp_rank Less = 2"
| "cmp_rank Between = 3"
| "cmp_rank Unknown = 4"
| "cmp_rank Changed = 5"
| "cmp_rank Unchanged = 6"
| "cmp_rank Increased = 7"
| "cmp_rank Decreased = 8"
| "cmp_rank IncreasedBy = 9"
| "cmp_rank DecreasedBy = 10"
| "cmp_rank SameAsFirst = 11"

lemma cmp_rank_inj: "cmp_rank a = cmp_rank b \<Longrightarrow> a = b"
  by (cases a; cases b) simp_all

instantiation ScanCompare :: linorder
begin

definition less_eq_ScanCompare :: "ScanCompare \<Rightarrow> ScanCompare \<Rightarrow> bool" where
  "less_eq_ScanCompare a b = (cmp_rank a \<le> cmp_rank b)"

definition less_ScanCompare :: "ScanCompare \<Rightarrow> ScanCompare \<Rightarrow> bool" where
  "less_ScanCompare a b = (cmp_rank a < cmp_rank b)"

instance
  by standard (auto simp: less_eq_ScanCompare_def less_ScanCompare_def dest: cmp_rank_inj)

end

lemma Changed_le [simp]: "Changed \<le> c \<longleftrightarrow> 5 \<le> cmp_rank c"
  by (simp add: less_eq_ScanCompare_def)

definition supportsPercentageCompare :: "ScanCompare \<Rightarrow> bool" where
  "supportsPercentageCompare cmp = (case cmp of
       Greater \<Rightarrow> True | Less \<Rightarrow> True | Between \<Rightarrow> True | Increased \<Rightarrow> True | Decreased \<Rightarrow> True
     | _ \<Rightarrow> False)"

section \<open>The configuration\<close>

datatype ProtMatch = ProtAny | ProtYes | ProtNo

record GroupedTerm =
  gt_type :: ValueType
  gt_offset :: nat
  gt_int :: u64
  gt_float :: fp
  gt_string :: string
  gt_bytes :: bytes
  gt_byteArrayMask :: bytes
  gt_byteMask :: bytes

definition new_term :: GroupedTerm where
  "new_term = \<lparr>gt_type = VInt32, gt_offset = 0, gt_int = 0, gt_float = Fin 0, gt_string = [],
     gt_bytes = [], gt_byteArrayMask = [], gt_byteMask = []\<rparr>"

record ScanConfig =
  cf_type :: ValueType
  cf_cmp :: ScanCompare
  cf_alignment :: nat
  cf_start :: u64
  cf_stop :: u64
  cf_writable :: ProtMatch
  cf_executable :: ProtMatch
  cf_private :: bool
  cf_image :: bool
  cf_mapped :: bool
  cf_rounding :: int
  cf_decimals :: int
  cf_tolerance :: fp
  cf_percentage :: bool
  cf_percent :: fp
  cf_percent2 :: fp
  cf_int :: u64
  cf_int2 :: u64
  cf_float :: fp
  cf_float2 :: fp
  cf_string :: string
  cf_encoding :: string
  cf_caseSensitive :: bool
  cf_bytes :: bytes
  cf_byteArrayMask :: bytes
  cf_byteMask :: bytes
  cf_binary :: string
  cf_terms :: "GroupedTerm list"
  cf_grouped :: string
  cf_formula :: string
  cf_customSize :: nat

definition default_config :: ScanConfig where
  "default_config = \<lparr>cf_type = VInt32, cf_cmp = Exact, cf_alignment = 4, cf_start = 0,
     cf_stop = 0x7FFFFFFFFFFF, cf_writable = ProtAny, cf_executable = ProtAny, cf_private = True,
     cf_image = True, cf_mapped = True, cf_rounding = 0, cf_decimals = - 1, cf_tolerance = Fin 0,
     cf_percentage = False, cf_percent = Fin 0, cf_percent2 = Fin 0, cf_int = 0, cf_int2 = 0,
     cf_float = Fin 0, cf_float2 = Fin 0, cf_string = [], cf_encoding = [], cf_caseSensitive = True,
     cf_bytes = [], cf_byteArrayMask = [], cf_byteMask = [], cf_binary = [], cf_terms = [],
     cf_grouped = [], cf_formula = [], cf_customSize = 4\<rparr>"

section \<open>Sizes\<close>

definition size_max :: nat where
  "size_max = 2 ^ 64 - 1"

fun valueSizeFor :: "ValueType \<Rightarrow> nat" where
  "valueSizeFor VByte = 1"
| "valueSizeFor VInt16 = 2"
| "valueSizeFor VInt32 = 4"
| "valueSizeFor VInt64 = 8"
| "valueSizeFor VPointer = 8"
| "valueSizeFor VFloat = 4"
| "valueSizeFor VDouble = 8"
| "valueSizeFor VString = 1"
| "valueSizeFor VUnicodeString = 2"
| "valueSizeFor t = 4"

definition groupedTermValueSize :: "GroupedTerm \<Rightarrow> nat" where
  "groupedTermValueSize t = (case gt_type t of
       VByte \<Rightarrow> 1
     | VInt16 \<Rightarrow> 2
     | VInt32 \<Rightarrow> 4 | VFloat \<Rightarrow> 4
     | VInt64 \<Rightarrow> 8 | VPointer \<Rightarrow> 8 | VDouble \<Rightarrow> 8
     | VString \<Rightarrow> max 1 (length (gt_string t))
     | VUnicodeString \<Rightarrow> max 2 (length (gt_string t) * 2)
     | VByteArray \<Rightarrow> max 1 (length (gt_bytes t))
     | VBinary \<Rightarrow> max 1 (length (gt_bytes t))
     | _ \<Rightarrow> 0)"

fun grouped_size :: "GroupedTerm list \<Rightarrow> nat \<Rightarrow> nat" where
  "grouped_size [] blockSize = blockSize"
| "grouped_size (t # ts) blockSize =
     (let termSize = groupedTermValueSize t in
      if termSize = 0 then grouped_size ts blockSize
      else if size_max - termSize < gt_offset t then 0
      else grouped_size ts (max blockSize (gt_offset t + termSize)))"

definition groupedValueSize :: "ScanConfig \<Rightarrow> nat" where
  "groupedValueSize cfg = grouped_size (cf_terms cfg) 0"

text \<open>
  \<^verbatim>\<open>encodeStringBytes\<close> gives UTF-8 and empty encodings unchanged and hands every other one to
  \<^verbatim>\<open>iconv\<close>, which is not modelled: \<open>conv encoding text\<close> stands for its result, or the message of
  the exception.
\<close>

definition trimCopy :: "string \<Rightarrow> string" where
  "trimCopy s = rtrim is_space (dropWhile is_space s)"

definition lower_char :: "char \<Rightarrow> char" where
  "lower_char c = (if 65 \<le> char_code c \<and> char_code c \<le> 90 then char_of (char_code c + 32) else c)"

definition lowerText :: "string \<Rightarrow> string" where
  "lowerText s = map lower_char s"

definition isUtf8Encoding :: "string \<Rightarrow> bool" where
  "isUtf8Encoding enc =
     (let n = lowerText (trimCopy enc) in n = [] \<or> n = ''utf8'' \<or> n = ''utf-8'')"

definition encodeStringBytes :: "(string \<Rightarrow> string \<Rightarrow> string + bytes) \<Rightarrow> string \<Rightarrow> string \<Rightarrow> string + bytes" where
  "encodeStringBytes conv txt enc = (if isUtf8Encoding enc then Inr (name_bytes txt) else conv enc txt)"

definition stringValueSize :: "(string \<Rightarrow> string \<Rightarrow> string + bytes) \<Rightarrow> ScanConfig \<Rightarrow> string + nat" where
  "stringValueSize conv cfg =
     (case encodeStringBytes conv (cf_string cfg) (cf_encoding cfg) of
        Inl e \<Rightarrow> Inl e
      | Inr bs \<Rightarrow> Inr (length bs))"

definition valueSizeForConfig :: "(string \<Rightarrow> string \<Rightarrow> string + bytes) \<Rightarrow> ScanConfig \<Rightarrow> string + nat" where
  "valueSizeForConfig conv cfg = (case cf_type cfg of
       VString \<Rightarrow> (case stringValueSize conv cfg of Inl e \<Rightarrow> Inl e | Inr n \<Rightarrow> Inr (max 1 n))
     | VUnicodeString \<Rightarrow> Inr (max 2 (length (cf_string cfg) * 2))
     | VByteArray \<Rightarrow> Inr (max 1 (length (cf_bytes cfg)))
     | VBinary \<Rightarrow> Inr (max 1 (length (cf_bytes cfg)))
     | VAll \<Rightarrow> Inr 8
     | VGrouped \<Rightarrow> Inr (max 1 (groupedValueSize cfg))
     | VCustom \<Rightarrow> Inr (max 1 (cf_customSize cfg))
     | VByte \<Rightarrow> Inr 1
     | VInt16 \<Rightarrow> Inr 2
     | VInt32 \<Rightarrow> Inr 4 | VFloat \<Rightarrow> Inr 4
     | VInt64 \<Rightarrow> Inr 8 | VPointer \<Rightarrow> Inr 8 | VDouble \<Rightarrow> Inr 8)"

definition utf16LeBytes :: "string \<Rightarrow> bytes" where
  "utf16LeBytes s = concat (map (\<lambda>c. [of_nat (of_char c), 0]) s)"

end
