(* ===== verification/Scan_Compare.thy ===== *)
theory Scan_Compare
  imports Scan_Config
begin

text \<open>
  The comparisons of \<^verbatim>\<open>src/src/scanner/memory_scanner.cpp\<close>.  The type \<^verbatim>\<open>T\<close> of the templates is an
  \<open>int_type\<close> (width and sign; values are integers) or an \<open>fp_type\<close> (\<^verbatim>\<open>float\<close>, \<^verbatim>\<open>double\<close>; values are
  \<open>fp\<close>), and \<open>cmp_ops\<close> holds the relational operators of \<^verbatim>\<open>T\<close>.  \<open>pow10 d\<close> stands for
  \<^verbatim>\<open>std::pow(10.0, d)\<close>, whose last digits the C library does not specify.
\<close>

section \<open>Number types\<close>

record int_type =
  it_size :: nat
  it_signed :: bool

definition uint8_t :: int_type where "uint8_t = \<lparr>it_size = 1, it_signed = False\<rparr>"
definition int8_t :: int_type where "int8_t = \<lparr>it_size = 1, it_signed = True\<rparr>"
definition int16_t :: int_type where "int16_t = \<lparr>it_size = 2, it_signed = True\<rparr>"
definition int32_t :: int_type where "int32_t = \<lparr>it_size = 4, it_signed = True\<rparr>"
definition int64_t :: int_type where "int64_t = \<lparr>it_size = 8, it_signed = True\<rparr>"
definition uintptr_t :: int_type where "uintptr_t = \<lparr>it_size = 8, it_signed = False\<rparr>"

definition int_wrap :: "int_type \<Rightarrow> int \<Rightarrow> int" where
  "int_wrap T k =
     (if it_signed T then signed_take_bit (8 * it_size T - 1) k else take_bit (8 * it_size T) k)"

text \<open>\<^verbatim>\<open>static_cast<T>\<close> of an \<^verbatim>\<open>int64_t\<close>, and the \<^verbatim>\<open>T\<close> stored at the front of some bytes.\<close>

definition int_of :: "int_type \<Rightarrow> u64 \<Rightarrow> int" where
  "int_of T w = int_wrap T (uint w)"

definition int_val :: "int_type \<Rightarrow> bytes \<Rightarrow> int" where
  "int_val T bs = int_of T (le_val (take (it_size T) bs))"

record fp_type =
  ft_size :: nat
  ft_format :: fp_format
  ft_val :: "bytes \<Rightarrow> fp"

definition float_t :: fp_type where
  "float_t = \<lparr>ft_size = 4, ft_format = binary32, ft_val = (\<lambda>bs. float_val (take 4 bs))\<rparr>"

definition double_t :: fp_type where
  "double_t = \<lparr>ft_size = 8, ft_format = binary64, ft_val = (\<lambda>bs. double_val (take 8 bs))\<rparr>"

section \<open>The comparison functions\<close>

record 't cmp_ops =
  co_eq :: "'t \<Rightarrow> 't \<Rightarrow> bool"
  co_less :: "'t \<Rightarrow> 't \<Rightarrow> bool"
  co_le :: "'t \<Rightarrow> 't \<Rightarrow> bool"

definition int_ops :: "int cmp_ops" where
  "int_ops = \<lparr>co_eq = (=), co_less = (<), co_le = (\<le>)\<rparr>"

definition fp_ops :: "fp cmp_ops" where
  "fp_ops = \<lparr>co_eq = fp_eq, co_less = fp_less, co_le = fp_le\<rparr>"

definition cmpExact :: "'t cmp_ops \<Rightarrow> 't \<Rightarrow> 't \<Rightarrow> 't \<Rightarrow> bool" where
  "cmpExact A c v v2 = co_eq A c v"

definition cmpGreater :: "'t cmp_ops \<Rightarrow> 't \<Rightarrow> 't \<Rightarrow> 't \<Rightarrow> bool" where
  "cmpGreater A c v v2 = co_less A v c"

definition cmpLess :: "'t cmp_ops \<Rightarrow> 't \<Rightarrow> 't \<Rightarrow> 't \<Rightarrow> bool" where
  "cmpLess A c v v2 = co_less A c v"

definition cmpBetween :: "'t cmp_ops \<Rightarrow> 't \<Rightarrow> 't \<Rightarrow> 't \<Rightarrow> bool" where
  "cmpBetween A c v v2 =
     (if co_le A v v2 then co_le A v c \<and> co_le A c v2 else co_le A v2 c \<and> co_le A c v)"

definition cmpChanged :: "'t cmp_ops \<Rightarrow> 't \<Rightarrow> 't \<Rightarrow> 't \<Rightarrow> bool" where
  "cmpChanged A c v v2 = (\<not> co_eq A c v)"

definition cmpUnknown :: "'t cmp_ops \<Rightarrow> 't \<Rightarrow> 't \<Rightarrow> 't \<Rightarrow> bool" where
  "cmpUnknown A c v v2 = True"

primrec getCompare :: "ScanCompare \<Rightarrow> 't cmp_ops \<Rightarrow> 't \<Rightarrow> 't \<Rightarrow> 't \<Rightarrow> bool" where
  "getCompare Exact = cmpExact"
| "getCompare Greater = cmpGreater"
| "getCompare Less = cmpLess"
| "getCompare Between = cmpBetween"
| "getCompare Changed = cmpChanged"
| "getCompare Unchanged = cmpExact"
| "getCompare Increased = cmpGreater"
| "getCompare Decreased = cmpLess"
| "getCompare SameAsFirst = cmpExact"
| "getCompare Unknown = cmpUnknown"
| "getCompare IncreasedBy = cmpExact"
| "getCompare DecreasedBy = cmpExact"

lemmas cmp_defs = cmpExact_def cmpGreater_def cmpLess_def cmpBetween_def cmpChanged_def cmpUnknown_def

lemma ops_simps [simp]:
  "co_eq int_ops = (=)" "co_less int_ops = (<)" "co_le int_ops = (\<le>)"
  "co_eq fp_ops = fp_eq" "co_less fp_ops = fp_less" "co_le fp_ops = fp_le"
  by (simp_all add: int_ops_def fp_ops_def)

section \<open>Floating point\<close>

definition fp_lit :: "rat \<Rightarrow> fp" where
  "fp_lit x = fp_round binary64 x"

definition extreme_tolerance :: "ScanConfig \<Rightarrow> fp \<Rightarrow> fp" where
  "extreme_tolerance cfg s =
     (if fp_less (Fin 0) (cf_tolerance cfg) then cf_tolerance cfg
      else fp_max (fp_lit (1 / 10 ^ 6)) (fp_mul (fp_abs s) (fp_lit (1 / 10 ^ 6))))"

definition fp_round_eq :: "fp \<Rightarrow> fp \<Rightarrow> bool" where
  "fp_round_eq c s = fp_eq (fp_std_round c) (fp_std_round s)"

text \<open>
  \<^verbatim>\<open>std::llround\<close> is compared where both operands fit a \<^verbatim>\<open>long long\<close>, \<^verbatim>\<open>std::round\<close> otherwise: the
  rounded integers agree in both cases.
\<close>

definition compareFloatingExact :: "(int \<Rightarrow> fp) \<Rightarrow> ScanConfig \<Rightarrow> fp \<Rightarrow> fp \<Rightarrow> bool" where
  "compareFloatingExact pow10 cfg c s =
     (if \<not> fp_finite c then False
      else if cf_rounding cfg = 1 then
        (if 0 \<le> cf_decimals cfg
         then fp_le (fp_abs (fp_sub c s)) (fp_mul (Fin (1 / 2)) (pow10 (- cf_decimals cfg)))
         else fp_round_eq c s)
      else if cf_rounding cfg = 2 then fp_eq (fp_trunc c) (fp_trunc s)
      else if cf_rounding cfg = 3 then fp_le (fp_abs (fp_sub c s)) (extreme_tolerance cfg s)
      else fp_eq c s)"

definition compareFloating :: "(int \<Rightarrow> fp) \<Rightarrow> ScanConfig \<Rightarrow> fp \<Rightarrow> fp \<Rightarrow> fp \<Rightarrow> bool" where
  "compareFloating pow10 cfg c s s2 =
     (if cf_cmp cfg = Exact then compareFloatingExact pow10 cfg c s
      else getCompare (cf_cmp cfg) fp_ops c s s2)"

text \<open>\<open>c\<close> and \<open>old\<close> are the operands converted to \<^verbatim>\<open>double\<close>.\<close>

definition comparePercentage :: "ScanConfig \<Rightarrow> fp \<Rightarrow> fp \<Rightarrow> bool" where
  "comparePercentage cfg c old =
     (let base = fp_abs old in
      if fp_eq base (Fin 0) then False
      else let deltaPct = fp_mul (fp_div (fp_sub c old) base) (Fin 100) in
        (case cf_cmp cfg of
           Increased \<Rightarrow> fp_le (cf_percent cfg) deltaPct
         | Greater \<Rightarrow> fp_le (cf_percent cfg) deltaPct
         | Decreased \<Rightarrow> fp_le deltaPct (fp_neg (cf_percent cfg))
         | Less \<Rightarrow> fp_le deltaPct (fp_neg (cf_percent cfg))
         | Between \<Rightarrow>
             (let lo = fp_min (cf_percent cfg) (cf_percent2 cfg);
                  hi = fp_max (cf_percent cfg) (cf_percent2 cfg)
              in fp_le lo deltaPct \<and> fp_le deltaPct hi)
         | _ \<Rightarrow> False))"

section \<open>Next scan, one number\<close>

definition int_to_double :: "int \<Rightarrow> fp" where
  "int_to_double k = fp_round binary64 (of_int k)"

definition compareNextInt :: "int_type \<Rightarrow> ScanConfig \<Rightarrow> bytes \<Rightarrow> bytes \<Rightarrow> bool" where
  "compareNextInt T cfg currentVal oldVal =
     (let cur = int_val T currentVal; old = int_val T oldVal; cmp = cf_cmp cfg in
      if cf_percentage cfg \<and> supportsPercentageCompare cmp
      then comparePercentage cfg (int_to_double cur) (int_to_double old)
      else if cmp = SameAsFirst then cur = old
      else if cmp = IncreasedBy then old < cur \<and> int_wrap T (cur - old) = int_of T (cf_int cfg)
      else if cmp = DecreasedBy then cur < old \<and> int_wrap T (old - cur) = int_of T (cf_int cfg)
      else if Changed \<le> cmp then getCompare cmp int_ops cur old 0
      else getCompare cmp int_ops cur (int_of T (cf_int cfg)) (int_of T (cf_int2 cfg)))"

definition delta_matches :: "ScanConfig \<Rightarrow> fp \<Rightarrow> fp \<Rightarrow> bool" where
  "delta_matches cfg hi lo =
     (let d = cf_float cfg; tol = fp_max (fp_lit (1 / 10 ^ 6)) (fp_mul (fp_abs d) (fp_lit (1 / 10 ^ 5)))
      in fp_less lo hi \<and> fp_le (fp_abs (fp_sub (fp_sub hi lo) d)) tol)"

definition compareNextFloat :: "(int \<Rightarrow> fp) \<Rightarrow> fp_type \<Rightarrow> ScanConfig \<Rightarrow> bytes \<Rightarrow> bytes \<Rightarrow> bool" where
  "compareNextFloat pow10 T cfg currentVal oldVal =
     (let cur = ft_val T currentVal; old = ft_val T oldVal; cmp = cf_cmp cfg in
      if cf_percentage cfg \<and> supportsPercentageCompare cmp then comparePercentage cfg cur old
      else if cmp = SameAsFirst then fp_eq cur old
      else if cmp = IncreasedBy then delta_matches cfg cur old
      else if cmp = DecreasedBy then delta_matches cfg old cur
      else if Changed \<le> cmp then getCompare cmp fp_ops cur old (Fin 0)
      else compareFloating pow10 cfg cur (fp_cast (ft_format T) (cf_float cfg))
             (fp_cast (ft_format T) (cf_float2 cfg)))"

section \<open>Byte patterns\<close>

definition masked_eq :: "bytes \<Rightarrow> bytes \<Rightarrow> bytes \<Rightarrow> bool" where
  "masked_eq cur pattern msk =
     list_all (\<lambda>i. cur ! i AND msk ! i = pattern ! i AND msk ! i) [0..<length pattern]"

definition compareMaskedBytes :: "bytes \<Rightarrow> bytes \<Rightarrow> bytes \<Rightarrow> bool" where
  "compareMaskedBytes cur pattern msk =
     (if pattern = [] then False
      else list_all (\<lambda>i. let m = (if i < length msk then msk ! i else 0xFF)
                         in cur ! i AND m = pattern ! i AND m) [0..<length pattern])"

definition groupedTermMatches :: "(int \<Rightarrow> fp) \<Rightarrow> bytes \<Rightarrow> GroupedTerm \<Rightarrow> ScanConfig \<Rightarrow> bool" where
  "groupedTermMatches pow10 val t cfg = (case gt_type t of
       VByte \<Rightarrow> int_val uint8_t val = int_of uint8_t (gt_int t)
     | VInt16 \<Rightarrow> int_val int16_t val = int_of int16_t (gt_int t)
     | VInt32 \<Rightarrow> int_val int32_t val = int_of int32_t (gt_int t)
     | VInt64 \<Rightarrow> int_val int64_t val = int_of int64_t (gt_int t)
     | VPointer \<Rightarrow> int_val uintptr_t val = int_of uintptr_t (gt_int t)
     | VFloat \<Rightarrow> compareFloatingExact pow10 cfg (ft_val float_t val) (fp_cast binary32 (gt_float t))
     | VDouble \<Rightarrow> compareFloatingExact pow10 cfg (ft_val double_t val) (gt_float t)
     | VString \<Rightarrow> take (length (gt_string t)) val = name_bytes (gt_string t)
     | VUnicodeString \<Rightarrow>
         (let needle = utf16LeBytes (gt_string t) in take (length needle) val = needle)
     | VByteArray \<Rightarrow> compareMaskedBytes val (gt_bytes t) (gt_byteArrayMask t)
     | VBinary \<Rightarrow> length (gt_byteMask t) = length (gt_bytes t) \<and> masked_eq val (gt_bytes t) (gt_byteMask t)
     | _ \<Rightarrow> False)"

text \<open>
  \<open>block\<close> is the memory from the block's first byte on.  \<^verbatim>\<open>blockSize - termSize\<close> is a \<^verbatim>\<open>size_t\<close>
  subtraction.
\<close>

definition groupedBlockMatches :: "(int \<Rightarrow> fp) \<Rightarrow> bytes \<Rightarrow> nat \<Rightarrow> ScanConfig \<Rightarrow> bool" where
  "groupedBlockMatches pow10 block blockSize cfg =
     list_all (\<lambda>t. let termSize = groupedTermValueSize t in
         termSize \<noteq> 0 \<and> gt_offset t \<le> (blockSize + 2 ^ 64 - termSize) mod 2 ^ 64 \<and>
         groupedTermMatches pow10 (drop (gt_offset t) block) t cfg) (cf_terms cfg)"

end
