(* ===== verification/Scan_Buffers.thy ===== *)
theory Scan_Buffers
  imports Scan_Compare
begin

text \<open>
  The scans of one buffer (\<^verbatim>\<open>src/src/scanner/memory_scanner.cpp\<close>).  A scan gives the calls of
  \<^verbatim>\<open>ScanResult::addResult\<close> in order, each an address and the bytes stored with it.  The vector
  registers are the 32 or 16 bytes loaded, the compare instructions give one lane mask per value and
  \<^verbatim>\<open>movemask\<close> the mask as a 32-bit word, as the Intel manual describes them.  The main results are
  that every vectorised scan gives the hits of the plain loop.
\<close>

type_synonym hit = "u64 \<times> bytes"

datatype SimdMode = Scalar | SSE2 | AVX2

text \<open>
  \<^verbatim>\<open>simdMode\<close>: the test override, then \<^verbatim>\<open>CE_SCAN_SIMD\<close>, then the processor.
\<close>

definition simdMode :: "int \<Rightarrow> string option \<Rightarrow> bool \<Rightarrow> SimdMode" where
  "simdMode forced env avx2 =
     (if 0 \<le> forced then (if forced = 0 then Scalar else if forced = 1 then SSE2 else AVX2)
      else case env of
          None \<Rightarrow> if avx2 then AVX2 else SSE2
        | Some e \<Rightarrow>
            if e = ''off'' \<or> e = ''0'' \<or> e = ''scalar'' then Scalar
            else if e = ''sse2'' then SSE2
            else if avx2 then AVX2 else SSE2)"

section \<open>Loops over a buffer\<close>

definition piece :: "nat \<Rightarrow> nat \<Rightarrow> bytes \<Rightarrow> bytes" where
  "piece off n buf = take n (drop off buf)"

definition emitAt :: "nat \<Rightarrow> bytes \<Rightarrow> u64 \<Rightarrow> nat \<Rightarrow> hit" where
  "emitAt n buf base off = (base + of_nat off, piece off n buf)"

text \<open>\<^verbatim>\<open>for (off = off0; off < limit; off += al)\<close>\<close>

function strides :: "nat \<Rightarrow> nat \<Rightarrow> nat \<Rightarrow> nat list" where
  "strides al limit off = (if 0 < al \<and> off < limit then off # strides al limit (off + al) else [])"
  by pat_completeness auto
termination by (relation "measure (\<lambda>(al, limit, off). limit - off)") auto

declare strides.simps [simp del]

definition each :: "(nat \<Rightarrow> bool) \<Rightarrow> (nat \<Rightarrow> 'a) \<Rightarrow> nat list \<Rightarrow> 'a list" where
  "each p f is = concat (map (\<lambda>i. if p i then [f i] else []) is)"

definition scan_loop_bytes :: "nat \<Rightarrow> nat \<Rightarrow> (bytes \<Rightarrow> bool) \<Rightarrow> bytes \<Rightarrow> u64 \<Rightarrow> hit list" where
  "scan_loop_bytes n alignment P buf base =
     (if length buf < n then []
      else let al = (if alignment = 0 then 1 else alignment) in
        each (\<lambda>off. P (piece off n buf)) (emitAt n buf base) (strides al (length buf - n + 1) 0))"

text \<open>
  The loop over whole vectors, \<^verbatim>\<open>for (; i + W <= n; i += W)\<close>: the results of the blocks and the index
  it stops at.
\<close>

function vec_loop :: "nat \<Rightarrow> nat \<Rightarrow> (nat \<Rightarrow> 'a list) \<Rightarrow> nat \<Rightarrow> 'a list \<times> nat" where
  "vec_loop W n block i =
     (if 0 < W \<and> i + W \<le> n then (case vec_loop W n block (i + W) of (hs, j) \<Rightarrow> (block i @ hs, j))
      else ([], i))"
  by pat_completeness auto
termination by (relation "measure (\<lambda>(W, n, block, i). n - i)") auto

declare vec_loop.simps [simp del]

section \<open>Vector instructions\<close>

text \<open>\<^verbatim>\<open>movemask\<close>: bit \<open>i\<close> of the result is set for the \<open>i\<close>-th true lane.\<close>

definition movemask :: "bool list \<Rightarrow> u32" where
  "movemask lanes = horner_sum of_bool 2 lanes"

text \<open>\<^verbatim>\<open>cmpeq\<close> on lanes of \<open>L\<close> bytes, then \<^verbatim>\<open>movemask_epi8\<close>: each lane gives \<open>L\<close> equal bits.\<close>

definition cmpeq_movemask :: "nat \<Rightarrow> bytes \<Rightarrow> bytes \<Rightarrow> u32" where
  "cmpeq_movemask L v lane =
     movemask (concat (map (\<lambda>l. replicate L (piece (l * L) L v = lane)) [0..<length v div L]))"

definition emitMaskLanes :: "nat \<Rightarrow> nat \<Rightarrow> bytes \<Rightarrow> nat \<Rightarrow> u32 \<Rightarrow> u64 \<Rightarrow> hit list" where
  "emitMaskLanes L W buf firstLane msk base =
     each (\<lambda>lane. msk AND push_bit (lane * L) 1 \<noteq> 0) (\<lambda>lane. emitAt L buf base ((firstLane + lane) * L)) [0..<W]"

text \<open>\<^verbatim>\<open>__builtin_ctz\<close>, and the loop \<^verbatim>\<open>while (m) { use(ctz(m)); m &= m - 1; }\<close>.\<close>

definition ctz :: "u32 \<Rightarrow> nat" where
  "ctz m = length (takeWhile (\<lambda>i. \<not> bit m i) [0..<32])"

lemma and_minus_1_less: "m \<noteq> 0 \<Longrightarrow> unat (m AND (m - 1)) < unat (m :: u32)"
proof -
  assume "m \<noteq> 0"
  then have "unat (m - 1) < unat m" using unat_gt_0[of m] by (simp add: unat_minus_one)
  moreover have "m AND (m - 1) \<le> m - 1" by (rule word_and_le1)
  ultimately show ?thesis by (simp add: word_le_nat_alt)
qed

function mask_bits :: "u32 \<Rightarrow> nat list" where
  "mask_bits m = (if m = 0 then [] else ctz m # mask_bits (m AND (m - 1)))"
  by pat_completeness auto
termination by (relation "measure unat") (simp_all add: and_minus_1_less)

declare mask_bits.simps [simp del]

section \<open>Exact integer scans\<close>

definition lane_hits :: "int_type \<Rightarrow> bytes \<Rightarrow> u64 \<Rightarrow> u64 \<Rightarrow> nat list \<Rightarrow> hit list" where
  "lane_hits T buf base needle is =
     (let L = it_size T in
      each (\<lambda>i. int_val T (drop (i * L) buf) = int_of T needle) (\<lambda>i. emitAt L buf base (i * L)) is)"

definition scanExactAVX2 :: "int_type \<Rightarrow> bytes \<Rightarrow> nat \<Rightarrow> u64 \<Rightarrow> u64 \<Rightarrow> hit list" where
  "scanExactAVX2 T buf nLanes base needle =
     (let L = it_size T; W = 32 div L;
          (hs, i) = vec_loop W nLanes (\<lambda>i.
            let msk = cmpeq_movemask L (piece (i * L) 32 buf) (le_bytes L needle)
            in if msk \<noteq> 0 then emitMaskLanes L W buf i msk base else []) 0
      in hs @ lane_hits T buf base needle [i..<nLanes])"

definition scanExactSSE2 :: "int_type \<Rightarrow> bytes \<Rightarrow> nat \<Rightarrow> u64 \<Rightarrow> u64 \<Rightarrow> hit list" where
  "scanExactSSE2 T buf nLanes base needle =
     (let L = it_size T; W = 16 div L;
          (hs, i) = vec_loop W nLanes (\<lambda>i.
            let msk = cmpeq_movemask L (piece (i * L) 16 buf) (le_bytes L needle)
            in if msk \<noteq> 0 then emitMaskLanes L W buf i msk base else []) 0
      in hs @ lane_hits T buf base needle [i..<nLanes])"

definition scanExactInteger :: "SimdMode \<Rightarrow> int_type \<Rightarrow> bytes \<Rightarrow> u64 \<Rightarrow> nat \<Rightarrow> u64 \<Rightarrow> hit list" where
  "scanExactInteger mode T buf base alignment needle =
     (let n = it_size T in
      if length buf < n then []
      else let al = (if alignment = 0 then 1 else alignment) in
        if al = n then
          let nLanes = (length buf - n) div n + 1 in
          if mode = AVX2 then scanExactAVX2 T buf nLanes base needle
          else if mode = SSE2 \<and> (n = 1 \<or> n = 2 \<or> n = 4) then scanExactSSE2 T buf nLanes base needle
          else lane_hits T buf base needle [0..<nLanes]
        else each (\<lambda>off. int_val T (drop off buf) = int_of T needle) (emitAt n buf base)
               (strides al (length buf - n + 1) 0))"

definition scanRelational :: "int_type \<Rightarrow> bytes \<Rightarrow> u64 \<Rightarrow> nat \<Rightarrow> u64 \<Rightarrow> u64 \<Rightarrow> ScanCompare \<Rightarrow> hit list" where
  "scanRelational T buf base alignment v v2 cmp =
     scan_loop_bytes (it_size T) alignment
       (let lo = int_of T v; hi = int_of T v2 in
        (case cmp of
           Greater \<Rightarrow> (\<lambda>bs. lo < int_val T bs)
         | Less \<Rightarrow> (\<lambda>bs. int_val T bs < lo)
         | Between \<Rightarrow> (\<lambda>bs. let c = int_val T bs in if lo \<le> hi then lo \<le> c \<and> c \<le> hi else hi \<le> c \<and> c \<le> lo)
         | Changed \<Rightarrow> (\<lambda>bs. int_val T bs \<noteq> lo)
         | Unchanged \<Rightarrow> (\<lambda>bs. int_val T bs = lo)
         | Increased \<Rightarrow> (\<lambda>bs. lo < int_val T bs)
         | Decreased \<Rightarrow> (\<lambda>bs. int_val T bs < lo)
         | SameAsFirst \<Rightarrow> (\<lambda>bs. int_val T bs = lo)
         | Unknown \<Rightarrow> (\<lambda>bs. True)
         | _ \<Rightarrow> (\<lambda>bs. int_val T bs = lo))) buf base"

definition scanIntegerFast :: "SimdMode \<Rightarrow> int_type \<Rightarrow> bytes \<Rightarrow> u64 \<Rightarrow> nat \<Rightarrow> u64 \<Rightarrow> u64 \<Rightarrow> ScanCompare \<Rightarrow> hit list" where
  "scanIntegerFast mode T buf base alignment v v2 cmp =
     (if cmp = Exact then scanExactInteger mode T buf base alignment v
      else scanRelational T buf base alignment v v2 cmp)"


section \<open>Loops and masks\<close>

lemma each_eq: "each p f is = map f (filter p is)"
  unfolding each_def by (rule concat_map_if)

lemma each_append [simp]: "each p f (xs @ ys) = each p f xs @ each p f ys"
  by (simp add: each_eq)

lemma each_cong: "(\<And>i. i \<in> set is \<Longrightarrow> p i = q i) \<Longrightarrow> (\<And>i. i \<in> set is \<Longrightarrow> f i = g i) \<Longrightarrow> each p f is = each q g is"
  unfolding each_def by (intro arg_cong[where f = concat] map_cong) auto

lemma each_filter: "each p f (filter q is) = each (\<lambda>i. q i \<and> p i) f is"
  by (simp add: each_eq conj_commute)

lemma each_map: "each p f (map g is) = each (\<lambda>i. p (g i)) (\<lambda>i. f (g i)) is"
  by (simp add: each_def comp_def)

lemma each_shift: "each p f [a..<a + n] = each (\<lambda>i. p (a + i)) (\<lambda>i. f (a + i)) [0..<n]"
proof -
  have "[a..<a + n] = map (\<lambda>i. a + i) [0..<n]"
    using map_add_upt[of a n] by (simp add: add.commute)
  then show ?thesis by (simp only: each_map)
qed

lemma strides_filter: "strides al limit off = filter (\<lambda>i. off \<le> i \<and> (i - off) mod al = 0) [0..<limit]" if "0 < al"
  using that
proof (induction al limit off rule: strides.induct)
  case (1 al limit off)
  show ?case
  proof (cases "off < limit")
    case True
    have "(off \<le> i \<and> (i - off) mod al = 0) = (i = off \<or> off + al \<le> i \<and> (i - (off + al)) mod al = 0)" for i
    proof (cases "off \<le> i \<and> i \<noteq> off")
      case True
      then obtain k where k: "i = off + k" "0 < k" by (metis add_eq_0_iff_both_eq_0 le_Suc_ex neq0_conv add.right_neutral)
      show ?thesis using k "1.prems"
        by (cases "k < al") (auto simp: mod_if[of k al])
    qed (use "1.prems" in auto)
    then have "filter (\<lambda>i. off \<le> i \<and> (i - off) mod al = 0) [0..<limit] =
        filter (\<lambda>i. i = off \<or> off + al \<le> i \<and> (i - (off + al)) mod al = 0) ([0..<off] @ off # [Suc off..<limit])"
      using upt_split_at[OF True] by simp
    also have "\<dots> = off # filter (\<lambda>i. off + al \<le> i \<and> (i - (off + al)) mod al = 0) [Suc off..<limit]"
      using "1.prems" by (auto simp: filter_empty_conv intro!: filter_cong)
    also have "filter (\<lambda>i. off + al \<le> i \<and> (i - (off + al)) mod al = 0) [Suc off..<limit] =
        filter (\<lambda>i. off + al \<le> i \<and> (i - (off + al)) mod al = 0) ([0..<Suc off] @ [Suc off..<limit])"
      using "1.prems" by (auto simp: filter_empty_conv)
    also have "[0..<Suc off] @ [Suc off..<limit] = [0..<limit]"
      using True by (intro upt_split[symmetric]) simp_all
    finally show ?thesis using "1.IH" "1.prems" True by (subst strides.simps) simp
  next
    case False
    then show ?thesis by (subst strides.simps) (auto simp: filter_empty_conv)
  qed
qed

lemma strides_0: "0 < al \<Longrightarrow> strides al limit 0 = filter (\<lambda>i. i mod al = 0) [0..<limit]"
  by (simp add: strides_filter)

lemma strides_lanes:
  assumes "0 < n"
  shows "strides n limit 0 = map (\<lambda>i. i * n) [0..<(limit + n - 1) div n]"
proof (rule sorted_distinct_set_unique)
  show "sorted (strides n limit 0)" "distinct (strides n limit 0)"
    using assms by (simp_all add: strides_0 sorted_wrt_filter)
  show "sorted (map (\<lambda>i. i * n) [0..<(limit + n - 1) div n])" by (simp add: sorted_iff_nth_mono)
  show "distinct (map (\<lambda>i. i * n) [0..<(limit + n - 1) div n])" using assms by (simp add: distinct_map inj_on_def)
  have lanes: "k < (limit + n - 1) div n \<longleftrightarrow> k * n < limit" for k
  proof -
    have "Suc k \<le> (limit + n - 1) div n \<longleftrightarrow> Suc k * n \<le> limit + n - 1"
      by (rule less_eq_div_iff_mult_less_eq[OF assms])
    also have "\<dots> \<longleftrightarrow> k * n < limit" using assms by auto
    finally show ?thesis by (simp only: Suc_le_eq)
  qed
  show "set (strides n limit 0) = set (map (\<lambda>i. i * n) [0..<(limit + n - 1) div n])"
  proof (intro set_eqI iffI)
    fix i assume "i \<in> set (strides n limit 0)"
    then have "i < limit" "i mod n = 0" using assms by (simp_all add: strides_0)
    moreover from this obtain k where "i = k * n" by (metis dvd_def mod_eq_0_iff_dvd mult.commute)
    ultimately show "i \<in> set (map (\<lambda>i. i * n) [0..<(limit + n - 1) div n])" using lanes[of k] by auto
  next
    fix i assume "i \<in> set (map (\<lambda>i. i * n) [0..<(limit + n - 1) div n])"
    then obtain k where "i = k * n" "k < (limit + n - 1) div n" using assms by auto
    then show "i \<in> set (strides n limit 0)" using lanes[of k] assms by (simp add: strides_0)
  qed
qed

lemma vec_loop_all:
  assumes "0 < W" "\<And>i. i + W \<le> n \<Longrightarrow> block i = concat (map tl1 [i..<i + W])" "vec_loop W n block i = (hs, j)"
    "i \<le> n"
  shows "hs @ concat (map tl1 [j..<n]) = concat (map tl1 [i..<n])"
  using assms
proof (induction W n block i arbitrary: hs j rule: vec_loop.induct)
  case (1 W n block i)
  show ?case
  proof (cases "i + W \<le> n")
    case True
    obtain hs' j' where r: "vec_loop W n block (i + W) = (hs', j')" by fastforce
    have "hs = block i @ hs'" "j = j'"
      using "1.prems"(3) True "1.prems"(1) r by (subst (asm) vec_loop.simps, simp)+
    moreover have "hs' @ concat (map tl1 [j'..<n]) = concat (map tl1 [i + W..<n])"
      using "1.IH"[of hs' j'] "1.prems" True r by simp
    moreover have "[i..<n] = [i..<i + W] @ [i + W..<n]" using True by (intro upt_split) simp_all
    ultimately show ?thesis using "1.prems"(2)[OF True] by simp
  next
    case False
    then have "hs = []" "j = i" using "1.prems"(3) by (subst (asm) vec_loop.simps, simp)+
    then show ?thesis by simp
  qed
qed

lemma bit_movemask: "length lanes \<le> 32 \<Longrightarrow> bit (movemask lanes) i \<longleftrightarrow> i < length lanes \<and> lanes ! i"
  by (auto simp: movemask_def bit_horner_sum_bit_word_iff)

lemma ctz_props:
  assumes "m \<noteq> (0 :: u32)"
  shows "bit m (ctz m)" "ctz m < 32" "i < ctz m \<Longrightarrow> \<not> bit m i"
proof -
  let ?t = "takeWhile (\<lambda>i. \<not> bit m i) [0..<32]"
  obtain j where j: "bit m j" using assms bit_eq_iff[of m 0] by auto
  then have "j < 32" using bit_imp_le_length[OF j] by simp
  have le: "length ?t \<le> 32" using length_takeWhile_le[of "\<lambda>i. \<not> bit m i" "[0..<32]"] by simp
  have nb: "\<not> bit m i" if "i < length ?t" for i
    using set_takeWhileD[of i "\<lambda>i. \<not> bit m i" "[0..<32]"] that nth_mem[OF that] takeWhile_nth[OF that] le by auto
  have "\<not> j < length ?t" using nb j by blast
  with \<open>j < 32\<close> have lt: "length ?t < 32" by simp
  then show "ctz m < 32" by (simp add: ctz_def)
  show "bit m (ctz m)" using nth_length_takeWhile[of "\<lambda>i. \<not> bit m i" "[0..<32]"] lt by (simp add: ctz_def)
  show "i < ctz m \<Longrightarrow> \<not> bit m i" using nb by (simp add: ctz_def)
qed

lemma bit_clear_lowest:
  assumes "m \<noteq> (0 :: u32)"
  shows "bit (m AND (m - 1)) i \<longleftrightarrow> bit m i \<and> i \<noteq> ctz m"
proof -
  let ?t = "ctz m"
  define h where "h = m AND NOT (push_bit ?t 1)"
  have bh: "bit h i \<longleftrightarrow> ?t < i \<and> bit m i" for i
    using ctz_props(3)[OF assms, of i] by (cases i ?t rule: linorder_cases) (auto simp: h_def bit_simps dest: bit_imp_le_length)
  have m: "m = h OR push_bit ?t 1"
  proof (rule bit_eqI)
    fix n
    show "bit m n = bit (h OR push_bit ?t 1) n"
      using ctz_props[OF assms] by (cases n ?t rule: linorder_cases) (auto simp: bit_simps bh)
  qed
  have "m = h + push_bit ?t 1"
    unfolding m[symmetric] by (subst m, rule disjunctive_add_eq_or[symmetric], rule bit_eqI) (auto simp: bit_simps bh)
  then have "m - 1 = h + mask ?t" by (simp add: mask_eq_exp_minus_1 push_bit_eq_mult)
  also have "\<dots> = h OR mask ?t"
    by (rule disjunctive_add_eq_or, rule bit_eqI) (auto simp: bit_simps bh)
  finally have "bit (m AND (m - 1)) i \<longleftrightarrow> bit m i \<and> (bit h i \<or> bit (mask ?t :: u32) i)" by (simp add: bit_simps)
  also have "\<dots> \<longleftrightarrow> bit m i \<and> i \<noteq> ?t"
    using ctz_props(2)[OF assms] ctz_props(3)[OF assms, of i]
    by (cases i ?t rule: linorder_cases) (auto simp: bh bit_simps)
  finally show ?thesis .
qed

lemma mask_bits_filter: "mask_bits m = filter (bit m) [0..<32]"
proof (induction m rule: mask_bits.induct)
  case (1 m)
  show ?case
  proof (cases "m = 0")
    case True
    then show ?thesis by (simp add: mask_bits.simps)
  next
    case False
    let ?t = "ctz m"
    note t = ctz_props[OF False]
    have "filter (bit m) [0..<32] = filter (bit m) ([0..<?t] @ ?t # [Suc ?t..<32])"
      using upt_split_at[OF t(2)] by simp
    also have "\<dots> = ?t # filter (bit (m AND (m - 1))) ([0..<?t] @ ?t # [Suc ?t..<32])"
      using t by (auto simp: bit_clear_lowest[OF False] filter_empty_conv intro!: filter_cong)
    also have "[0..<?t] @ ?t # [Suc ?t..<32] = [0..<32]" using upt_split_at[OF t(2)] by simp
    finally show ?thesis using "1.IH"[OF False] False by (subst mask_bits.simps) simp
  qed
qed

section \<open>Vectorised integer scans\<close>

lemma int_wrap_eq_iff:
  assumes "0 < it_size T"
  shows "int_wrap T a = int_wrap T b \<longleftrightarrow> take_bit (8 * it_size T) a = take_bit (8 * it_size T) b"
  using assms signed_take_bit_eq_iff_take_bit_eq[of "8 * it_size T - 1" a b] by (simp add: int_wrap_def)

lemma int_of_eq_iff:
  assumes "0 < it_size T"
  shows "int_of T v = int_of T w \<longleftrightarrow> take_bit (8 * it_size T) v = take_bit (8 * it_size T) w"
  by (simp add: int_of_def int_wrap_eq_iff[OF assms] word_uint_eq_iff flip: unsigned_take_bit_eq)

text \<open>A number is equal to the needle exactly when its bytes are the bytes of the needle.\<close>

lemma int_val_eq_iff:
  assumes "0 < it_size T" "it_size T \<le> 8" "length bs = it_size T"
  shows "int_val T bs = int_of T needle \<longleftrightarrow> bs = le_bytes (it_size T) needle"
proof -
  let ?n = "it_size T"
  have bs: "le_bytes ?n (le_val bs :: u64) = bs" using assms le_bytes_le_val[of bs, where 'a = 64] by simp
  have "int_val T bs = int_of T needle \<longleftrightarrow> take_bit (8 * ?n) (le_val bs) = take_bit (8 * ?n) needle"
    using assms by (simp add: int_val_def int_of_eq_iff)
  also have "\<dots> \<longleftrightarrow> le_bytes ?n (le_val bs :: u64) = le_bytes ?n needle"
  proof
    assume "take_bit (8 * ?n) (le_val bs) = take_bit (8 * ?n) needle"
    then show "le_bytes ?n (le_val bs :: u64) = le_bytes ?n needle"
      by (metis le_bytes_take_bit)
  next
    assume "le_bytes ?n (le_val bs :: u64) = le_bytes ?n needle"
    then show "take_bit (8 * ?n) (le_val bs) = take_bit (8 * ?n) needle"
      by (metis le_val_le_bytes)
  qed
  finally show ?thesis by (simp only: bs)
qed

lemma length_piece [simp]: "off + n \<le> length buf \<Longrightarrow> length (piece off n buf) = n"
  by (simp add: piece_def)

lemma piece_piece: "off + n \<le> m \<Longrightarrow> piece off n (piece start m buf) = piece (start + off) n buf"
  by (simp add: piece_def drop_take min_def add.commute)

lemma int_val_piece: "int_val T (drop off buf) = int_val T (piece off (it_size T) buf)"
  by (simp add: int_val_def piece_def)

lemma concat_replicate_nth:
  "i < length xs * L \<Longrightarrow> concat (map (\<lambda>x. replicate L (f x)) xs) ! i = f (xs ! (i div L))"
proof (induction xs arbitrary: i)
  case (Cons x xs)
  show ?case
  proof (cases "i < L")
    case False
    then have "0 < L" and i: "i = L + (i - L)" using Cons.prems by (cases L; simp)+
    then have "i div L = Suc ((i - L) div L)" by (metis div_add_self1 Suc_eq_plus1 add.commute neq0_conv)
    with False Cons show ?thesis by (simp add: nth_append)
  qed (simp add: nth_append)
qed simp

lemma length_concat_replicate [simp]: "length (concat (map (\<lambda>x. replicate L (f x)) xs)) = length xs * L"
  by (induction xs) simp_all

lemma bit_cmpeq:
  assumes "length v = W * L" "W * L \<le> 32" "0 < L" "l < W"
  shows "bit (cmpeq_movemask L v lane) (l * L) \<longleftrightarrow> piece (l * L) L v = lane"
proof -
  have "l * L < W * L" using assms by simp
  moreover have "length v div L = W" using assms by simp
  ultimately show ?thesis
    using assms by (simp add: cmpeq_movemask_def bit_movemask concat_replicate_nth)
qed

text \<open>The lanes reported for one vector are those a loop over its values reports.\<close>

lemma vector_block:
  assumes n: "0 < it_size T" "it_size T \<le> 8" and W: "W * it_size T \<le> 32"
    and len: "(i + W) * it_size T \<le> length buf"
  shows "(let msk = cmpeq_movemask (it_size T) (piece (i * it_size T) (W * it_size T) buf) (le_bytes (it_size T) needle)
          in if msk \<noteq> 0 then emitMaskLanes (it_size T) W buf i msk base else []) =
    lane_hits T buf base needle [i..<i + W]"
proof -
  let ?L = "it_size T"
  let ?v = "piece (i * ?L) (W * ?L) buf"
  let ?m = "cmpeq_movemask ?L ?v (le_bytes ?L needle)"
  have v: "length ?v = W * ?L" using len by (simp add: add_mult_distrib)
  have lane: "?m AND push_bit (l * ?L) 1 \<noteq> 0 \<longleftrightarrow> int_val T (drop ((i + l) * ?L) buf) = int_of T needle" if "l < W" for l
  proof -
    have b: "l * ?L + ?L \<le> W * ?L" using that mult_le_mono1[of "Suc l" W ?L] by (simp add: add.commute)
    have "l * ?L < 32" using b W n by linarith
    then have "?m AND push_bit (l * ?L) 1 \<noteq> 0 \<longleftrightarrow> bit ?m (l * ?L)"
      by (simp add: and_exp_eq_0_iff_not_bit push_bit_eq_mult)
    also have "\<dots> \<longleftrightarrow> piece (l * ?L) ?L ?v = le_bytes ?L needle" by (rule bit_cmpeq[OF v W n(1) that])
    also have "piece (l * ?L) ?L ?v = piece ((i + l) * ?L) ?L buf" using b by (simp add: piece_piece add_mult_distrib)
    also have "\<dots> = le_bytes ?L needle \<longleftrightarrow> int_val T (piece ((i + l) * ?L) ?L buf) = int_of T needle"
    proof (rule int_val_eq_iff[OF n, symmetric])
      have "(i + l) * ?L + ?L \<le> (i + W) * ?L" using b by (simp add: add_mult_distrib)
      with len show "length (piece ((i + l) * ?L) ?L buf) = ?L" by simp
    qed
    finally show ?thesis by (simp only: int_val_piece[symmetric])
  qed
  have emit: "emitMaskLanes ?L W buf i ?m base = lane_hits T buf base needle [i..<i + W]"
    unfolding emitMaskLanes_def lane_hits_def Let_def each_shift
    by (rule each_cong) (simp_all only: atLeastLessThan_iff set_upt lane)
  have "emitMaskLanes ?L W buf i 0 base = []" by (simp add: emitMaskLanes_def each_eq)
  then show ?thesis using emit by (cases "?m = 0") (auto simp: Let_def)
qed

lemma lane_hits_concat:
  "lane_hits T buf base needle is =
     concat (map (\<lambda>i. if int_val T (drop (i * it_size T) buf) = int_of T needle
                      then [emitAt (it_size T) buf base (i * it_size T)] else []) is)"
  by (simp add: lane_hits_def each_def Let_def)

lemma vector_scan:
  assumes n: "0 < it_size T" "it_size T \<le> 8" and W: "W * it_size T = B" "B \<le> 32" "0 < W"
    and len: "nLanes * it_size T \<le> length buf"
    and run: "vec_loop W nLanes (\<lambda>i. let msk = cmpeq_movemask (it_size T) (piece (i * it_size T) B buf) (le_bytes (it_size T) needle)
            in if msk \<noteq> 0 then emitMaskLanes (it_size T) W buf i msk base else []) 0 = (hs, i)"
  shows "hs @ lane_hits T buf base needle [i..<nLanes] = lane_hits T buf base needle [0..<nLanes]"
  unfolding lane_hits_concat
proof (rule vec_loop_all[OF W(3) _ run])
  fix k assume "k + W \<le> nLanes"
  then have "(k + W) * it_size T \<le> length buf" using len by (meson mult_le_mono1 le_trans)
  from vector_block[OF n _ this, of needle base] W
  show "(let msk = cmpeq_movemask (it_size T) (piece (k * it_size T) B buf) (le_bytes (it_size T) needle)
         in if msk \<noteq> 0 then emitMaskLanes (it_size T) W buf k msk base else []) =
     concat (map (\<lambda>i. if int_val T (drop (i * it_size T) buf) = int_of T needle
                      then [emitAt (it_size T) buf base (i * it_size T)] else []) [k..<k + W])"
    by (simp only: lane_hits_concat)
qed simp

definition machine_int :: "int_type \<Rightarrow> bool" where
  "machine_int T = (it_size T = 1 \<or> it_size T = 2 \<or> it_size T = 4 \<or> it_size T = 8)"

lemma scanExactAVX2_lanes:
  assumes "machine_int T" "nLanes * it_size T \<le> length buf"
  shows "scanExactAVX2 T buf nLanes base needle = lane_hits T buf base needle [0..<nLanes]"
proof -
  have "0 < it_size T" "it_size T \<le> 8" "32 div it_size T * it_size T = 32" "0 < 32 div it_size T"
    using assms(1) by (auto simp: machine_int_def)
  from vector_scan[OF this(1,2,3) _ this(4) assms(2), of needle base] show ?thesis
    unfolding scanExactAVX2_def Let_def by (auto split: prod.splits)
qed

lemma scanExactSSE2_lanes:
  assumes "it_size T = 1 \<or> it_size T = 2 \<or> it_size T = 4" "nLanes * it_size T \<le> length buf"
  shows "scanExactSSE2 T buf nLanes base needle = lane_hits T buf base needle [0..<nLanes]"
proof -
  have "0 < it_size T" "it_size T \<le> 8" "16 div it_size T * it_size T = 16" "0 < 16 div it_size T"
    using assms(1) by auto
  from vector_scan[OF this(1,2,3) _ this(4) assms(2), of needle base] show ?thesis
    unfolding scanExactSSE2_def Let_def by (auto split: prod.splits)
qed

lemma scanExactInteger_loop:
  assumes "machine_int T"
  shows "scanExactInteger mode T buf base alignment needle =
    scan_loop_bytes (it_size T) alignment (\<lambda>bs. int_val T bs = int_of T needle) buf base"
proof (cases "length buf < it_size T")
  case False
  let ?n = "it_size T" and ?al = "if alignment = 0 then 1 else alignment"
  let ?nL = "(length buf - ?n) div ?n + 1"
  have n: "0 < ?n" using assms by (auto simp: machine_int_def)
  have "?nL * ?n \<le> length buf" using False div_times_less_eq_dividend[of "length buf - ?n" ?n]
    unfolding add_mult_distrib mult_1 by linarith
  then have vec: "scanExactAVX2 T buf ?nL base needle = lane_hits T buf base needle [0..<?nL]"
    "?n = 1 \<or> ?n = 2 \<or> ?n = 4 \<Longrightarrow> scanExactSSE2 T buf ?nL base needle = lane_hits T buf base needle [0..<?nL]"
    using scanExactAVX2_lanes[OF assms] scanExactSSE2_lanes by blast+
  have "(length buf - ?n + 1 + ?n - 1) div ?n = ?nL" using False n by (simp add: le_div_geq)
  then have "lane_hits T buf base needle [0..<?nL] =
      each (\<lambda>off. int_val T (drop off buf) = int_of T needle) (emitAt ?n buf base) (strides ?n (length buf - ?n + 1) 0)"
    using n by (simp only: strides_lanes each_map lane_hits_def Let_def)
  then show ?thesis
    using False vec by (auto simp: scanExactInteger_def scan_loop_bytes_def Let_def int_val_piece)
qed (simp add: scanExactInteger_def scan_loop_bytes_def Let_def)

section \<open>The first-scan comparison of integers\<close>

lemma scanRelational_loop:
  assumes "cmp \<noteq> Exact"
  shows "scanRelational T buf base alignment v v2 cmp =
    scan_loop_bytes (it_size T) alignment
      (\<lambda>bs. getCompare cmp int_ops (int_val T bs) (int_of T v) (int_of T v2)) buf base"
  unfolding scanRelational_def Let_def
  by (rule arg_cong[where f = "\<lambda>P. scan_loop_bytes _ _ P _ _"], rule ext)
    (use assms in \<open>cases cmp; simp add: cmp_defs\<close>)

lemma scanIntegerFast_loop:
  assumes "machine_int T"
  shows "scanIntegerFast mode T buf base alignment v v2 cmp =
    scan_loop_bytes (it_size T) alignment
      (\<lambda>bs. getCompare cmp int_ops (int_val T bs) (int_of T v) (int_of T v2)) buf base"
proof (cases "cmp = Exact")
  case True
  then show ?thesis by (simp add: scanIntegerFast_def scanExactInteger_loop[OF assms] cmp_defs)
qed (simp add: scanIntegerFast_def scanRelational_loop)

lemma scan_loop_bytes_filter:
  "scan_loop_bytes n alignment P buf base =
     (if length buf < n then []
      else map (emitAt n buf base)
        (filter (\<lambda>off. off mod max 1 alignment = 0 \<and> P (piece off n buf)) [0..<length buf - n + 1]))"
proof -
  have "(if alignment = 0 then 1 else alignment) = max 1 alignment" by simp
  then show ?thesis
    unfolding scan_loop_bytes_def Let_def
    by (simp only: strides_0[of "max 1 alignment"] each_eq filter_filter less_max_iff_disj zero_less_one simp_thms)
qed

text \<open>
  C6: Whatever vector path the processor and the environment select, the first scan of a buffer for
  integers of 1, 2, 4 or 8 bytes reports, in ascending order, exactly the offsets on the alignment
  grid whose value satisfies the selected comparison, each with the bytes found there.
\<close>

theorem integer_scan_spec:
  assumes "machine_int T"
  shows "scanIntegerFast mode T buf base alignment v v2 cmp =
    (if length buf < it_size T then []
     else map (emitAt (it_size T) buf base)
       (filter (\<lambda>off. off mod max 1 alignment = 0 \<and>
           getCompare cmp int_ops (int_val T (piece off (it_size T) buf)) (int_of T v) (int_of T v2))
         [0..<length buf - it_size T + 1]))"
  by (simp only: scanIntegerFast_loop[OF assms] scan_loop_bytes_filter)

theorem integer_scan_spec_witness:
  "scanIntegerFast AVX2 int16_t [1, 0, 7, 0, 1, 0] 0x1000 2 1 0 Exact = [(0x1000, [1, 0]), (0x1004, [1, 0])]"
proof -
  have "machine_int int16_t" by (simp add: machine_int_def int16_t_def)
  then show ?thesis by (simp only: integer_scan_spec) code_simp
qed

end
