(* ===== verification/Scan_Patterns.thy ===== *)
theory Scan_Patterns
  imports Scan_Buffers
begin

text \<open>
  The scans of a buffer for byte patterns: text, UTF-16 text, arrays of bytes with wildcards, bit
  patterns, groups of values, all number types at once and the unknown initial value.  The text and
  array-of-bytes scans look for one byte of the pattern 16 positions at a time and compare the rest
  only there; the lemmas show that they report what the comparison at every offset reports.
\<close>

section \<open>The search for an anchor byte\<close>

text \<open>The positions \<^verbatim>\<open>verify\<close> is called for, in order.\<close>

definition anchorScan :: "SimdMode \<Rightarrow> bytes \<Rightarrow> nat \<Rightarrow> nat \<Rightarrow> u8 \<Rightarrow> nat list" where
  "anchorScan mode buf startPos endPos anchor =
     (let (ps, p) =
        (if mode \<noteq> Scalar
         then vec_loop 16 endPos (\<lambda>p. map (\<lambda>b. p + b)
                (mask_bits (movemask (map (\<lambda>x. x = anchor) (piece p 16 buf))))) startPos
         else ([], startPos))
      in ps @ each (\<lambda>p. buf ! p = anchor) (\<lambda>p. p) [p..<endPos])"

section \<open>Text\<close>

definition lower_byte :: "u8 \<Rightarrow> u8" where
  "lower_byte b = (if 65 \<le> b \<and> b \<le> 90 then b + 32 else b)"

definition scanBufferString :: "SimdMode \<Rightarrow> bytes \<Rightarrow> u64 \<Rightarrow> bytes \<Rightarrow> bool \<Rightarrow> hit list" where
  "scanBufferString mode buf base needle caseInsensitive =
     (let nLen = length needle in
      if needle = [] \<or> length buf < nLen then []
      else let limit = length buf - nLen + 1 in
        if \<not> caseInsensitive
        then each (\<lambda>off. piece off nLen buf = needle) (emitAt nLen buf base)
               (anchorScan mode buf 0 limit (needle ! 0))
        else each (\<lambda>off. list_all (\<lambda>i. lower_byte (buf ! (off + i)) = lower_byte (needle ! i)) [0..<nLen])
               (emitAt nLen buf base) [0..<limit])"

definition scanBufferUnicode :: "bytes \<Rightarrow> u64 \<Rightarrow> string \<Rightarrow> bool \<Rightarrow> hit list" where
  "scanBufferUnicode buf base needle caseInsensitive =
     (let n = utf16LeBytes needle; nBytes = length n in
      if nBytes = 0 \<or> length buf < nBytes then []
      else each (\<lambda>off.
             if \<not> caseInsensitive then piece off nBytes buf = n
             else list_all (\<lambda>i. lower_byte (buf ! (off + i)) = lower_byte (n ! i) \<and>
                                buf ! (off + i + 1) = n ! (i + 1)) (strides 2 (nBytes - 1) 0))
           (emitAt nBytes buf base) (strides 2 (length buf - nBytes + 1) 0))"

section \<open>Arrays of bytes and bit patterns\<close>

definition scanBufferAOB :: "SimdMode \<Rightarrow> bytes \<Rightarrow> u64 \<Rightarrow> bytes \<Rightarrow> bytes \<Rightarrow> hit list" where
  "scanBufferAOB mode buf base pattern msk =
     (let pLen = length pattern in
      if pattern = [] \<or> length msk \<noteq> pLen \<or> length buf < pLen then []
      else
        let limit = length buf - pLen + 1;
            matches = (\<lambda>off. masked_eq (drop off buf) pattern msk);
            anchorIdx = length (takeWhile (\<lambda>m. m \<noteq> 0xFF) msk)
        in if anchorIdx = pLen then each matches (emitAt pLen buf base) [0..<limit]
           else each (\<lambda>p. matches (p - anchorIdx)) (\<lambda>p. emitAt pLen buf base (p - anchorIdx))
                  (anchorScan mode buf anchorIdx (limit + anchorIdx) (pattern ! anchorIdx)))"

definition scanBufferBinary :: "bytes \<Rightarrow> u64 \<Rightarrow> bytes \<Rightarrow> bytes \<Rightarrow> nat \<Rightarrow> hit list" where
  "scanBufferBinary buf base pattern msk alignment =
     (let pLen = length pattern in
      if pattern = [] \<or> length msk \<noteq> pLen \<or> length buf < pLen then []
      else let al = (if alignment = 0 then 1 else alignment) in
        each (\<lambda>off. masked_eq (drop off buf) pattern msk) (emitAt pLen buf base)
          (strides al (length buf - pLen + 1) 0))"

section \<open>Unknown values, groups and all number types\<close>

definition scanBufferUnknown :: "bytes \<Rightarrow> u64 \<Rightarrow> nat \<Rightarrow> nat \<Rightarrow> hit list" where
  "scanBufferUnknown buf base alignment valueSize =
     (if valueSize = 0 \<or> length buf < valueSize then []
      else let al = (if alignment = 0 then 1 else alignment) in
        map (emitAt valueSize buf base) (strides al (length buf - valueSize + 1) 0))"

definition scanBufferGrouped :: "(int \<Rightarrow> fp) \<Rightarrow> bytes \<Rightarrow> u64 \<Rightarrow> nat \<Rightarrow> ScanConfig \<Rightarrow> hit list" where
  "scanBufferGrouped pow10 buf base alignment cfg =
     (if cf_terms cfg = [] then []
      else let blockSize = groupedValueSize cfg in
        if blockSize = 0 \<or> length buf < blockSize then []
        else let al = (if alignment = 0 then 1 else alignment) in
          each (\<lambda>off. groupedBlockMatches pow10 (drop off buf) blockSize cfg) (emitAt blockSize buf base)
            (strides al (length buf - blockSize + 1) 0))"

text \<open>
  The record of an all-types hit: the 8 bytes at the offset, filled with zeros at the end of the
  buffer.
\<close>

definition window8 :: "bytes \<Rightarrow> nat \<Rightarrow> bytes" where
  "window8 buf off = (let w = piece off (min 8 (length buf - off)) buf in w @ replicate (8 - length w) 0)"

definition plausible :: "ScanCompare \<Rightarrow> fp \<Rightarrow> fp \<Rightarrow> fp \<Rightarrow> bool" where
  "plausible cmp v lo hi =
     (fp_finite v \<and>
      (cmp \<noteq> Unknown \<or> fp_eq v (Fin 0) \<or> (fp_less (fp_abs v) hi \<and> fp_less lo (fp_abs v))))"

text \<open>The sub-types that match at an offset, one \<^verbatim>\<open>addAll\<close> each.\<close>

definition all_matches :: "bytes \<Rightarrow> u64 \<Rightarrow> fp \<Rightarrow> ScanCompare \<Rightarrow> nat \<Rightarrow> bool list" where
  "all_matches buf intVal floatVal cmp off =
     (let bs = drop off buf; n = length buf;
          ints = (\<lambda>T. off + it_size T \<le> n \<and> getCompare cmp int_ops (int_val T bs) (int_of T intVal) 0)
      in [ints int8_t, ints int16_t, ints int32_t, ints int64_t,
          off + 4 \<le> n \<and> (let v = ft_val float_t bs in
            plausible cmp v (fp_round binary32 (1 / 10 ^ 15)) (fp_round binary32 (10 ^ 15)) \<and>
            getCompare cmp fp_ops v (fp_cast binary32 floatVal) (Fin 0)),
          off + 8 \<le> n \<and> (let v = ft_val double_t bs in
            plausible cmp v (fp_lit (1 / 10 ^ 100)) (fp_lit (10 ^ 100)) \<and>
            getCompare cmp fp_ops v floatVal (Fin 0))])"

definition scanBufferAllTypes :: "bytes \<Rightarrow> u64 \<Rightarrow> nat \<Rightarrow> u64 \<Rightarrow> fp \<Rightarrow> ScanCompare \<Rightarrow> nat \<Rightarrow> hit list" where
  "scanBufferAllTypes buf base alignment intVal floatVal cmp emitLimit0 =
     (let al = (if alignment = 0 then 1 else alignment); emitLimit = min emitLimit0 (length buf) in
      concat (map (\<lambda>off. map (\<lambda>m. (base + of_nat off, window8 buf off))
                           (filter (\<lambda>m. m) (all_matches buf intVal floatVal cmp off)))
        (strides al emitLimit 0)))"

section \<open>The anchored scans report what the plain loops report\<close>

lemma anchorScan_filter:
  assumes "startPos \<le> endPos" "endPos \<le> length buf"
  shows "anchorScan mode buf startPos endPos anchor = filter (\<lambda>p. buf ! p = anchor) [startPos..<endPos]"
proof -
  define hit where "hit p = (if buf ! p = anchor then [p] else [])" for p
  have flt: "filter (\<lambda>p. buf ! p = anchor) is = concat (map hit is)" for "is"
    by (induction "is") (simp_all add: hit_def)
  have block: "map (\<lambda>b. p + b) (mask_bits (movemask (map (\<lambda>x. x = anchor) (piece p 16 buf)))) =
      concat (map hit [p..<p + 16])" if "p + 16 \<le> endPos" for p
  proof -
    have len: "length (piece p 16 buf) = 16" using that assms by simp
    have "piece p 16 buf ! b = buf ! (p + b)" if "b < 16" for b
      using that \<open>p + 16 \<le> endPos\<close> assms by (simp add: piece_def)
    then have "bit (movemask (map (\<lambda>x. x = anchor) (piece p 16 buf))) b \<longleftrightarrow> b < 16 \<and> buf ! (p + b) = anchor" for b
      using len by (auto simp: bit_movemask)
    then have "mask_bits (movemask (map (\<lambda>x. x = anchor) (piece p 16 buf))) =
        filter (\<lambda>b. b < 16 \<and> buf ! (p + b) = anchor) [0..<32]"
      unfolding mask_bits_filter by (intro filter_cong) simp_all
    also have "\<dots> = filter (\<lambda>b. buf ! (p + b) = anchor) [0..<16]"
      using upt_split[of 0 16 32] by (auto simp: filter_empty_conv intro!: filter_cong)
    finally have bits: "mask_bits (movemask (map (\<lambda>x. x = anchor) (piece p 16 buf))) =
        filter (\<lambda>b. buf ! (p + b) = anchor) [0..<16]" .
    have "[p..<p + 16] = map (\<lambda>b. p + b) [0..<16]" using map_add_upt[of p 16] by (simp add: add.commute)
    then show ?thesis by (simp only: bits flt[symmetric] filter_map comp_def)
  qed
  have tail: "each (\<lambda>p. buf ! p = anchor) (\<lambda>p. p) is = concat (map hit is)" for "is"
    by (simp add: each_def hit_def[abs_def])
  show ?thesis
  proof (cases "mode = Scalar")
    case True
    then show ?thesis by (simp add: anchorScan_def tail flt)
  next
    case False
    obtain ps p where r: "vec_loop 16 endPos (\<lambda>p. map (\<lambda>b. p + b)
          (mask_bits (movemask (map (\<lambda>x. x = anchor) (piece p 16 buf))))) startPos = (ps, p)"
      by fastforce
    from vec_loop_all[OF _ block r assms(1)] False show ?thesis
      by (simp add: anchorScan_def r tail flt)
  qed
qed

lemma piece_hd: "piece off n buf = needle \<Longrightarrow> 0 < n \<Longrightarrow> off + n \<le> length buf \<Longrightarrow> needle ! 0 = buf ! off"
  by (auto simp: piece_def)

lemma string_scan_filter:
  assumes "needle \<noteq> []" "length needle \<le> length buf"
  shows "scanBufferString mode buf base needle False =
    map (emitAt (length needle) buf base)
      (filter (\<lambda>off. piece off (length needle) buf = needle) [0..<length buf - length needle + 1])"
proof -
  let ?n = "length needle" and ?limit = "length buf - length needle + 1"
  have "0 < ?n" using assms(1) by simp
  then have le: "?limit \<le> length buf" using assms(2) by linarith
  have "each (\<lambda>off. piece off ?n buf = needle) (emitAt ?n buf base)
      (filter (\<lambda>p. buf ! p = needle ! 0) [0..<?limit]) =
    each (\<lambda>off. piece off ?n buf = needle) (emitAt ?n buf base) [0..<?limit]"
    unfolding each_filter
  proof (rule each_cong)
    fix off assume "off \<in> set [0..<?limit]"
    then have "off + ?n \<le> length buf" using assms(2) by auto
    with \<open>0 < ?n\<close> show "(buf ! off = needle ! 0 \<and> piece off ?n buf = needle) = (piece off ?n buf = needle)"
      using piece_hd[of off ?n buf needle] by auto
  qed simp
  then show ?thesis
    using assms anchorScan_filter[OF _ le, of 0 mode] by (simp add: scanBufferString_def Let_def each_eq)
qed

text \<open>
  A case-sensitive text scan reports exactly the offsets at which the bytes of the text stand, in
  ascending order, with the vectorised search for the first byte or without it.
\<close>

theorem string_scan_spec:
  assumes "needle \<noteq> []" "length needle \<le> length buf"
  shows "scanBufferString mode buf base needle False =
    map (emitAt (length needle) buf base)
      (filter (\<lambda>off. piece off (length needle) buf = needle) [0..<length buf - length needle + 1])"
  by (rule string_scan_filter[OF assms])

theorem string_scan_spec_witness:
  "scanBufferString SSE2 (name_bytes ''say: aab aab'') 0x10 (name_bytes ''aab'') False =
     [(0x15, name_bytes ''aab''), (0x19, name_bytes ''aab'')]"
proof -
  have ok: "name_bytes ''aab'' \<noteq> []" "length (name_bytes ''aab'') \<le> length (name_bytes ''say: aab aab'')"
    by (simp_all add: name_bytes_def)
  show ?thesis by (simp only: string_scan_spec[OF ok]) code_simp
qed

lemma masked_eq_nth:
  "masked_eq cur pattern msk \<longleftrightarrow> (\<forall>j < length pattern. cur ! j AND msk ! j = pattern ! j AND msk ! j)"
  by (auto simp: masked_eq_def list_all_iff)

lemma u8_and_255: "x AND 0xFF = (x :: u8)"
  using take_bit_eq_mask[of 8 x] by (simp add: take_bit_word_eq_self mask_eq_exp_minus_1)

lemma first_full_byte:
  assumes "length (takeWhile (\<lambda>m. m \<noteq> 0xFF) msk) \<noteq> length msk"
  shows "length (takeWhile (\<lambda>m. m \<noteq> 0xFF) msk) < length msk"
    "msk ! length (takeWhile (\<lambda>m. m \<noteq> 0xFF) msk) = (0xFF :: u8)"
proof -
  show lt: "length (takeWhile (\<lambda>m. m \<noteq> 0xFF) msk) < length msk"
    using assms length_takeWhile_le[of "\<lambda>m. m \<noteq> 0xFF" msk] by linarith
  show "msk ! length (takeWhile (\<lambda>m. m \<noteq> 0xFF) msk) = (0xFF :: u8)"
    using nth_length_takeWhile[OF lt] by simp
qed

lemma aob_scan_filter:
  assumes "pattern \<noteq> []" "length msk = length pattern" "length pattern \<le> length buf"
  shows "scanBufferAOB mode buf base pattern msk =
    map (emitAt (length pattern) buf base)
      (filter (\<lambda>off. list_all (\<lambda>j. buf ! (off + j) AND msk ! j = pattern ! j AND msk ! j) [0..<length pattern])
        [0..<length buf - length pattern + 1])"
proof -
  let ?n = "length pattern" and ?limit = "length buf - length pattern + 1"
  let ?a = "length (takeWhile (\<lambda>m. m \<noteq> 0xFF) msk)"
  let ?P = "\<lambda>off. masked_eq (drop off buf) pattern msk"
  have ok: "?P off \<longleftrightarrow> list_all (\<lambda>j. buf ! (off + j) AND msk ! j = pattern ! j AND msk ! j) [0..<?n]"
    if "off \<in> set [0..<?limit]" for off
    using that assms(3) by (auto simp: masked_eq_nth list_all_iff)
  have plain: "each ?P (emitAt ?n buf base) [0..<?limit] = map (emitAt ?n buf base)
      (filter (\<lambda>off. list_all (\<lambda>j. buf ! (off + j) AND msk ! j = pattern ! j AND msk ! j) [0..<?n]) [0..<?limit])"
    unfolding each_eq by (rule arg_cong[where f = "map _"], rule filter_cong[OF refl ok])
  have "scanBufferAOB mode buf base pattern msk = each ?P (emitAt ?n buf base) [0..<?limit]"
  proof (cases "?a = ?n")
    case True
    then show ?thesis using assms by (simp add: scanBufferAOB_def Let_def)
  next
    case False
    have a: "?a < ?n" "msk ! ?a = 0xFF" using first_full_byte[of msk] False assms(2) by auto
    have end_le: "?limit + ?a \<le> length buf" using a(1) assms(3) by linarith
    have "scanBufferAOB mode buf base pattern msk =
        each (\<lambda>p. ?P (p - ?a)) (\<lambda>p. emitAt ?n buf base (p - ?a)) (anchorScan mode buf ?a (?limit + ?a) (pattern ! ?a))"
      using assms False by (simp add: scanBufferAOB_def Let_def)
    also have "\<dots> = each (\<lambda>p. buf ! p = pattern ! ?a \<and> ?P (p - ?a)) (\<lambda>p. emitAt ?n buf base (p - ?a)) [?a..<?a + ?limit]"
      by (simp only: anchorScan_filter[OF le_add2 end_le] each_filter add.commute[of ?a])
    also have "\<dots> = each ?P (emitAt ?n buf base) [0..<?limit]"
      unfolding each_shift
    proof (rule each_cong)
      fix off assume off: "off \<in> set [0..<?limit]"
      have "buf ! (?a + off) = pattern ! ?a" if "?P off"
      proof -
        have "buf ! (off + ?a) AND msk ! ?a = pattern ! ?a AND msk ! ?a"
          using that ok[OF off] a(1) by (simp add: list_all_iff)
        then show ?thesis by (simp only: a(2) u8_and_255 add.commute)
      qed
      then show "(buf ! (?a + off) = pattern ! ?a \<and> ?P (?a + off - ?a)) = ?P off" by auto
    qed simp
    finally show ?thesis .
  qed
  with plain show ?thesis by simp
qed

text \<open>
  C10: An array-of-bytes scan reports exactly the offsets at which every byte agrees with the pattern
  under its mask, in ascending order: searching for the first byte without wildcards loses nothing
  and adds nothing, wherever that byte stands in the pattern.
\<close>

theorem aob_scan_spec:
  assumes "pattern \<noteq> []" "length msk = length pattern" "length pattern \<le> length buf"
  shows "scanBufferAOB mode buf base pattern msk =
    map (emitAt (length pattern) buf base)
      (filter (\<lambda>off. list_all (\<lambda>j. buf ! (off + j) AND msk ! j = pattern ! j AND msk ! j) [0..<length pattern])
        [0..<length buf - length pattern + 1])"
  by (rule aob_scan_filter[OF assms])

theorem aob_scan_spec_witness:
  "scanBufferAOB AVX2 [1, 0x48, 0x8B, 5, 0x48, 0x8C, 7] 0x400000 [0x48, 0x80, 0] [0xFF, 0xF0, 0] =
     [(0x400001, [0x48, 0x8B, 5]), (0x400004, [0x48, 0x8C, 7])]"
proof -
  have ok: "[0x48, 0x80, 0] \<noteq> ([] :: bytes)" "length [0xFF, 0xF0, 0 :: u8] = length [0x48, 0x80, 0 :: u8]"
    "length [0x48, 0x80, 0 :: u8] \<le> length [1, 0x48, 0x8B, 5, 0x48, 0x8C, 7 :: u8]"
    by simp_all
  show ?thesis by (simp only: aob_scan_spec[OF ok]) code_simp
qed

end
