(* ===== verification/Scan_Floats.thy ===== *)
theory Scan_Floats
  imports Scan_Buffers
begin

text \<open>
  The scans of a buffer for \<^verbatim>\<open>float\<close> and \<^verbatim>\<open>double\<close> values (\<^verbatim>\<open>src/src/scanner/memory_scanner.cpp\<close>).
  The exact search compares whole vectors; the rounded ones reject, vector by vector, the values
  outside a window around the needle and verify the rest one by one.  The locale \<open>fp_number\<close> is what
  these scans rely on in a number type; it is interpreted for both types.
\<close>

section \<open>The plain loop\<close>

definition scanBufferFloating :: "(int \<Rightarrow> fp) \<Rightarrow> fp_type \<Rightarrow> bytes \<Rightarrow> u64 \<Rightarrow> nat \<Rightarrow> ScanConfig \<Rightarrow> hit list" where
  "scanBufferFloating pow10 F buf base alignment cfg =
     scan_loop_bytes (ft_size F) alignment
       (\<lambda>bs. compareFloating pow10 cfg (ft_val F bs) (fp_cast (ft_format F) (cf_float cfg))
              (fp_cast (ft_format F) (cf_float2 cfg))) buf base"

section \<open>The vector paths\<close>

definition fp_lane :: "fp_type \<Rightarrow> bytes \<Rightarrow> nat \<Rightarrow> fp" where
  "fp_lane F buf i = ft_val F (drop (i * ft_size F) buf)"

definition fp_emit :: "fp_type \<Rightarrow> bytes \<Rightarrow> u64 \<Rightarrow> nat \<Rightarrow> hit" where
  "fp_emit F buf base i = emitAt (ft_size F) buf base (i * ft_size F)"

definition exact_block :: "fp_type \<Rightarrow> nat \<Rightarrow> bytes \<Rightarrow> u64 \<Rightarrow> fp \<Rightarrow> nat \<Rightarrow> hit list" where
  "exact_block F W buf base needle i =
     (let msk = movemask (map (\<lambda>lane. fp_eq (fp_lane F buf (i + lane)) needle) [0..<W]) in
      if msk \<noteq> 0
      then each (\<lambda>lane. msk AND push_bit lane 1 \<noteq> 0) (\<lambda>lane. fp_emit F buf base (i + lane)) [0..<W]
      else [])"

definition exact_tail :: "fp_type \<Rightarrow> bytes \<Rightarrow> u64 \<Rightarrow> fp \<Rightarrow> nat list \<Rightarrow> hit list" where
  "exact_tail F buf base needle is = each (\<lambda>i. fp_eq (fp_lane F buf i) needle) (fp_emit F buf base) is"

definition scanExactFloatAVX :: "fp_type \<Rightarrow> bytes \<Rightarrow> nat \<Rightarrow> u64 \<Rightarrow> fp \<Rightarrow> hit list" where
  "scanExactFloatAVX F buf nLanes base needle =
     (let W = (if ft_size F = 4 then 8 else 4);
          (hs, i) = vec_loop W nLanes (exact_block F W buf base needle) 0
      in hs @ exact_tail F buf base needle [i..<nLanes])"

definition scanExactFloatSSE :: "fp_type \<Rightarrow> bytes \<Rightarrow> nat \<Rightarrow> u64 \<Rightarrow> fp \<Rightarrow> hit list" where
  "scanExactFloatSSE F buf nLanes base needle =
     (let W = (if ft_size F = 4 then 4 else 2);
          (hs, i) = vec_loop W nLanes (exact_block F W buf base needle) 0
      in hs @ exact_tail F buf base needle [i..<nLanes])"

definition roundedFloatScalarTail :: "fp_type \<Rightarrow> bytes \<Rightarrow> nat \<Rightarrow> nat \<Rightarrow> u64 \<Rightarrow> (fp \<Rightarrow> bool) \<Rightarrow> hit list" where
  "roundedFloatScalarTail F buf start nLanes base verify =
     each (\<lambda>i. verify (fp_lane F buf i)) (fp_emit F buf base) [start..<nLanes]"

definition rounded_block :: "fp_type \<Rightarrow> nat \<Rightarrow> bytes \<Rightarrow> u64 \<Rightarrow> fp \<Rightarrow> fp \<Rightarrow> (fp \<Rightarrow> bool) \<Rightarrow> nat \<Rightarrow> hit list" where
  "rounded_block F W buf base lo hi verify i =
     each (\<lambda>b. verify (fp_lane F buf (i + b))) (\<lambda>b. fp_emit F buf base (i + b))
       (mask_bits (movemask (map (\<lambda>lane. let v = fp_lane F buf (i + lane) in fp_le lo v \<and> fp_le v hi) [0..<W])))"

definition scanRoundedFloatAVX :: "fp_type \<Rightarrow> bytes \<Rightarrow> nat \<Rightarrow> u64 \<Rightarrow> fp \<Rightarrow> fp \<Rightarrow> (fp \<Rightarrow> bool) \<Rightarrow> hit list" where
  "scanRoundedFloatAVX F buf nLanes base lo hi verify =
     (let W = (if ft_size F = 4 then 8 else 4);
          (hs, i) = vec_loop W nLanes (rounded_block F W buf base lo hi verify) 0
      in hs @ roundedFloatScalarTail F buf i nLanes base verify)"

definition scanRoundedFloatSSE :: "fp_type \<Rightarrow> bytes \<Rightarrow> nat \<Rightarrow> u64 \<Rightarrow> fp \<Rightarrow> fp \<Rightarrow> (fp \<Rightarrow> bool) \<Rightarrow> hit list" where
  "scanRoundedFloatSSE F buf nLanes base lo hi verify =
     (let W = (if ft_size F = 4 then 4 else 2);
          (hs, i) = vec_loop W nLanes (rounded_block F W buf base lo hi verify) 0
      in hs @ roundedFloatScalarTail F buf i nLanes base verify)"

section \<open>The choice of a path\<close>

definition half_width :: "ScanConfig \<Rightarrow> fp \<Rightarrow> fp" where
  "half_width cfg s =
     (let tol = (if cf_rounding cfg = 3 then extreme_tolerance cfg s else Fin 0)
      in fp_add (fp_max (Fin 2) tol) (Fin 2))"

text \<open>\<open>None\<close> is the result \<^verbatim>\<open>false\<close>: the caller runs the plain loop.\<close>

definition tryScanExactFloat :: "SimdMode \<Rightarrow> (int \<Rightarrow> fp) \<Rightarrow> fp_type \<Rightarrow> bytes \<Rightarrow> u64 \<Rightarrow> nat \<Rightarrow> ScanConfig \<Rightarrow> hit list option" where
  "tryScanExactFloat mode pow10 F buf base alignment cfg =
     (let L = ft_size F; needle = fp_cast (ft_format F) (cf_float cfg) in
      if cf_cmp cfg \<noteq> Exact \<or> alignment \<noteq> L \<or> length buf < L \<or> \<not> fp_finite needle then None
      else let nLanes = (length buf - L) div L + 1 in
        if cf_rounding cfg = 0 then
          Some (case mode of
              AVX2 \<Rightarrow> scanExactFloatAVX F buf nLanes base needle
            | SSE2 \<Rightarrow> scanExactFloatSSE F buf nLanes base needle
            | Scalar \<Rightarrow> exact_tail F buf base needle [0..<nLanes])
        else
          let hw = half_width cfg needle;
              lo = fp_cast (ft_format F) (fp_sub needle hw);
              hi = fp_cast (ft_format F) (fp_add needle hw);
              verify = (\<lambda>c. compareFloatingExact pow10 cfg c needle)
          in Some (case mode of
              AVX2 \<Rightarrow> scanRoundedFloatAVX F buf nLanes base lo hi verify
            | SSE2 \<Rightarrow> scanRoundedFloatSSE F buf nLanes base lo hi verify
            | Scalar \<Rightarrow> roundedFloatScalarTail F buf 0 nLanes base verify))"

definition scanFloating :: "SimdMode \<Rightarrow> (int \<Rightarrow> fp) \<Rightarrow> fp_type \<Rightarrow> bytes \<Rightarrow> u64 \<Rightarrow> nat \<Rightarrow> ScanConfig \<Rightarrow> hit list" where
  "scanFloating mode pow10 F buf base alignment cfg =
     (case tryScanExactFloat mode pow10 F buf base alignment cfg of
        Some hs \<Rightarrow> hs
      | None \<Rightarrow> scanBufferFloating pow10 F buf base alignment cfg)"

section \<open>Masks of lanes\<close>

lemma lane_mask:
  assumes "W \<le> 32"
  shows "each (\<lambda>l. movemask (map p [0..<W]) AND push_bit l 1 \<noteq> 0) f [0..<W] = each p f [0..<W]"
  by (rule each_cong) (use assms in \<open>auto simp: bit_movemask and_exp_eq_0_iff_not_bit push_bit_eq_mult\<close>)

lemma lane_bits:
  assumes "W \<le> 32"
  shows "mask_bits (movemask (map p [0..<W])) = filter p [0..<W]"
proof -
  have "mask_bits (movemask (map p [0..<W])) = filter (\<lambda>i. i < W \<and> p i) ([0..<W] @ [W..<32])"
    unfolding mask_bits_filter using assms upt_split[of 0 W 32] by (auto simp: bit_movemask intro!: filter_cong)
  then show ?thesis by (auto simp: filter_empty_conv intro!: filter_cong)
qed

lemma exact_block_lanes:
  assumes "W \<le> 32"
  shows "exact_block F W buf base needle i = exact_tail F buf base needle [i..<i + W]"
proof -
  let ?p = "\<lambda>lane. fp_eq (fp_lane F buf (i + lane)) needle"
  let ?m = "movemask (map ?p [0..<W])"
  have "each (\<lambda>l. ?m AND push_bit l 1 \<noteq> 0) (\<lambda>l. fp_emit F buf base (i + l)) [0..<W] =
      exact_tail F buf base needle [i..<i + W]"
    by (simp only: lane_mask[OF assms] exact_tail_def each_shift)
  moreover have "each (\<lambda>l. (0 :: u32) AND push_bit l 1 \<noteq> 0) (\<lambda>l. fp_emit F buf base (i + l)) [0..<W] = []"
    by (simp add: each_eq)
  ultimately show ?thesis by (cases "?m = 0") (simp_all add: exact_block_def Let_def)
qed

lemma rounded_block_lanes:
  assumes "W \<le> 32" "\<And>i. verify (fp_lane F buf i) \<Longrightarrow> fp_le lo (fp_lane F buf i) \<and> fp_le (fp_lane F buf i) hi"
  shows "rounded_block F W buf base lo hi verify i =
    each (\<lambda>i. verify (fp_lane F buf i)) (fp_emit F buf base) [i..<i + W]"
  unfolding rounded_block_def Let_def lane_bits[OF assms(1)] each_shift each_filter
  by (rule each_cong) (use assms(2) in auto)

lemma scanExactFloat_lanes:
  "scanExactFloatAVX F buf nLanes base needle = exact_tail F buf base needle [0..<nLanes]"
  "scanExactFloatSSE F buf nLanes base needle = exact_tail F buf base needle [0..<nLanes]"
proof -
  have run: "hs @ exact_tail F buf base needle [i..<nLanes] = exact_tail F buf base needle [0..<nLanes]"
    if "vec_loop W nLanes (exact_block F W buf base needle) 0 = (hs, i)" "0 < W" "W \<le> 32" for W hs i
    using vec_loop_all[OF that(2) _ that(1), of "\<lambda>i. if fp_eq (fp_lane F buf i) needle then [fp_emit F buf base i] else []"]
      exact_block_lanes[OF that(3)] by (simp add: exact_tail_def each_def)
  show "scanExactFloatAVX F buf nLanes base needle = exact_tail F buf base needle [0..<nLanes]"
    "scanExactFloatSSE F buf nLanes base needle = exact_tail F buf base needle [0..<nLanes]"
    unfolding scanExactFloatAVX_def scanExactFloatSSE_def Let_def by (auto split: prod.splits intro!: run)
qed

lemma scanRoundedFloat_lanes:
  assumes "\<And>i. verify (fp_lane F buf i) \<Longrightarrow> fp_le lo (fp_lane F buf i) \<and> fp_le (fp_lane F buf i) hi"
  shows "scanRoundedFloatAVX F buf nLanes base lo hi verify = roundedFloatScalarTail F buf 0 nLanes base verify"
    "scanRoundedFloatSSE F buf nLanes base lo hi verify = roundedFloatScalarTail F buf 0 nLanes base verify"
proof -
  have run: "hs @ roundedFloatScalarTail F buf i nLanes base verify = roundedFloatScalarTail F buf 0 nLanes base verify"
    if "vec_loop W nLanes (rounded_block F W buf base lo hi verify) 0 = (hs, i)" "0 < W" "W \<le> 32" for W hs i
    using vec_loop_all[OF that(2) _ that(1), of "\<lambda>i. if verify (fp_lane F buf i) then [fp_emit F buf base i] else []"]
      rounded_block_lanes[where verify = verify, OF that(3) assms] by (simp add: roundedFloatScalarTail_def each_def)
  show "scanRoundedFloatAVX F buf nLanes base lo hi verify = roundedFloatScalarTail F buf 0 nLanes base verify"
    "scanRoundedFloatSSE F buf nLanes base lo hi verify = roundedFloatScalarTail F buf 0 nLanes base verify"
    unfolding scanRoundedFloatAVX_def scanRoundedFloatSSE_def Let_def by (auto split: prod.splits intro!: run)
qed

section \<open>The window of the rounded searches\<close>

text \<open>What the float scans rely on in a number type.\<close>

locale fp_number =
  fixes F :: fp_type
  assumes size: "ft_size F = 4 \<or> ft_size F = 8"
    and prefix: "ft_val F (take (ft_size F) bs) = ft_val F bs"
    and holds: "ft_val F bs = Fin x \<Longrightarrow> holds_rat (ft_format F) x"
    and widen: "holds_rat (ft_format F) x \<Longrightarrow> holds_rat binary64 x"
begin

lemma lane_piece: "fp_lane F buf i = ft_val F (piece (i * ft_size F) (ft_size F) buf)"
  by (simp add: fp_lane_def piece_def prefix)

lemma lanes_loop:
  assumes "ft_size F \<le> length buf"
  shows "each (\<lambda>i. P (fp_lane F buf i)) (fp_emit F buf base) [0..<(length buf - ft_size F) div ft_size F + 1] =
    scan_loop_bytes (ft_size F) (ft_size F) (\<lambda>bs. P (ft_val F bs)) buf base"
proof -
  let ?n = "ft_size F"
  have n: "0 < ?n" using size by auto
  have "(length buf - ?n + 1 + ?n - 1) div ?n = (length buf - ?n) div ?n + 1"
    using assms n by (simp add: le_div_geq)
  then have "strides ?n (length buf - ?n + 1) 0 = map (\<lambda>i. i * ?n) [0..<(length buf - ?n) div ?n + 1]"
    by (simp only: strides_lanes[OF n])
  moreover have "scan_loop_bytes ?n ?n (\<lambda>bs. P (ft_val F bs)) buf base =
      each (\<lambda>off. P (ft_val F (piece off ?n buf))) (emitAt ?n buf base) (strides ?n (length buf - ?n + 1) 0)"
    using assms n by (simp add: scan_loop_bytes_def)
  ultimately show ?thesis by (simp only: each_map lane_piece fp_emit_def[abs_def])
qed

text \<open>Rounding does not move a value of the type across another.\<close>

lemma cast_le:
  assumes "holds_rat (ft_format F) c" "y \<le> c"
  shows "fp_le (fp_cast (ft_format F) (fp_round binary64 y)) (Fin c)"
proof -
  have c64: "fp_round binary64 c = Fin c" by (rule fp_round_holds[OF widen[OF assms(1)]])
  have cF: "fp_round (ft_format F) c = Fin c" by (rule fp_round_holds[OF assms(1)])
  have le: "fp_le (fp_round binary64 y) (Fin c)" using fp_round_mono[OF assms(2), of binary64] by (simp only: c64)
  show ?thesis
  proof (cases "fp_round binary64 y")
    case (Fin z)
    then have "z \<le> c" using le by simp
    from fp_round_mono[OF this, of "ft_format F"] show ?thesis by (simp only: Fin fp_cast.simps cF)
  next
    case (Infinite b)
    then show ?thesis using le by (cases b) (simp_all add: fp_le_def)
  next
    case NaN
    then show ?thesis using le by (simp add: fp_le_def)
  qed
qed

lemma cast_ge:
  assumes "holds_rat (ft_format F) c" "c \<le> y"
  shows "fp_le (Fin c) (fp_cast (ft_format F) (fp_round binary64 y))"
proof -
  have c64: "fp_round binary64 c = Fin c" by (rule fp_round_holds[OF widen[OF assms(1)]])
  have cF: "fp_round (ft_format F) c = Fin c" by (rule fp_round_holds[OF assms(1)])
  have le: "fp_le (Fin c) (fp_round binary64 y)" using fp_round_mono[OF assms(2), of binary64] by (simp only: c64)
  show ?thesis
  proof (cases "fp_round binary64 y")
    case (Fin z)
    then have "c \<le> z" using le by simp
    from fp_round_mono[OF this, of "ft_format F"] show ?thesis by (simp only: Fin fp_cast.simps cF)
  next
    case (Infinite b)
    then show ?thesis using le by (cases b) (simp_all add: fp_le_def)
  next
    case NaN
    then show ?thesis using le by (simp add: fp_le_def)
  qed
qed

lemma in_window:
  assumes "holds_rat (ft_format F) c" "\<bar>c - s\<bar> \<le> h"
  shows "fp_le (fp_cast (ft_format F) (fp_sub (Fin s) (Fin h))) (Fin c) \<and>
    fp_le (Fin c) (fp_cast (ft_format F) (fp_add (Fin s) (Fin h)))"
  using cast_le[OF assms(1), of "s - h"] cast_ge[OF assms(1), of "s + h"] assms(2)
  by (simp add: fp_sub_def abs_le_iff algebra_simps)

end

interpretation float_num: fp_number float_t
  by unfold_locales (auto simp: float_t_def float_val_holds intro: holds_32_64)

interpretation double_num: fp_number double_t
  by unfold_locales (auto simp: double_t_def double_val_holds)

lemma rounded_distance:
  assumes "fp_le (fp_abs (fp_round binary64 x)) (Fin t)" "t < 2 ^ 52" "0 \<le> t"
  shows "\<bar>x\<bar> \<le> of_int \<lfloor>t\<rfloor> + 1"
proof (rule ccontr)
  let ?k = "\<lfloor>t\<rfloor> + 1"
  assume far: "\<not> \<bar>x\<bar> \<le> of_int \<lfloor>t\<rfloor> + 1"
  have t: "t < of_int ?k" by linarith
  have "\<lfloor>t\<rfloor> < 2 ^ 52" using assms(2) by (simp add: floor_less_iff)
  moreover have "0 \<le> \<lfloor>t\<rfloor>" using assms(3) by simp
  ultimately have "\<bar>?k\<bar> < 2 ^ 53" by simp
  then have k: "fp_round binary64 (of_int ?k) = Fin (of_int ?k)" "fp_round binary64 (of_int (- ?k)) = Fin (of_int (- ?k))"
    using holds_small_int[of ?k] holds_small_int[of "- ?k"] by (auto intro!: fp_round_holds)
  consider "of_int ?k \<le> x" | "x \<le> of_int (- ?k)" using far by fastforce
  then show False
  proof cases
    case 1
    then have "fp_le (Fin (of_int ?k)) (fp_round binary64 x)" using fp_round_mono[OF 1, of binary64] by (simp only: k)
    then show False using assms(1) t by (cases "fp_round binary64 x") (auto simp: fp_le_def)
  next
    case 2
    then have "fp_le (fp_round binary64 x) (Fin (of_int (- ?k)))" using fp_round_mono[OF 2, of binary64] by (simp only: k)
    then show False using assms(1) t by (cases "fp_round binary64 x") (auto simp: fp_le_def)
  qed
qed

text \<open>
  The window covers the matches when the tolerance is a moderate number and \<^verbatim>\<open>std::pow(10.0, -d)\<close> is
  at most one.
\<close>

definition pow10_law :: "(int \<Rightarrow> fp) \<Rightarrow> bool" where
  "pow10_law pow10 \<longleftrightarrow> (\<forall>d \<ge> 0. \<exists>p. pow10 (- d) = Fin p \<and> 0 \<le> p \<and> p \<le> 1)"

definition tolerance_ok :: "ScanConfig \<Rightarrow> fp \<Rightarrow> bool" where
  "tolerance_ok cfg s \<longleftrightarrow>
     (cf_rounding cfg = 3 \<longrightarrow> (\<exists>t. extreme_tolerance cfg s = Fin t \<and> 0 \<le> t \<and> t < 2 ^ 50))"

lemma match_distance:
  assumes "compareFloatingExact pow10 cfg (Fin c) (Fin s)" "pow10_law pow10" "tolerance_ok cfg (Fin s)"
  shows "(cf_rounding cfg = 3 \<longrightarrow> (\<exists>t. extreme_tolerance cfg (Fin s) = Fin t \<and> 0 \<le> t \<and> t < 2 ^ 50 \<and> \<bar>c - s\<bar> \<le> of_int \<lfloor>t\<rfloor> + 1)) \<and>
    (cf_rounding cfg \<noteq> 3 \<longrightarrow> \<bar>c - s\<bar> \<le> 2)"
proof -
  consider (dec) "cf_rounding cfg = 1" "0 \<le> cf_decimals cfg" | (near) "cf_rounding cfg = 1" "\<not> 0 \<le> cf_decimals cfg"
    | (trunc) "cf_rounding cfg = 2" | (ext) "cf_rounding cfg = 3"
    | (eq) "cf_rounding cfg \<noteq> 1" "cf_rounding cfg \<noteq> 2" "cf_rounding cfg \<noteq> 3" by blast
  then show ?thesis
  proof cases
    case dec
    obtain p where p: "pow10 (- cf_decimals cfg) = Fin p" "0 \<le> p" "p \<le> 1"
      using assms(2) dec(2) unfolding pow10_law_def by blast
    have one: "fp_round binary64 1 = Fin 1" using fp_round_holds[OF holds_small_int[of 1]] by simp
    have "p / 2 \<le> 1" using p by linarith
    from fp_round_mono[OF this, of binary64] have half: "fp_le (fp_round binary64 (p / 2)) (Fin 1)" by (simp only: one)
    have "fp_le (fp_abs (fp_round binary64 (c - s))) (fp_round binary64 (p / 2))"
      using assms(1) dec p by (simp add: compareFloatingExact_def fp_sub_def)
    with half have "fp_le (fp_abs (fp_round binary64 (c - s))) (Fin 1)"
      by (cases "fp_round binary64 (p / 2)"; cases "fp_round binary64 (c - s)") (auto simp: fp_le_def)
    from rounded_distance[OF this] dec show ?thesis by simp
  next
    case near
    then have "rat_round c = rat_round s"
      using assms(1) by (simp add: compareFloatingExact_def fp_round_eq_def)
    then have "\<bar>c - s\<bar> \<le> 2" unfolding rat_round_def by (auto split: if_splits) linarith+
    with near show ?thesis by simp
  next
    case trunc
    then have "rat_trunc c = rat_trunc s" using assms(1) by (simp add: compareFloatingExact_def)
    then have "\<bar>c - s\<bar> \<le> 2" unfolding rat_trunc_def by (auto split: if_splits) linarith+
    with trunc show ?thesis by simp
  next
    case ext
    then obtain t where t: "extreme_tolerance cfg (Fin s) = Fin t" "0 \<le> t" "t < 2 ^ 50"
      using assms(3) unfolding tolerance_ok_def by blast
    have "fp_le (fp_abs (fp_round binary64 (c - s))) (Fin t)"
      using assms(1) ext t(1) by (simp add: compareFloatingExact_def fp_sub_def)
    from rounded_distance[OF this _ t(2)] t ext show ?thesis by simp
  next
    case eq
    then show ?thesis using assms(1) by (simp add: compareFloatingExact_def)
  qed
qed

text \<open>The half width of the window is a double that is not smaller than the distance of a match.\<close>

lemma half_width_covers:
  assumes "compareFloatingExact pow10 cfg (Fin c) (Fin s)" "pow10_law pow10" "tolerance_ok cfg (Fin s)"
  shows "\<exists>h. half_width cfg (Fin s) = Fin h \<and> \<bar>c - s\<bar> \<le> h"
proof (cases "cf_rounding cfg = 3")
  case False
  have "fp_round binary64 4 = Fin 4" using fp_round_holds[OF holds_small_int[of 4]] by simp
  then have "half_width cfg (Fin s) = Fin 4" using False by (simp add: half_width_def fp_max_def)
  then show ?thesis using match_distance[OF assms] False by auto
next
  case True
  then obtain t where t: "extreme_tolerance cfg (Fin s) = Fin t" "0 \<le> t" "t < 2 ^ 50" "\<bar>c - s\<bar> \<le> of_int \<lfloor>t\<rfloor> + 1"
    using match_distance[OF assms] by blast
  define m where "m = max 2 t"
  have "half_width cfg (Fin s) = fp_round binary64 (m + 2)"
    using True t(1) by (simp add: half_width_def fp_max_def m_def)
  moreover have "\<exists>h. fp_round binary64 (m + 2) = Fin h \<and> of_int \<lfloor>t\<rfloor> + 2 \<le> h"
  proof -
    have fl: "\<lfloor>t\<rfloor> < 2 ^ 50" "0 \<le> \<lfloor>t\<rfloor>" using t by (simp_all add: floor_less_iff)
    have lo: "fp_round binary64 (of_int (\<lfloor>t\<rfloor> + 2)) = Fin (of_int (\<lfloor>t\<rfloor> + 2))"
      using fl by (intro fp_round_holds holds_small_int) simp
    have hi: "fp_round binary64 (of_int (2 ^ 51)) = Fin (of_int (2 ^ 51))"
      by (intro fp_round_holds holds_small_int) simp
    have "of_int (\<lfloor>t\<rfloor> + 2) \<le> m + 2" "m + 2 \<le> of_int (2 ^ 51)"
      using t(3) by (auto simp: m_def le_max_iff_disj)
    then have "fp_le (fp_round binary64 (of_int (\<lfloor>t\<rfloor> + 2))) (fp_round binary64 (m + 2))"
      "fp_le (fp_round binary64 (m + 2)) (fp_round binary64 (of_int (2 ^ 51)))"
      by (simp_all only: fp_round_mono)
    then show ?thesis unfolding lo hi by (cases "fp_round binary64 (m + 2)") (auto simp: fp_le_def)
  qed
  ultimately show ?thesis using t(4) by auto
qed

context fp_number
begin

lemma try_loop:
  assumes "tryScanExactFloat mode pow10 F buf base alignment cfg = Some hs" "pow10_law pow10"
    "tolerance_ok cfg (fp_cast (ft_format F) (cf_float cfg))"
  shows "hs = scanBufferFloating pow10 F buf base alignment cfg"
proof -
  let ?needle = "fp_cast (ft_format F) (cf_float cfg)"
  let ?nL = "(length buf - ft_size F) div ft_size F + 1"
  have c: "cf_cmp cfg = Exact" "alignment = ft_size F" "ft_size F \<le> length buf" "fp_finite ?needle"
    using assms(1) by (auto simp: tryScanExactFloat_def Let_def split: if_splits)
  obtain s where s: "?needle = Fin s" using c(4) by (auto simp: fp_finite_iff)
  have plain: "scanBufferFloating pow10 F buf base alignment cfg =
      each (\<lambda>i. compareFloatingExact pow10 cfg (fp_lane F buf i) ?needle) (fp_emit F buf base) [0..<?nL]"
    using c(1,2) lanes_loop[OF c(3), of "\<lambda>v. compareFloatingExact pow10 cfg v ?needle" base]
    by (simp add: scanBufferFloating_def compareFloating_def)
  show ?thesis
  proof (cases "cf_rounding cfg = 0")
    case True
    have "fp_eq v (Fin s) = compareFloatingExact pow10 cfg v (Fin s)" for v
      using True by (cases v) (auto simp: compareFloatingExact_def)
    then have "exact_tail F buf base ?needle [0..<?nL] = scanBufferFloating pow10 F buf base alignment cfg"
      unfolding plain s exact_tail_def by simp
    then show ?thesis using assms(1) c True
      by (cases mode) (auto simp: tryScanExactFloat_def Let_def scanExactFloat_lanes)
  next
    case False
    let ?lo = "fp_cast (ft_format F) (fp_sub ?needle (half_width cfg ?needle))"
    let ?hi = "fp_cast (ft_format F) (fp_add ?needle (half_width cfg ?needle))"
    let ?verify = "\<lambda>v. compareFloatingExact pow10 cfg v ?needle"
    have win: "fp_le ?lo (fp_lane F buf i) \<and> fp_le (fp_lane F buf i) ?hi" if v: "?verify (fp_lane F buf i)" for i
    proof -
      obtain x where x: "fp_lane F buf i = Fin x"
        using v by (auto simp: compareFloatingExact_def fp_finite_iff split: if_splits)
      obtain h where h: "half_width cfg (Fin s) = Fin h" "\<bar>x - s\<bar> \<le> h"
        using half_width_covers[OF _ assms(2)] v assms(3) unfolding x s by blast
      have "holds_rat (ft_format F) x" using holds x by (simp add: fp_lane_def)
      from in_window[OF this h(2)] show ?thesis by (simp only: x s h(1))
    qed
    have tail: "roundedFloatScalarTail F buf 0 ?nL base ?verify = scanBufferFloating pow10 F buf base alignment cfg"
      by (simp only: plain roundedFloatScalarTail_def)
    show ?thesis
      using assms(1) c False scanRoundedFloat_lanes[where verify = ?verify and lo = ?lo and hi = ?hi, OF win] tail
      by (cases mode) (auto simp: tryScanExactFloat_def Let_def)
  qed
qed

lemma scanFloating_loop:
  assumes "pow10_law pow10" "tolerance_ok cfg (fp_cast (ft_format F) (cf_float cfg))"
  shows "scanFloating mode pow10 F buf base alignment cfg = scanBufferFloating pow10 F buf base alignment cfg"
  using try_loop[OF _ assms] by (cases "tryScanExactFloat mode pow10 F buf base alignment cfg") (auto simp: scanFloating_def)

end

lemma scanFloating_plain:
  assumes "F = float_t \<or> F = double_t" "pow10_law pow10" "tolerance_ok cfg (fp_cast (ft_format F) (cf_float cfg))"
  shows "scanFloating mode pow10 F buf base alignment cfg = scanBufferFloating pow10 F buf base alignment cfg"
  using assms float_num.scanFloating_loop double_num.scanFloating_loop by blast

text \<open>
  C20: The first scan for a \<^verbatim>\<open>float\<close> or a \<^verbatim>\<open>double\<close> reports the hits of the plain loop over the
  alignment grid with the scalar comparison, for every comparison, every rounding mode and every
  vector path: the vectorised equality and the window in front of the rounded comparison change
  nothing as long as the tolerance of an extreme search stays below \<open>2 ^ 50\<close>.
\<close>

theorem float_scan_spec:
  assumes "F = float_t \<or> F = double_t" "pow10_law pow10" "tolerance_ok cfg (fp_cast (ft_format F) (cf_float cfg))"
  shows "scanFloating mode pow10 F buf base alignment cfg =
    (if length buf < ft_size F then []
     else map (emitAt (ft_size F) buf base)
       (filter (\<lambda>off. off mod max 1 alignment = 0 \<and>
           compareFloating pow10 cfg (ft_val F (piece off (ft_size F) buf))
             (fp_cast (ft_format F) (cf_float cfg)) (fp_cast (ft_format F) (cf_float2 cfg)))
         [0..<length buf - ft_size F + 1]))"
  by (simp only: scanFloating_plain[OF assms] scanBufferFloating_def scan_loop_bytes_filter)

definition one_below :: "int \<Rightarrow> fp" where
  "one_below d = Fin (if d < 0 then 1 / 10 ^ nat (- d) else 1)"

definition truncated_two :: ScanConfig where
  "truncated_two = default_config\<lparr>cf_type := VFloat, cf_rounding := 2, cf_float := Fin 2\<rparr>"

theorem float_scan_spec_witness:
  "scanFloating AVX2 one_below float_t [0, 0, 0x20, 0x40, 0, 0, 0x40, 0x40] 0x2000 4 truncated_two =
     [(0x2000, [0, 0, 0x20, 0x40])]"
proof -
  have "one_below (- d) = Fin (1 / 10 ^ nat d)" "(1 :: rat) / 10 ^ nat d \<le> 1" if "0 \<le> d" for d
    using that by (auto simp: one_below_def)
  then have pow: "pow10_law one_below" by (auto simp: pow10_law_def)
  have tol: "tolerance_ok truncated_two (fp_cast (ft_format float_t) (cf_float truncated_two))"
    by (simp add: tolerance_ok_def truncated_two_def)
  show ?thesis
    unfolding float_scan_spec[OF disjI1[OF refl] pow tol] by code_simp
qed

text \<open>
  With a larger tolerance the window can miss a match: \<open>- 1\<close> is within \<open>2 ^ 54\<close> of \<open>2 ^ 54\<close> for the
  scalar comparison, whose subtraction rounds, and lies outside the window.
\<close>

definition wide_search :: ScanConfig where
  "wide_search = default_config\<lparr>cf_type := VDouble, cf_rounding := 3, cf_float := Fin (2 ^ 54), cf_tolerance := Fin (2 ^ 54)\<rparr>"

lemma wide_window_gap:
  "compareFloatingExact pow10 wide_search (Fin (- 1)) (Fin (2 ^ 54))"
  "\<not> fp_le (fp_cast binary64 (fp_sub (Fin (2 ^ 54)) (half_width wide_search (Fin (2 ^ 54))))) (Fin (- 1))"
proof -
  show "compareFloatingExact pow10 wide_search (Fin (- 1)) (Fin (2 ^ 54))"
    unfolding compareFloatingExact_def wide_search_def default_config_def extreme_tolerance_def
    by simp code_simp
  have "fp_round binary64 (2 ^ 54 + 2) = Fin (2 ^ 54)" by code_simp
  then have hw: "half_width wide_search (Fin (2 ^ 54)) = Fin (2 ^ 54)"
    by (simp add: half_width_def wide_search_def extreme_tolerance_def fp_max_def)
  have "fp_cast binary64 (fp_sub (Fin (2 ^ 54)) (Fin (2 ^ 54))) = Fin 0" by code_simp
  then show "\<not> fp_le (fp_cast binary64 (fp_sub (Fin (2 ^ 54)) (half_width wide_search (Fin (2 ^ 54))))) (Fin (- 1))"
    by (simp only: hw) simp
qed

end
