(* ===== verification/Scan_Chunks.thy ===== *)
theory Scan_Chunks
  imports Scan_Patterns Scan_Floats Linux_Process
begin

text \<open>
  The split of a scanned range into chunks.  A chunk owns \<open>ownedLen\<close> start positions and is read with
  the bytes a value that starts at its last position still needs.  The locale states when a scan of a
  buffer may be run chunk by chunk: what it reports at an offset depends on the \<open>n\<close> bytes there, and
  it visits the offsets of a grid.  Its lemma is that the chunks together then report what the scan of
  the whole range reports.
\<close>

section \<open>Chunks\<close>

definition owned_len :: "nat \<Rightarrow> nat \<Rightarrow> nat" where
  "owned_len chunkBytes alignment =
     (let n = chunkBytes div alignment * alignment in if n = 0 then alignment else n)"

record Chunk =
  ch_base :: u64
  ch_owned :: nat
  ch_readLen :: nat

definition range_chunks :: "nat \<Rightarrow> nat \<Rightarrow> u64 \<times> u64 \<Rightarrow> Chunk list" where
  "range_chunks ownedLen overlap rng =
     (case rng of (rbase, rend) \<Rightarrow>
        if rend \<le> rbase then []
        else let rsize = unat (rend - rbase) in
          map (\<lambda>ws. \<lparr>ch_base = rbase + of_nat ws, ch_owned = min ownedLen (rsize - ws),
                     ch_readLen = min (ownedLen + overlap) (rsize - ws)\<rparr>) (strides ownedLen rsize 0))"

definition scan_chunks :: "nat \<Rightarrow> nat \<Rightarrow> ranges \<Rightarrow> Chunk list" where
  "scan_chunks ownedLen overlap rngs = concat (map (range_chunks ownedLen overlap) rngs)"

section \<open>Grids\<close>

lemma strides_shift: "strides g (a + m) a = map (\<lambda>i. a + i) (strides g m 0)" if "0 < g"
proof -
  have "[0..<a + m] = [0..<a] @ map (\<lambda>i. a + i) [0..<m]"
    using upt_add_eq_append[of 0 a m] map_add_upt[of a m] by (simp add: add.commute)
  then show ?thesis
    by (simp add: strides_filter[OF that] filter_map comp_def filter_empty_conv)
qed

lemma strides_append:
  assumes "0 < g" "g dvd m" "a \<le> limit"
  shows "strides g limit a = strides g (min limit (a + m)) a @ strides g limit (a + m)"
proof (cases "a + m \<le> limit")
  case True
  have same_rest: "(i - a) mod g = (i - (a + m)) mod g" if "a + m \<le> i" for i
  proof -
    have "i - a = (i - (a + m)) + m" using that by simp
    then show ?thesis using assms(2) by (metis mod_add_right_eq add.right_neutral dvd_imp_mod_0)
  qed
  have "[0..<limit] = [0..<a + m] @ [a + m..<limit]" using True upt_add_eq_append[of 0 "a + m" "limit - (a + m)"] by simp
  moreover have "filter (\<lambda>i. a \<le> i \<and> (i - a) mod g = 0) [a + m..<limit] =
      filter (\<lambda>i. a + m \<le> i \<and> (i - (a + m)) mod g = 0) [a + m..<limit]"
    using same_rest by (intro filter_cong) auto
  moreover have "filter (\<lambda>i. a + m \<le> i \<and> (i - (a + m)) mod g = 0) [0..<a + m] = []" by (simp add: filter_empty_conv)
  ultimately show ?thesis using True by (simp add: strides_filter[OF assms(1)] min_absorb2)
next
  case False
  then have "strides g limit (a + m) = []" using assms(1) by (simp add: strides.simps)
  then show ?thesis using False by (simp add: min_absorb1)
qed

lemma strides_less: "i \<in> set (strides g limit 0) \<Longrightarrow> 0 < g \<Longrightarrow> i < limit"
  by (simp add: strides_filter)

text \<open>The grid of a range is the grids of its chunks, one after the other.\<close>

lemma strides_chunks:
  assumes "0 < g" "g dvd m" "0 < m"
  shows "a \<le> limit \<Longrightarrow>
    strides g limit a = concat (map (\<lambda>ws. map (\<lambda>i. ws + i) (strides g (min m (limit - ws)) 0)) (strides m limit a))"
proof (induction "limit - a" arbitrary: a rule: less_induct)
  case less
  show ?case
  proof (cases "a < limit")
    case True
    have head: "strides g (min limit (a + m)) a = map (\<lambda>i. a + i) (strides g (min m (limit - a)) 0)"
    proof -
      have "a + min m (limit - a) = min limit (a + m)" using True by auto
      then show ?thesis using strides_shift[OF assms(1), of a "min m (limit - a)"] by simp
    qed
    have rest: "strides g limit (a + m) =
        concat (map (\<lambda>ws. map (\<lambda>i. ws + i) (strides g (min m (limit - ws)) 0)) (strides m limit (a + m)))"
    proof (cases "a + m \<le> limit")
      case True
      then show ?thesis using less.hyps[of "a + m"] \<open>a < limit\<close> assms(3) by simp
    next
      case False
      then show ?thesis using assms by (simp add: strides.simps)
    qed
    have "strides m limit a = a # strides m limit (a + m)" using True assms(3) by (simp add: strides.simps[of m limit a])
    then show ?thesis using strides_append[OF assms(1,2) less.prems] head rest by simp
  next
    case False
    then show ?thesis by (simp add: strides.simps)
  qed
qed

section \<open>Scans that may be split\<close>

definition plain_scan :: "nat \<Rightarrow> nat \<Rightarrow> (bytes \<Rightarrow> bytes list) \<Rightarrow> bytes \<Rightarrow> u64 \<Rightarrow> nat \<Rightarrow> hit list" where
  "plain_scan n grid found mem base stop =
     concat (map (\<lambda>off. map (\<lambda>v. (base + of_nat off, v)) (found (piece off n mem))) (strides grid stop 0))"

lemma piece_of_chunk: "off + n \<le> m \<or> length mem \<le> ws + m \<Longrightarrow> piece off n (piece ws m mem) = piece (ws + off) n mem"
  by (auto simp: piece_def drop_take add.commute min_def)

lemma concat_map_concat: "concat (map (\<lambda>x. concat (map f (h x))) xs) = concat (map f (concat (map h xs)))"
  by (induction xs) simp_all

locale local_scan =
  fixes scan :: "bytes \<Rightarrow> u64 \<Rightarrow> nat \<Rightarrow> hit list" and n grid :: nat and found :: "bytes \<Rightarrow> bytes list"
  assumes width: "0 < n" and grid_pos: "0 < grid"
    and windows: "stop \<le> length buf \<Longrightarrow> length buf < stop + n \<Longrightarrow> scan buf base stop = plain_scan n grid found buf base stop"
begin

lemma one_chunk:
  assumes "stop \<le> length (piece ws m mem)" "length (piece ws m mem) < stop + n" "m = stop + (n - 1) \<or> length mem \<le> ws + m"
  shows "scan (piece ws m mem) (base + of_nat ws) stop =
    concat (map (\<lambda>off. map (\<lambda>v. (base + of_nat off, v)) (found (piece off n mem))) (map (\<lambda>i. ws + i) (strides grid stop 0)))"
proof -
  have "piece off n (piece ws m mem) = piece (ws + off) n mem" if "off \<in> set (strides grid stop 0)" for off
  proof (rule piece_of_chunk)
    have "off < stop" using strides_less[OF that grid_pos] .
    then show "off + n \<le> m \<or> length mem \<le> ws + m" using assms(3) by linarith
  qed
  then have "concat (map (\<lambda>off. map (\<lambda>v. (base + of_nat ws + of_nat off, v)) (found (piece off n (piece ws m mem)))) (strides grid stop 0)) =
      concat (map (\<lambda>off. map (\<lambda>v. (base + of_nat (ws + off), v)) (found (piece (ws + off) n mem))) (strides grid stop 0))"
    by (intro arg_cong[where f = concat] map_cong refl) (simp_all add: add.assoc)
  then show ?thesis using windows[OF assms(1,2)] by (simp only: plain_scan_def map_map comp_def)
qed

lemma chunks_report_all:
  assumes "0 < ownedLen" "grid dvd ownedLen"
  shows "concat (map (\<lambda>ws. scan (piece ws (min (ownedLen + (n - 1)) (length mem - ws)) mem) (base + of_nat ws)
        (min ownedLen (length mem - ws))) (strides ownedLen (length mem) 0)) = plain_scan n grid found mem base (length mem)"
    (is "concat (map ?chunk ?starts) = _")
proof -
  let ?at = "\<lambda>off. map (\<lambda>v. (base + of_nat off, v)) (found (piece off n mem))"
  have "?chunk ws = concat (map ?at (map (\<lambda>i. ws + i) (strides grid (min ownedLen (length mem - ws)) 0)))"
    if "ws \<in> set ?starts" for ws
  proof (rule one_chunk)
    have ws: "ws < length mem" using strides_less[OF that assms(1)] .
    have len: "length (piece ws (min (ownedLen + (n - 1)) (length mem - ws)) mem) = min (ownedLen + (n - 1)) (length mem - ws)"
      by (simp add: piece_def)
    show "min ownedLen (length mem - ws) \<le> length (piece ws (min (ownedLen + (n - 1)) (length mem - ws)) mem)"
      "length (piece ws (min (ownedLen + (n - 1)) (length mem - ws)) mem) < min ownedLen (length mem - ws) + n"
      unfolding len using width by auto
    show "min (ownedLen + (n - 1)) (length mem - ws) = min ownedLen (length mem - ws) + (n - 1) \<or>
        length mem \<le> ws + min (ownedLen + (n - 1)) (length mem - ws)"
      using ws by auto
  qed
  then have "concat (map ?chunk ?starts) =
      concat (map (\<lambda>ws. concat (map ?at (map (\<lambda>i. ws + i) (strides grid (min ownedLen (length mem - ws)) 0)))) ?starts)"
    by (intro arg_cong[where f = concat] map_cong) simp_all
  also have "\<dots> = concat (map ?at (strides grid (length mem) 0))"
    by (simp only: strides_chunks[OF grid_pos assms(2,1) le0, of "length mem"] concat_map_concat)
  finally show ?thesis by (simp add: plain_scan_def)
qed

end

section \<open>The scans of the program may be split\<close>

lemma loop_windows:
  assumes "0 < n" "stop \<le> length buf" "length buf < stop + n"
  shows "scan_loop_bytes n al P buf base = plain_scan n (max 1 al) (\<lambda>w. if length w = n \<and> P w then [w] else []) buf base stop"
proof -
  define g where "g = max 1 al"
  have g: "0 < g" "(if al = 0 then 1 else al) = g" by (simp_all add: g_def)
  have full: "length (piece off n buf) = n \<longleftrightarrow> off + n \<le> length buf" for off using assms(1) by (auto simp: piece_def)
  let ?in = "\<lambda>off. off + n \<le> length buf \<and> P (piece off n buf)"
  have plain: "plain_scan n g (\<lambda>w. if length w = n \<and> P w then [w] else []) buf base stop =
      map (emitAt n buf base) (filter ?in (strides g stop 0))"
  proof -
    have "concat (map (\<lambda>off. map (\<lambda>v. (base + of_nat off, v)) (if ?in off then [piece off n buf] else [])) is) =
        map (emitAt n buf base) (filter ?in is)" for "is"
      by (induction "is") (simp_all add: emitAt_def)
    then show ?thesis by (simp only: plain_scan_def full)
  qed
  show ?thesis
  proof (cases "length buf < n")
    case True
    then have "filter ?in (strides g stop 0) = []" by (simp add: filter_empty_conv)
    then show ?thesis unfolding g_def[symmetric] plain using True by (simp add: scan_loop_bytes_def)
  next
    case False
    define l where "l = length buf - n + 1"
    have l: "l \<le> stop" "off < l \<longleftrightarrow> off + n \<le> length buf" for off using False assms(3) by (auto simp: l_def)
    have "filter ?in (strides g stop 0) = filter (\<lambda>off. P (piece off n buf)) (filter (\<lambda>off. off < l) (strides g stop 0))"
      by (simp add: l(2) conj_commute)
    also have "filter (\<lambda>off. off < l) (strides g stop 0) = strides g l 0"
    proof -
      have "[0..<stop] = [0..<l] @ [l..<stop]" using l(1) upt_add_eq_append[of 0 l "stop - l"] by simp
      then show ?thesis by (auto simp: strides_0[OF g(1)] filter_empty_conv intro!: filter_cong)
    qed
    finally show ?thesis unfolding g_def[symmetric] plain
      using False by (simp add: scan_loop_bytes_def g(2) each_eq l_def)
  qed
qed

interpretation loop_scan: local_scan "\<lambda>buf base stop. scan_loop_bytes (max 1 n) al P buf base" "max 1 n" "max 1 al"
    "\<lambda>w. if length w = max 1 n \<and> P w then [w] else []" for n al P
proof
  show "0 < max 1 n" "0 < max 1 al" by simp_all
  show "scan_loop_bytes (max 1 n) al P buf base =
      plain_scan (max 1 n) (max 1 al) (\<lambda>w. if length w = max 1 n \<and> P w then [w] else []) buf base stop"
    if "stop \<le> length buf" "length buf < stop + max 1 n" for stop buf base
    by (rule loop_windows) (use that in simp_all)
qed

text \<open>The all-types scan reports the window once for every number type that matches.\<close>

definition all_found :: "u64 \<Rightarrow> fp \<Rightarrow> ScanCompare \<Rightarrow> bytes \<Rightarrow> bytes list" where
  "all_found intVal floatVal cmp w = map (\<lambda>m. window8 w 0) (filter (\<lambda>m. m) (all_matches w intVal floatVal cmp 0))"

lemma front_vals:
  assumes "k \<le> 8"
  shows "it_size T = k \<Longrightarrow> int_val T (take 8 bs) = int_val T bs"
    "k = 4 \<Longrightarrow> ft_val float_t (take 8 bs) = ft_val float_t bs" "k = 8 \<Longrightarrow> ft_val double_t (take 8 bs) = ft_val double_t bs"
  using assms by (simp_all add: int_val_def float_t_def double_t_def)

lemma all_matches_window:
  assumes "off < length buf"
  shows "all_matches (piece off 8 buf) intVal floatVal cmp 0 = all_matches buf intVal floatVal cmp off"
    "window8 (piece off 8 buf) 0 = window8 buf off"
proof -
  have fits: "0 + k \<le> length (piece off 8 buf) \<longleftrightarrow> off + k \<le> length buf" if "k \<le> 8" for k
    using that assms by (auto simp: piece_def)
  have sizes: "it_size int8_t = 1" "it_size int16_t = 2" "it_size int32_t = 4" "it_size int64_t = 8"
    by (simp_all add: int8_t_def int16_t_def int32_t_def int64_t_def)
  have ints: "int_val T (take 8 (drop off buf)) = int_val T (drop off buf)" if "T \<in> {int8_t, int16_t, int32_t, int64_t}" for T
    using that sizes front_vals(1)[of "it_size T" T] by auto
  show "all_matches (piece off 8 buf) intVal floatVal cmp 0 = all_matches buf intVal floatVal cmp off"
    unfolding all_matches_def Let_def sizes
    using fits[of 1] fits[of 2] fits[of 4] fits[of 8] ints
      front_vals(2)[of 4 "drop off buf"] front_vals(3)[of 8 "drop off buf"]
    by (simp add: piece_def)
  show "window8 (piece off 8 buf) 0 = window8 buf off"
    using assms by (simp add: window8_def piece_def Let_def min_def)
qed

text \<open>Zeros that match nothing still match nothing when there are fewer of them.\<close>

lemma all_found_zeros:
  assumes "all_found intVal floatVal cmp (replicate 8 0) = []" "k \<le> 8"
  shows "all_found intVal floatVal cmp (replicate k 0) = []"
proof -
  have sizes: "it_size int8_t = 1" "it_size int16_t = 2" "it_size int32_t = 4" "it_size int64_t = 8"
    by (simp_all add: int8_t_def int16_t_def int32_t_def int64_t_def)
  have ints: "int_val T (replicate k 0) = int_val T (replicate 8 0)" if "it_size T \<le> k" for T
    using that assms(2) by (simp add: int_val_def min_def)
  have fps: "4 \<le> k \<Longrightarrow> ft_val float_t (replicate k 0) = ft_val float_t (replicate 8 0)"
    "8 \<le> k \<Longrightarrow> ft_val double_t (replicate k 0) = ft_val double_t (replicate 8 0)"
    using assms(2) by (simp_all add: float_t_def double_t_def min_def)
  from assms(1) show ?thesis
    unfolding all_found_def all_matches_def Let_def
    using ints[of int8_t] ints[of int16_t] ints[of int32_t] ints[of int64_t] fps assms(2)
    by (auto simp: sizes split: if_splits)
qed

interpretation all_types_scan: local_scan "\<lambda>buf base stop. scanBufferAllTypes buf base al intVal floatVal cmp stop" 8 "max 1 al"
    "all_found intVal floatVal cmp" for al intVal floatVal cmp
proof
  show "0 < (8 :: nat)" "0 < max 1 al" by simp_all
  fix stop :: nat and buf :: bytes and base :: u64
  assume "stop \<le> length buf"
  then have "off < length buf" if "off \<in> set (strides (max 1 al) stop 0)" for off
    using strides_less[OF that zero_less_one[THEN less_le_trans, OF max.cobounded1]] by simp
  then show "scanBufferAllTypes buf base al intVal floatVal cmp stop = plain_scan 8 (max 1 al) (all_found intVal floatVal cmp) buf base stop"
    using \<open>stop \<le> length buf\<close>
    by (simp add: scanBufferAllTypes_def plain_scan_def all_found_def all_matches_window min_absorb1 comp_def
        cong: map_cong)
qed

end
