(* ===== verification/Scan_Values.thy ===== *)
theory Scan_Values
  imports Scan_Chunks
begin

text \<open>
  The scan of a buffer for a configuration: the lambda \<^verbatim>\<open>scanRegion\<close> of \<^verbatim>\<open>firstScan\<close>, which dispatches on
  the value type.  \<open>value_matches\<close> says, type by type, when the bytes of one window are a match; the
  lemmas show that every scan reports the matching windows of its grid and so may be split into
  chunks.
\<close>

section \<open>Surroundings\<close>

text \<open>
  \<open>se_formula formula current old hasOld\<close> is the outcome of the Lua predicate: \<open>None\<close> for an error
  or a result that is neither a boolean nor a number.
\<close>

record scan_env =
  se_mode :: SimdMode
  se_pow10 :: "int \<Rightarrow> fp"
  se_conv :: "string \<Rightarrow> string \<Rightarrow> string + bytes"
  se_formula :: "string \<Rightarrow> bytes \<Rightarrow> bytes \<Rightarrow> bool \<Rightarrow> bool option"
  se_l2cache :: int
  se_pageSize :: int
  se_chunkKb :: "string option"
  se_pagemap :: "string option"

definition custom_eval :: "scan_env \<Rightarrow> ScanConfig \<Rightarrow> bytes \<Rightarrow> bytes \<Rightarrow> bool \<Rightarrow> bool" where
  "custom_eval env cfg cur old hasOld =
     (cf_formula cfg \<noteq> [] \<and> se_formula env (cf_formula cfg) cur old hasOld = Some True)"

section \<open>The dispatch on the value type\<close>

text \<open>
  \<^verbatim>\<open>valueSizeForConfig\<close> has raised the exception of an encoding error before a buffer is scanned, so
  the empty result of that case is never used.
\<close>

definition scanCustom :: "scan_env \<Rightarrow> ScanConfig \<Rightarrow> bytes \<Rightarrow> u64 \<Rightarrow> hit list" where
  "scanCustom env cfg buf base =
     (let customSize = max 1 (cf_customSize cfg) in
      if length buf < customSize then []
      else each (\<lambda>off. cf_cmp cfg = Unknown \<or>
                 custom_eval env cfg (piece off customSize buf) (piece off customSize buf) False)
             (emitAt customSize buf base)
             (strides (max 1 (cf_alignment cfg)) (length buf - customSize + 1) 0))"

definition scanRegion :: "scan_env \<Rightarrow> ScanConfig \<Rightarrow> bytes \<Rightarrow> u64 \<Rightarrow> nat \<Rightarrow> hit list" where
  "scanRegion env cfg buf base emitLimit =
     (let mode = se_mode env; al = cf_alignment cfg; cmp = cf_cmp cfg;
          ints = (\<lambda>T. scanIntegerFast mode T buf base al (cf_int cfg) (cf_int2 cfg) cmp)
      in case cf_type cfg of
           VByte \<Rightarrow> ints uint8_t
         | VInt16 \<Rightarrow> ints int16_t
         | VInt32 \<Rightarrow> ints int32_t
         | VInt64 \<Rightarrow> ints int64_t
         | VPointer \<Rightarrow> ints uintptr_t
         | VFloat \<Rightarrow> scanFloating mode (se_pow10 env) float_t buf base al cfg
         | VDouble \<Rightarrow> scanFloating mode (se_pow10 env) double_t buf base al cfg
         | VString \<Rightarrow>
             (case encodeStringBytes (se_conv env) (cf_string cfg) (cf_encoding cfg) of
                Inl e \<Rightarrow> []
              | Inr needle \<Rightarrow> scanBufferString mode buf base needle (\<not> cf_caseSensitive cfg))
         | VUnicodeString \<Rightarrow> scanBufferUnicode buf base (cf_string cfg) (\<not> cf_caseSensitive cfg)
         | VByteArray \<Rightarrow> scanBufferAOB mode buf base (cf_bytes cfg) (cf_byteArrayMask cfg)
         | VBinary \<Rightarrow> scanBufferBinary buf base (cf_bytes cfg) (cf_byteMask cfg) al
         | VAll \<Rightarrow> scanBufferAllTypes buf base al (cf_int cfg) (cf_float cfg) cmp emitLimit
         | VGrouped \<Rightarrow>
             if cmp = Unknown then scanBufferUnknown buf base al (groupedValueSize cfg)
             else scanBufferGrouped (se_pow10 env) buf base al cfg
         | VCustom \<Rightarrow> scanCustom env cfg buf base)"

section \<open>What a match is\<close>

definition scan_grid :: "ScanConfig \<Rightarrow> nat" where
  "scan_grid cfg = (case cf_type cfg of
       VString \<Rightarrow> 1 | VByteArray \<Rightarrow> 1 | VUnicodeString \<Rightarrow> 2 | _ \<Rightarrow> max 1 (cf_alignment cfg))"

definition text_matches :: "bool \<Rightarrow> bytes \<Rightarrow> bytes \<Rightarrow> bool" where
  "text_matches caseSensitive needle w = (needle \<noteq> [] \<and>
     (if caseSensitive then w = needle else map lower_byte w = map lower_byte needle))"

definition utf16_matches :: "bool \<Rightarrow> bytes \<Rightarrow> bytes \<Rightarrow> bool" where
  "utf16_matches caseSensitive needle w = (needle \<noteq> [] \<and>
     (if caseSensitive then w = needle
      else list_all (\<lambda>i. lower_byte (w ! i) = lower_byte (needle ! i) \<and> w ! (i + 1) = needle ! (i + 1))
             (strides 2 (length needle - 1) 0)))"

definition bytes_match :: "bytes \<Rightarrow> bytes \<Rightarrow> bytes \<Rightarrow> bool" where
  "bytes_match pattern msk w = (pattern \<noteq> [] \<and> length msk = length pattern \<and> masked_eq w pattern msk)"

definition value_matches :: "scan_env \<Rightarrow> ScanConfig \<Rightarrow> bytes \<Rightarrow> bool" where
  "value_matches env cfg w =
     (let cmp = cf_cmp cfg;
          ints = (\<lambda>T. getCompare cmp int_ops (int_val T w) (int_of T (cf_int cfg)) (int_of T (cf_int2 cfg)));
          fps = (\<lambda>F. compareFloating (se_pow10 env) cfg (ft_val F w)
                   (fp_cast (ft_format F) (cf_float cfg)) (fp_cast (ft_format F) (cf_float2 cfg)))
      in case cf_type cfg of
           VByte \<Rightarrow> ints uint8_t
         | VInt16 \<Rightarrow> ints int16_t
         | VInt32 \<Rightarrow> ints int32_t
         | VInt64 \<Rightarrow> ints int64_t
         | VPointer \<Rightarrow> ints uintptr_t
         | VFloat \<Rightarrow> fps float_t
         | VDouble \<Rightarrow> fps double_t
         | VString \<Rightarrow>
             (case encodeStringBytes (se_conv env) (cf_string cfg) (cf_encoding cfg) of
                Inl e \<Rightarrow> False
              | Inr needle \<Rightarrow> text_matches (cf_caseSensitive cfg) needle w)
         | VUnicodeString \<Rightarrow> utf16_matches (cf_caseSensitive cfg) (utf16LeBytes (cf_string cfg)) w
         | VByteArray \<Rightarrow> bytes_match (cf_bytes cfg) (cf_byteArrayMask cfg) w
         | VBinary \<Rightarrow> bytes_match (cf_bytes cfg) (cf_byteMask cfg) w
         | VAll \<Rightarrow> False
         | VGrouped \<Rightarrow> groupedValueSize cfg \<noteq> 0 \<and>
             (cmp = Unknown \<or> (cf_terms cfg \<noteq> [] \<and> groupedBlockMatches (se_pow10 env) w (groupedValueSize cfg) cfg))
         | VCustom \<Rightarrow> cmp = Unknown \<or> custom_eval env cfg w w False)"

text \<open>The records reported for the \<open>n\<close> bytes \<open>w\<close> at an offset of the grid.\<close>

definition found_at :: "scan_env \<Rightarrow> ScanConfig \<Rightarrow> nat \<Rightarrow> bytes \<Rightarrow> bytes list" where
  "found_at env cfg n w =
     (if cf_type cfg = VAll then all_found (cf_int cfg) (cf_float cfg) (cf_cmp cfg) w
      else if length w = n \<and> value_matches env cfg w then [w] else [])"

section \<open>Every scan is the loop over its grid\<close>

lemma loop_cong:
  assumes "\<And>off. off + n \<le> length buf \<Longrightarrow> P (piece off n buf) = Q (piece off n buf)"
  shows "scan_loop_bytes n al P buf base = scan_loop_bytes n al Q buf base"
  unfolding scan_loop_bytes_filter using assms by (auto intro!: arg_cong[where f = "map _"] filter_cong)

lemma loop_never: "(\<And>w. \<not> P w) \<Longrightarrow> scan_loop_bytes n al P buf base = []"
  by (simp add: scan_loop_bytes_filter)

text \<open>A loop whose test looks at the buffer from the offset on is the loop over windows.\<close>

lemma each_windows:
  assumes "n \<le> length buf" "\<And>off. off + n \<le> length buf \<Longrightarrow> R off = P (piece off n buf)"
  shows "each R (emitAt n buf base) (strides (max 1 al) (length buf - n + 1) 0) = scan_loop_bytes n al P buf base"
proof -
  have al: "(if al = 0 then 1 else al) = max 1 al" by simp
  have "each R (emitAt n buf base) (strides (max 1 al) (length buf - n + 1) 0) =
      each (\<lambda>off. P (piece off n buf)) (emitAt n buf base) (strides (max 1 al) (length buf - n + 1) 0)"
  proof (rule each_cong)
    fix off assume "off \<in> set (strides (max 1 al) (length buf - n + 1) 0)"
    from strides_less[OF this zero_less_one[THEN less_le_trans, OF max.cobounded1]]
    show "R off = P (piece off n buf)" using assms by simp
  qed simp
  then show ?thesis using assms(1) by (simp add: scan_loop_bytes_def al)
qed

lemma strides_1: "strides (max 1 1) m 0 = [0..<m]"
  by (simp add: strides_0)

lemma masked_window: "off + length pattern \<le> length buf \<Longrightarrow>
    masked_eq (drop off buf) pattern msk = masked_eq (piece off (length pattern) buf) pattern msk"
  by (simp add: masked_eq_nth piece_def)

lemma scanBufferString_loop:
  "scanBufferString mode buf base needle (\<not> cs) =
     scan_loop_bytes (max 1 (length needle)) 1 (text_matches cs needle) buf base"
proof (cases "needle = [] \<or> length buf < length needle")
  case True
  then show ?thesis
    by (auto simp: scanBufferString_def scan_loop_bytes_def text_matches_def each_eq filter_empty_conv Let_def)
next
  case False
  let ?n = "length needle"
  have n: "max 1 ?n = ?n" "?n \<le> length buf" using False by (cases needle; simp)+
  show ?thesis
  proof (cases cs)
    case True
    have "scanBufferString mode buf base needle False =
        each (\<lambda>off. piece off ?n buf = needle) (emitAt ?n buf base) (strides (max 1 1) (length buf - ?n + 1) 0)"
      unfolding strides_1 each_eq using False by (intro string_scan_filter) auto
    also have "\<dots> = scan_loop_bytes ?n 1 (text_matches cs needle) buf base"
      using False True n by (intro each_windows) (auto simp: text_matches_def)
    finally show ?thesis unfolding n(1) using True by simp
  next
    case ci: False
    have "list_all (\<lambda>i. lower_byte (buf ! (off + i)) = lower_byte (needle ! i)) [0..<?n] =
        text_matches cs needle (piece off ?n buf)" if "off + ?n \<le> length buf" for off
    proof -
      have len: "length (piece off ?n buf) = ?n" using that by (simp add: piece_def)
      have "(map lower_byte (piece off ?n buf) = map lower_byte needle) =
          (\<forall>i < ?n. lower_byte (piece off ?n buf ! i) = lower_byte (needle ! i))"
        unfolding list_eq_iff_nth_eq length_map len using len by (auto simp del: length_piece)
      also have "\<dots> = (\<forall>i < ?n. lower_byte (buf ! (off + i)) = lower_byte (needle ! i))"
        using that by (simp add: piece_def)
      finally show ?thesis using False ci by (simp only: text_matches_def list_all_iff) auto
    qed
    from each_windows[where P = "text_matches cs needle" and base = base and al = 1, OF n(2) this] show ?thesis
      unfolding strides_1 n(1) using False ci by (simp add: scanBufferString_def Let_def)
  qed
qed

lemma scanBufferUnicode_loop:
  "scanBufferUnicode buf base needle (\<not> cs) =
     scan_loop_bytes (max 2 (length (utf16LeBytes needle))) 2 (utf16_matches cs (utf16LeBytes needle)) buf base"
proof (cases "utf16LeBytes needle = [] \<or> length buf < length (utf16LeBytes needle)")
  case True
  then show ?thesis
    by (auto simp: scanBufferUnicode_def scan_loop_bytes_def utf16_matches_def each_eq filter_empty_conv Let_def)
next
  case False
  let ?w = "utf16LeBytes needle"
  have "needle \<noteq> []" using False by (auto simp: utf16LeBytes_def)
  then have n: "max 2 (length ?w) = length ?w" "length ?w \<le> length buf"
    using False by (cases needle; simp add: utf16LeBytes_def)+
  have m: "max 1 2 = (2 :: nat)" and c: "(length ?w = 0 \<or> length buf < length ?w) = False" using False by auto
  have "(if \<not> \<not> cs then piece off (length ?w) buf = ?w
      else list_all (\<lambda>i. lower_byte (buf ! (off + i)) = lower_byte (?w ! i) \<and> buf ! (off + i + 1) = ?w ! (i + 1))
        (strides 2 (length ?w - 1) 0)) = utf16_matches cs ?w (piece off (length ?w) buf)"
    if "off + length ?w \<le> length buf" for off
  proof (cases cs)
    case True
    then show ?thesis using False by (simp add: utf16_matches_def)
  next
    case ci: False
    have eq: "piece off (length ?w) buf ! i = buf ! (off + i)" "piece off (length ?w) buf ! (i + 1) = buf ! (off + i + 1)"
      if "i \<in> set (strides 2 (length ?w - 1) 0)" for i
      using strides_less[OF that] that \<open>off + length ?w \<le> length buf\<close> by (simp_all add: piece_def)
    have "(\<forall>i \<in> set (strides 2 (length ?w - 1) 0). lower_byte (buf ! (off + i)) = lower_byte (?w ! i) \<and> buf ! (off + i + 1) = ?w ! (i + 1)) =
        (\<forall>i \<in> set (strides 2 (length ?w - 1) 0). lower_byte (piece off (length ?w) buf ! i) = lower_byte (?w ! i) \<and>
          piece off (length ?w) buf ! (i + 1) = ?w ! (i + 1))"
      by (intro ball_cong refl) (simp only: eq)
    then show ?thesis
      using False ci by (simp only: utf16_matches_def list_all_iff) simp
  qed
  from each_windows[where P = "utf16_matches cs ?w" and base = base and al = 2, OF n(2) this] show ?thesis
    unfolding n(1) m scanBufferUnicode_def Let_def c if_False .
qed

lemma bytes_match_loop:
  assumes "pattern \<noteq> []" "length msk = length pattern" "length pattern \<le> length buf"
  shows "each (\<lambda>off. masked_eq (drop off buf) pattern msk) (emitAt (length pattern) buf base)
      (strides (max 1 al) (length buf - length pattern + 1) 0) =
    scan_loop_bytes (length pattern) al (bytes_match pattern msk) buf base"
  using assms by (intro each_windows) (auto simp: bytes_match_def masked_window)

lemma scanBufferAOB_loop:
  "scanBufferAOB mode buf base pattern msk =
     scan_loop_bytes (max 1 (length pattern)) 1 (bytes_match pattern msk) buf base"
proof (cases "pattern = [] \<or> length msk \<noteq> length pattern \<or> length buf < length pattern")
  case True
  then show ?thesis
    by (auto simp: scanBufferAOB_def scan_loop_bytes_def bytes_match_def each_eq filter_empty_conv Let_def)
next
  case False
  then have n: "max 1 (length pattern) = length pattern" by (cases pattern) simp_all
  have "masked_eq (drop off buf) pattern msk =
      list_all (\<lambda>j. buf ! (off + j) AND msk ! j = pattern ! j AND msk ! j) [0..<length pattern]"
    if "off \<in> set [0..<length buf - length pattern + 1]" for off
    using that False by (auto simp: masked_eq_nth list_all_iff)
  then have "scanBufferAOB mode buf base pattern msk =
      each (\<lambda>off. masked_eq (drop off buf) pattern msk) (emitAt (length pattern) buf base) [0..<length buf - length pattern + 1]"
    unfolding each_eq using False
    by (subst aob_scan_filter) (auto intro!: arg_cong[where f = "map _"] filter_cong)
  then show ?thesis
    using False bytes_match_loop[of pattern msk buf base 1] by (simp only: n strides_1) auto
qed

lemma scanBufferBinary_loop:
  "scanBufferBinary buf base pattern msk al =
     scan_loop_bytes (max 1 (length pattern)) al (bytes_match pattern msk) buf base"
proof (cases "pattern = [] \<or> length msk \<noteq> length pattern \<or> length buf < length pattern")
  case True
  then show ?thesis
    by (auto simp: scanBufferBinary_def scan_loop_bytes_def bytes_match_def each_eq filter_empty_conv Let_def)
next
  case False
  then have n: "max 1 (length pattern) = length pattern" by (cases pattern) simp_all
  have "(if al = 0 then 1 else al) = max 1 al" by simp
  then show ?thesis
    using False bytes_match_loop[of pattern msk buf base al] unfolding n by (auto simp: scanBufferBinary_def Let_def)
qed

text \<open>A group looks at no byte past its block.\<close>

lemma grouped_size_covers:
  "grouped_size ts b \<noteq> 0 \<Longrightarrow> b \<le> grouped_size ts b \<and>
    (\<forall>t \<in> set ts. groupedTermValueSize t \<noteq> 0 \<longrightarrow> gt_offset t + groupedTermValueSize t \<le> grouped_size ts b)"
proof (induction ts b rule: grouped_size.induct)
  case (2 t ts b)
  let ?n = "groupedTermValueSize t"
  show ?case
  proof (cases "?n = 0")
    case True
    then show ?thesis using 2 by simp
  next
    case False
    then have "\<not> size_max - ?n < gt_offset t" using 2(3) by (auto simp: Let_def split: if_splits)
    then have e: "grouped_size (t # ts) b = grouped_size ts (max b (gt_offset t + ?n))" using False by (simp add: Let_def)
    have "grouped_size ts (max b (gt_offset t + ?n)) \<noteq> 0" using 2(3) e by simp
    from 2(2)[OF refl False \<open>\<not> size_max - ?n < gt_offset t\<close> this] show ?thesis unfolding e by auto
  qed
qed simp

lemma compareMaskedBytes_take: "length pattern \<le> m \<Longrightarrow> compareMaskedBytes (take m val) pattern msk = compareMaskedBytes val pattern msk"
  by (simp add: compareMaskedBytes_def list_all_iff Let_def)

lemma masked_eq_take: "length pattern \<le> m \<Longrightarrow> masked_eq (take m val) pattern msk = masked_eq val pattern msk"
  by (simp add: masked_eq_nth)

lemma int_val_take: "it_size T \<le> m \<Longrightarrow> int_val T (take m bs) = int_val T bs"
  by (simp add: int_val_def min_absorb1)

lemmas int_type_defs = uint8_t_def int8_t_def int16_t_def int32_t_def int64_t_def uintptr_t_def

lemma groupedTermMatches_take:
  assumes "groupedTermValueSize t \<le> m"
  shows "groupedTermMatches pow10 (take m val) t cfg = groupedTermMatches pow10 val t cfg"
proof -
  have ints: "it_size T \<le> m \<Longrightarrow> int_val T (take m val) = int_val T val" for T by (rule int_val_take)
  have fps: "4 \<le> m \<Longrightarrow> ft_val float_t (take m val) = ft_val float_t val"
    "8 \<le> m \<Longrightarrow> ft_val double_t (take m val) = ft_val double_t val"
    by (simp_all add: float_t_def double_t_def min_absorb1)
  show ?thesis
    using assms ints[of uint8_t] ints[of int16_t] ints[of int32_t] ints[of int64_t] ints[of uintptr_t] fps
    unfolding groupedTermMatches_def groupedTermValueSize_def
    by (cases "gt_type t")
      (simp_all add: int_type_defs utf16LeBytes_def length_concat comp_def sum_list_triv Let_def min_absorb1
        compareMaskedBytes_take masked_eq_take)
qed

lemma grouped_window:
  assumes "groupedValueSize cfg \<noteq> 0"
  shows "groupedBlockMatches pow10 (piece off (groupedValueSize cfg) buf) (groupedValueSize cfg) cfg =
    groupedBlockMatches pow10 (drop off buf) (groupedValueSize cfg) cfg"
proof -
  let ?n = "groupedValueSize cfg"
  have fits: "gt_offset t + groupedTermValueSize t \<le> ?n"
    if "t \<in> set (cf_terms cfg)" "groupedTermValueSize t \<noteq> 0" for t
    using that assms grouped_size_covers[of "cf_terms cfg" 0] by (simp add: groupedValueSize_def)
  have "groupedTermMatches pow10 (drop (gt_offset t) (piece off ?n buf)) t cfg =
      groupedTermMatches pow10 (drop (gt_offset t) (drop off buf)) t cfg"
    if "t \<in> set (cf_terms cfg)" "groupedTermValueSize t \<noteq> 0" for t
  proof -
    have "drop (gt_offset t) (piece off ?n buf) = take (?n - gt_offset t) (drop (gt_offset t) (drop off buf))"
      by (simp only: piece_def drop_take)
    moreover have "groupedTermValueSize t \<le> ?n - gt_offset t" using fits[OF that] by simp
    ultimately show ?thesis by (simp only: groupedTermMatches_take)
  qed
  then show ?thesis by (auto simp: groupedBlockMatches_def list_all_iff Let_def)
qed

lemma scan_grouped_loop:
  "(if cf_cmp cfg = Unknown then scanBufferUnknown buf base al (groupedValueSize cfg)
    else scanBufferGrouped pow10 buf base al cfg) =
   scan_loop_bytes (max 1 (groupedValueSize cfg)) al (\<lambda>w. groupedValueSize cfg \<noteq> 0 \<and>
     (cf_cmp cfg = Unknown \<or> (cf_terms cfg \<noteq> [] \<and> groupedBlockMatches pow10 w (groupedValueSize cfg) cfg))) buf base"
    (is "_ = scan_loop_bytes _ _ ?P _ _")
proof -
  let ?n = "groupedValueSize cfg"
  have al: "(if al = 0 then 1 else al) = max 1 al" by simp
  show ?thesis
  proof (cases "?n = 0 \<or> length buf < ?n")
    case True
    then show ?thesis
      by (auto simp: scanBufferUnknown_def scanBufferGrouped_def scan_loop_bytes_def each_eq filter_empty_conv Let_def)
  next
    case False
    then have n: "max 1 ?n = ?n" "?n \<le> length buf" by auto
    have all: "map f is = each (\<lambda>_. True) f is" for f :: "nat \<Rightarrow> hit" and "is" by (simp add: each_eq)
    show ?thesis
    proof (cases "cf_cmp cfg = Unknown")
      case True
      then show ?thesis
        using False each_windows[where P = ?P and R = "\<lambda>_. True" and base = base and al = al, OF n(2)]
        unfolding n(1) scanBufferUnknown_def al Let_def all by simp
    next
      case noUnknown: False
      show ?thesis
      proof (cases "cf_terms cfg = []")
        case True
        then show ?thesis using noUnknown by (simp add: scanBufferGrouped_def loop_never)
      next
        case terms: False
        have "each (\<lambda>off. groupedBlockMatches pow10 (drop off buf) ?n cfg) (emitAt ?n buf base)
            (strides (max 1 al) (length buf - ?n + 1) 0) = scan_loop_bytes ?n al ?P buf base"
          using False noUnknown terms by (intro each_windows[OF n(2)]) (simp add: grouped_window)
        then show ?thesis
          using False noUnknown terms unfolding n(1) by (auto simp: scanBufferGrouped_def al Let_def)
      qed
    qed
  qed
qed

lemma scanCustom_loop:
  "scanCustom env cfg buf base =
     scan_loop_bytes (max 1 (cf_customSize cfg)) (cf_alignment cfg)
       (\<lambda>w. cf_cmp cfg = Unknown \<or> custom_eval env cfg w w False) buf base"
proof -
  have "(if cf_alignment cfg = 0 then 1 else cf_alignment cfg) = max 1 (cf_alignment cfg)" by simp
  then show ?thesis by (simp add: scanCustom_def scan_loop_bytes_def Let_def)
qed

section \<open>The dispatch may be split\<close>

definition floats_ok :: "scan_env \<Rightarrow> ScanConfig \<Rightarrow> bool" where
  "floats_ok env cfg \<longleftrightarrow>
     (cf_type cfg = VFloat \<longrightarrow> pow10_law (se_pow10 env) \<and> tolerance_ok cfg (fp_cast binary32 (cf_float cfg))) \<and>
     (cf_type cfg = VDouble \<longrightarrow> pow10_law (se_pow10 env) \<and> tolerance_ok cfg (fp_cast binary64 (cf_float cfg)))"

lemma scanRegion_loop:
  assumes "valueSizeForConfig (se_conv env) cfg = Inr n" "floats_ok env cfg" "cf_type cfg \<noteq> VAll"
  shows "scanRegion env cfg buf base stop =
    scan_loop_bytes n (scan_grid cfg) (value_matches env cfg) buf base"
proof -
  have grid: "scan_loop_bytes k (max 1 (cf_alignment cfg)) P buf base = scan_loop_bytes k (cf_alignment cfg) P buf base" for k P
    by (simp add: scan_loop_bytes_def max_def)
  have sizes: "it_size uint8_t = 1" "it_size int16_t = 2" "it_size int32_t = 4" "it_size int64_t = 8" "it_size uintptr_t = 8"
    "ft_size float_t = 4" "ft_size double_t = 8" "ft_format float_t = binary32" "ft_format double_t = binary64"
    by (simp_all add: int_type_defs float_t_def double_t_def)
  have utf16: "length (utf16LeBytes t) = length t * 2" for t
    by (simp add: utf16LeBytes_def length_concat comp_def sum_list_triv)
  have ints: "machine_int T" if "T \<in> {uint8_t, int16_t, int32_t, int64_t, uintptr_t}" for T
    using that by (auto simp: machine_int_def int_type_defs)
  show ?thesis
    using assms
    by (cases "cf_type cfg")
      (auto simp: scanRegion_def value_matches_def[abs_def] scan_grid_def valueSizeForConfig_def Let_def grid[simplified] ints sizes utf16
        scanIntegerFast_loop scanFloating_plain scanBufferFloating_def floats_ok_def stringValueSize_def
        scanBufferString_loop scanBufferUnicode_loop scanBufferAOB_loop scanBufferBinary_loop scan_grouped_loop scanCustom_loop
        split: sum.splits)
qed

lemma valueSize_pos: "valueSizeForConfig conv cfg = Inr n \<Longrightarrow> 0 < n"
  by (auto simp: valueSizeForConfig_def split: ValueType.splits sum.splits)

lemma scanRegion_local:
  assumes "valueSizeForConfig (se_conv env) cfg = Inr n" "floats_ok env cfg"
  shows "local_scan (scanRegion env cfg) n (scan_grid cfg) (found_at env cfg n)"
proof
  show "0 < n" using valueSize_pos[OF assms(1)] .
  show "0 < scan_grid cfg" by (simp add: scan_grid_def less_max_iff_disj split: ValueType.splits)
  fix stop :: nat and buf :: bytes and base :: u64
  assume w: "stop \<le> length buf" "length buf < stop + n"
  show "scanRegion env cfg buf base stop = plain_scan n (scan_grid cfg) (found_at env cfg n) buf base stop"
  proof (cases "cf_type cfg = VAll")
    case True
    have "n = 8" using assms(1) True by (simp add: valueSizeForConfig_def)
    moreover have "scanRegion env cfg buf base stop =
        scanBufferAllTypes buf base (cf_alignment cfg) (cf_int cfg) (cf_float cfg) (cf_cmp cfg) stop"
      using True by (simp add: scanRegion_def Let_def)
    ultimately show ?thesis
      using all_types_scan.windows w True by (simp add: scan_grid_def found_at_def[abs_def])
  next
    case False
    have "max 1 (scan_grid cfg) = scan_grid cfg" by (simp add: scan_grid_def split: ValueType.splits)
    then show ?thesis
      using loop_windows[OF \<open>0 < n\<close> w, of "scan_grid cfg"] scanRegion_loop[OF assms False] False
      by (simp add: found_at_def[abs_def])
  qed
qed

end
