(* ===== verification/Scan_Store.thy ===== *)
theory Scan_Store
  imports Scan_Buffers
begin

text \<open>
  The files that hold the results of a scan (\<^verbatim>\<open>ScanResult\<close> and \<^verbatim>\<open>ShardReader\<close> of
  \<^verbatim>\<open>src/src/scanner/memory_scanner.cpp\<close>): one 32-bit offset per match from the base of a frame, the
  value bytes, and the bytes of the first scan.  A file is named by its directory and its kind (the
  names \<^verbatim>\<open>offsets.bin\<close> and so on are fixed).  The disk has room for a number of bytes: \<^verbatim>\<open>write\<close>
  transfers what fits and fails when nothing fits; interrupted calls transfer nothing and are
  repeated by the code, so they do not show.  Opening a file for writing may be denied.
\<close>

datatype rfile = OffsetsBin | ValuesBin | FirstValuesBin | FramesBin | ShardsTxt

record disk =
  dk_files :: "string \<times> rfile \<Rightarrow> bytes option"
  dk_room :: nat
  dk_denied :: "string \<times> rfile \<Rightarrow> bool"

definition file_append :: "string \<times> rfile \<Rightarrow> bytes \<Rightarrow> disk \<Rightarrow> disk" where
  "file_append f bs d = d\<lparr>dk_files := (dk_files d)(f := Some (the (dk_files d f) @ bs)), dk_room := dk_room d - length bs\<rparr>"

text \<open>\<^verbatim>\<open>open(path, O_WRONLY | O_CREAT | O_TRUNC)\<close> and whether it gave a descriptor.\<close>

definition open_trunc :: "string \<times> rfile \<Rightarrow> disk \<Rightarrow> disk \<times> bool" where
  "open_trunc f d = (if dk_denied d f then (d, False) else (d\<lparr>dk_files := (dk_files d)(f := Some [])\<rparr>, True))"

function writeAll :: "string \<times> rfile \<Rightarrow> bytes \<Rightarrow> disk \<Rightarrow> disk \<times> bool" where
  "writeAll f data d =
     (if data = [] then (d, True)
      else let n = min (length data) (dk_room d) in
        if n = 0 then (d, False) else writeAll f (drop n data) (file_append f (take n data) d))"
  by pat_completeness auto
termination by (relation "measure (\<lambda>(f, data, d). length data)") auto

declare writeAll.simps [simp del]

text \<open>\<^verbatim>\<open>preadFull\<close>, and \<^verbatim>\<open>readFull\<close> at a file offset.\<close>

definition pread_full :: "disk \<Rightarrow> string \<times> rfile \<Rightarrow> nat \<Rightarrow> nat \<Rightarrow> bytes option" where
  "pread_full d f off n =
     (case dk_files d f of
        None \<Rightarrow> None
      | Some bs \<Rightarrow> if off + n \<le> length bs then Some (piece off n bs) else if n = 0 then Some [] else None)"

section \<open>Frames and shards\<close>

record Frame =
  fr_base :: u64
  fr_start :: nat
  fr_count :: nat

record Shard =
  sh_dir :: string
  sh_count :: nat
  sh_cum :: nat
  sh_frames :: "Frame list"

fun start_frames :: "nat \<Rightarrow> (u64 \<times> nat) list \<Rightarrow> Frame list" where
  "start_frames start [] = []"
| "start_frames start ((base, cnt) # fs) =
     \<lparr>fr_base = base, fr_start = start, fr_count = cnt\<rparr> # start_frames (start + cnt) fs"

fun raw_frames :: "bytes \<Rightarrow> nat \<Rightarrow> (u64 \<times> nat) list" where
  "raw_frames bs 0 = []"
| "raw_frames bs (Suc n) = (le_val (take 8 bs), unat (le_val (take 8 (drop 8 bs)) :: u64)) # raw_frames (drop 16 bs) n"

definition loadFrames :: "disk \<Rightarrow> string \<Rightarrow> Frame list" where
  "loadFrames d dir =
     (case dk_files d (dir, FramesBin) of
        None \<Rightarrow> []
      | Some bs \<Rightarrow> if length bs < 16 then [] else start_frames 0 (raw_frames bs (length bs div 16)))"

definition in_frame :: "nat \<Rightarrow> Frame \<Rightarrow> bool" where
  "in_frame i f = (fr_start f \<le> i \<and> i < fr_start f + fr_count f)"

definition reconstruct :: "Frame list \<Rightarrow> nat \<Rightarrow> u32 \<Rightarrow> u64" where
  "reconstruct frames i off =
     (case List.find (in_frame i) frames of Some f \<Rightarrow> fr_base f + ucast off | None \<Rightarrow> ucast off)"

section \<open>Results\<close>

record ScanResult =
  sr_dir :: string
  sr_count :: nat
  sr_valueSize :: nat
  sr_writeError :: bool
  sr_storeFirst :: bool
  sr_offsetBuf :: "u32 list"
  sr_valueBuf :: bytes
  sr_firstValueBuf :: bytes
  sr_offsetFd :: bool
  sr_valueFd :: bool
  sr_firstValueFd :: bool
  sr_frameBase :: u64
  sr_frameCount :: nat
  sr_haveFrame :: bool
  sr_frames :: "(u64 \<times> nat) list"
  sr_shards :: "Shard list"

definition blank_result :: "string \<Rightarrow> bool \<Rightarrow> ScanResult" where
  "blank_result dir storeFirst = \<lparr>sr_dir = dir, sr_count = 0, sr_valueSize = 0, sr_writeError = False,
     sr_storeFirst = storeFirst, sr_offsetBuf = [], sr_valueBuf = [], sr_firstValueBuf = [],
     sr_offsetFd = False, sr_valueFd = False, sr_firstValueFd = False, sr_frameBase = 0,
     sr_frameCount = 0, sr_haveFrame = False, sr_frames = [], sr_shards = []\<rparr>"

text \<open>The lines of a file as \<^verbatim>\<open>std::getline\<close> gives them.\<close>

definition manifest_line :: "string \<Rightarrow> (nat \<times> string) option" where
  "manifest_line line =
     (case split_first (CHR '' '') line of
        None \<Rightarrow> None
      | Some (a, sdir) \<Rightarrow> (case stoull 10 a of None \<Rightarrow> None | Some c \<Rightarrow> Some (unat c, sdir)))"

fun add_shards :: "disk \<Rightarrow> (nat \<times> string) list \<Rightarrow> nat \<Rightarrow> Shard list" where
  "add_shards d [] cum = []"
| "add_shards d ((c, dir) # rest) cum =
     \<lparr>sh_dir = dir, sh_count = c, sh_cum = cum, sh_frames = loadFrames d dir\<rparr> # add_shards d rest (cum + c)"

definition loadShards :: "disk \<Rightarrow> ScanResult \<Rightarrow> ScanResult" where
  "loadShards d r =
     (let entries = (case dk_files d (sr_dir r, ShardsTxt) of
          Some bs \<Rightarrow> List.map_filter manifest_line (getlines (CHR 0x0A) (bytes_name bs))
        | None \<Rightarrow> (case dk_files d (sr_dir r, OffsetsBin) of
              Some bs \<Rightarrow> [(length bs div 4, sr_dir r)]
            | None \<Rightarrow> []))
      in r\<lparr>sr_shards := add_shards d entries 0, sr_count := sum_list (map fst entries)\<rparr>)"

definition new_ScanResult :: "disk \<Rightarrow> string \<Rightarrow> bool \<Rightarrow> disk \<times> ScanResult" where
  "new_ScanResult d dir storeFirst =
     (let r = blank_result dir storeFirst in
      if dk_files d (dir, ShardsTxt) \<noteq> None \<or> dk_files d (dir, OffsetsBin) \<noteq> None
      then (d, loadShards d r)
      else
        let (d1, o1) = open_trunc (dir, OffsetsBin) d;
            (d2, o2) = open_trunc (dir, ValuesBin) d1;
            (d3, o3) = (if storeFirst then open_trunc (dir, FirstValuesBin) d2 else (d2, False))
        in (d3, r\<lparr>sr_offsetFd := o1, sr_valueFd := o2, sr_firstValueFd := o3\<rparr>))"

definition flush_to :: "bool \<Rightarrow> string \<times> rfile \<Rightarrow> bytes \<Rightarrow> disk \<times> bool \<Rightarrow> disk \<times> bool" where
  "flush_to fd f bs s =
     (case s of (d, err) \<Rightarrow>
        if fd then (case writeAll f bs d of (d', ok) \<Rightarrow> (d', err \<or> \<not> ok)) else (d, err))"

definition offsets_bytes :: "u32 list \<Rightarrow> bytes" where
  "offsets_bytes offs = concat (map (le_bytes 4) offs)"

definition flush :: "disk \<Rightarrow> ScanResult \<Rightarrow> disk \<times> ScanResult" where
  "flush d r =
     (if sr_offsetBuf r = [] then (d, r)
      else case flush_to (sr_firstValueFd r) (sr_dir r, FirstValuesBin) (sr_firstValueBuf r)
             (flush_to (sr_valueFd r) (sr_dir r, ValuesBin) (sr_valueBuf r)
               (flush_to (sr_offsetFd r) (sr_dir r, OffsetsBin) (offsets_bytes (sr_offsetBuf r))
                 (d, sr_writeError r))) of
          (d', err) \<Rightarrow> (d', r\<lparr>sr_writeError := err, sr_offsetBuf := [], sr_valueBuf := [], sr_firstValueBuf := []\<rparr>))"

definition open_frame :: "u64 \<Rightarrow> ScanResult \<Rightarrow> ScanResult" where
  "open_frame addr r =
     (if \<not> sr_haveFrame r \<or> addr < sr_frameBase r \<or> 2 ^ 32 \<le> addr - sr_frameBase r
      then r\<lparr>sr_frames := sr_frames r @ (if sr_haveFrame r then [(sr_frameBase r, sr_frameCount r)] else []),
             sr_frameBase := addr, sr_frameCount := 0, sr_haveFrame := True\<rparr>
      else r)"

definition addResult :: "disk \<Rightarrow> ScanResult \<Rightarrow> u64 \<Rightarrow> bytes \<Rightarrow> bytes \<Rightarrow> disk \<times> ScanResult" where
  "addResult d r addr val firstVal =
     (let r1 = open_frame addr r;
          r2 = r1\<lparr>sr_offsetBuf := sr_offsetBuf r1 @ [ucast (addr - sr_frameBase r1)],
                  sr_frameCount := sr_frameCount r1 + 1,
                  sr_valueBuf := sr_valueBuf r1 @ val,
                  sr_firstValueBuf := (if sr_storeFirst r1 then sr_firstValueBuf r1 @ firstVal else sr_firstValueBuf r1),
                  sr_valueSize := length val,
                  sr_count := sr_count r1 + 1\<rparr>
      in if 8192 \<le> length (sr_offsetBuf r2) then flush d r2 else (d, r2))"

definition frames_bytes :: "(u64 \<times> nat) list \<Rightarrow> bytes" where
  "frames_bytes fs = concat (map (\<lambda>(b, c). le_bytes 8 b @ le_bytes 8 (of_nat c :: u64)) fs)"

definition finalize :: "disk \<Rightarrow> ScanResult \<Rightarrow> disk \<times> ScanResult" where
  "finalize d r =
     (let (d1, r1) = flush d r;
          frames = sr_frames r1 @ (if sr_haveFrame r1 then [(sr_frameBase r1, sr_frameCount r1)] else []);
          (d2, err) =
            (if sr_offsetFd r1 \<and> frames \<noteq> []
             then (case open_trunc (sr_dir r1, FramesBin) d1 of (d', opened) \<Rightarrow>
                 if opened
                 then (case writeAll (sr_dir r1, FramesBin) (frames_bytes frames) d' of
                       (d'', ok) \<Rightarrow> (d'', sr_writeError r1 \<or> \<not> ok))
                 else (d', True))
             else (d1, sr_writeError r1))
      in (d2, r1\<lparr>sr_writeError := err, sr_haveFrame := False, sr_frames := frames,
                 sr_offsetFd := False, sr_valueFd := False, sr_firstValueFd := False,
                 sr_shards := [\<lparr>sh_dir = sr_dir r1, sh_count = sr_count r1, sh_cum = 0,
                                 sh_frames = start_frames 0 frames\<rparr>]\<rparr>))"

section \<open>Reading a result\<close>

definition shardAt :: "ScanResult \<Rightarrow> nat \<Rightarrow> Shard option" where
  "shardAt r i = List.find (\<lambda>s. sh_cum s \<le> i \<and> i < sh_cum s + sh_count s) (sr_shards r)"

definition result_address :: "disk \<Rightarrow> ScanResult \<Rightarrow> nat \<Rightarrow> u64" where
  "result_address d r i =
     (case shardAt r i of
        None \<Rightarrow> 0
      | Some s \<Rightarrow>
          let local = i - sh_cum s in
          (case pread_full d (sh_dir s, OffsetsBin) (local * 4) 4 of
             None \<Rightarrow> 0
           | Some bs \<Rightarrow> reconstruct (sh_frames s) local (le_val bs)))"

text \<open>\<open>buf\<close> is the caller's buffer; a file that cannot be opened leaves it as it is.\<close>

definition read_record :: "disk \<Rightarrow> string \<times> rfile \<Rightarrow> nat \<Rightarrow> nat \<Rightarrow> bytes \<Rightarrow> bytes" where
  "read_record d f k valueSize buf =
     (if dk_files d f = None then buf
      else case pread_full d f (k * valueSize) valueSize of None \<Rightarrow> replicate valueSize 0 | Some bs \<Rightarrow> bs)"

definition result_value :: "disk \<Rightarrow> ScanResult \<Rightarrow> nat \<Rightarrow> nat \<Rightarrow> bytes \<Rightarrow> bytes" where
  "result_value d r i valueSize buf =
     (case shardAt r i of
        None \<Rightarrow> buf
      | Some s \<Rightarrow> read_record d (sh_dir s, ValuesBin) (i - sh_cum s) valueSize buf)"

definition result_firstValue :: "disk \<Rightarrow> ScanResult \<Rightarrow> nat \<Rightarrow> nat \<Rightarrow> bytes \<Rightarrow> bytes" where
  "result_firstValue d r i valueSize buf =
     (case shardAt r i of
        None \<Rightarrow> buf
      | Some s \<Rightarrow>
          if dk_files d (sh_dir s, FirstValuesBin) = None then result_value d r i valueSize buf
          else read_record d (sh_dir s, FirstValuesBin) (i - sh_cum s) valueSize buf)"

definition shardLayout :: "ScanResult \<Rightarrow> (string \<times> nat) list" where
  "shardLayout r =
     (if sr_shards r \<noteq> [] then map (\<lambda>s. (sh_dir s, sh_count s)) (sr_shards r)
      else if 0 < sr_count r then [(sr_dir r, sr_count r)] else [])"

definition stride_of :: "disk \<Rightarrow> string \<Rightarrow> nat \<Rightarrow> nat" where
  "stride_of d dir cnt =
     (if cnt = 0 then 0
      else case dk_files d (dir, ValuesBin) of None \<Rightarrow> 0 | Some bs \<Rightarrow> length bs div cnt)"

fun first_stride :: "disk \<Rightarrow> Shard list \<Rightarrow> nat" where
  "first_stride d [] = 0"
| "first_stride d (s # ss) =
     (let st = stride_of d (sh_dir s) (sh_count s) in if st \<noteq> 0 then st else first_stride d ss)"

definition recordStride :: "disk \<Rightarrow> ScanResult \<Rightarrow> nat" where
  "recordStride d r =
     (if sr_shards r = [] then stride_of d (sr_dir r) (sr_count r) else first_stride d (sr_shards r))"

text \<open>Addresses of consecutive records, with the frame advanced as the index leaves it.\<close>

fun skip_frames :: "Frame list \<Rightarrow> nat \<Rightarrow> Frame list" where
  "skip_frames [] i = []"
| "skip_frames (f # fs) i = (if fr_start f + fr_count f \<le> i then skip_frames fs i else f # fs)"

definition frame_base :: "Frame list \<Rightarrow> u64" where
  "frame_base fs = (case fs of [] \<Rightarrow> 0 | f # _ \<Rightarrow> fr_base f)"

fun decode_addrs :: "Frame list \<Rightarrow> nat \<Rightarrow> u32 list \<Rightarrow> u64 list" where
  "decode_addrs fs i [] = []"
| "decode_addrs fs i (off # offs) =
     (let fs' = skip_frames fs i in (frame_base fs' + ucast off) # decode_addrs fs' (Suc i) offs)"

definition word_list :: "bytes \<Rightarrow> nat \<Rightarrow> u32 list" where
  "word_list bs n = map (\<lambda>k. le_val (piece (k * 4) 4 bs)) [0..<n]"

definition record_list :: "nat \<Rightarrow> bytes \<Rightarrow> nat \<Rightarrow> bytes list" where
  "record_list stride bs n = map (\<lambda>k. piece (k * stride) stride bs) [0..<n]"

text \<open>The batches of \<^verbatim>\<open>forEach\<close> in one shard: the calls of the callback, cut off by a short read.\<close>

function each_batch :: "disk \<Rightarrow> Shard \<Rightarrow> nat \<Rightarrow> nat \<Rightarrow> Frame list \<Rightarrow> hit list" where
  "each_batch d s valueSize i fs =
     (if i < sh_count s then
        let n = min (sh_count s - i) 4096 in
        (case (pread_full d (sh_dir s, OffsetsBin) (i * 4) (n * 4),
               pread_full d (sh_dir s, ValuesBin) (i * valueSize) (n * valueSize)) of
           (Some obs, Some vbs) \<Rightarrow>
             zip (decode_addrs fs i (word_list obs n)) (record_list valueSize vbs n) @
             each_batch d s valueSize (i + n) (skip_frames fs (i + n - 1))
         | _ \<Rightarrow> [])
      else [])"
  by pat_completeness auto
termination by (relation "measure (\<lambda>(d, s, n, i, fs). sh_count s - i)") auto

declare each_batch.simps [simp del]

definition forEach :: "disk \<Rightarrow> ScanResult \<Rightarrow> nat \<Rightarrow> hit list" where
  "forEach d r valueSize =
     concat (map (\<lambda>s. if dk_files d (sh_dir s, OffsetsBin) = None \<or> dk_files d (sh_dir s, ValuesBin) = None then []
                      else each_batch d s valueSize 0 (sh_frames s)) (sr_shards r))"

text \<open>The manifest of a sharded result.\<close>

definition shard_line :: "ScanResult \<Rightarrow> string" where
  "shard_line r = fmt_dec (sr_count r) @ CHR '' '' # sr_dir r @ [CHR 0x0A]"

fun write_manifest :: "string \<Rightarrow> ScanResult list \<Rightarrow> disk \<times> bool \<Rightarrow> disk \<times> bool" where
  "write_manifest dir [] s = s"
| "write_manifest dir (p # ps) s =
     (case s of (d, err) \<Rightarrow>
        (case writeAll (dir, ShardsTxt) (name_bytes (shard_line p)) d of
           (d', ok) \<Rightarrow> write_manifest dir ps (d', err \<or> sr_writeError p \<or> \<not> ok)))"

definition assembleShardedResult :: "disk \<Rightarrow> string \<Rightarrow> ScanResult list \<Rightarrow> disk \<times> ScanResult" where
  "assembleShardedResult d dir parts =
     (let (d1, opened) = open_trunc (dir, ShardsTxt) d;
          (d2, err) = (if opened then write_manifest dir parts (d1, False) else (d1, True));
          (d3, merged) = new_ScanResult d2 dir True
      in (d3, merged\<lparr>sr_writeError := sr_writeError merged \<or> err\<rparr>))"

section \<open>Positional reads across shards\<close>

record reader =
  rd_shards :: "Shard list"
  rd_ok :: bool

definition ShardReader :: "disk \<Rightarrow> (string \<times> nat) list \<Rightarrow> reader" where
  "ShardReader d layout = \<lparr>rd_shards = add_shards d (map (\<lambda>(dir, c). (c, dir)) layout) 0,
     rd_ok = list_all (\<lambda>(dir, c). dk_files d (dir, OffsetsBin) \<noteq> None \<and> dk_files d (dir, ValuesBin) \<noteq> None) layout\<rparr>"

definition read_span :: "disk \<Rightarrow> Shard \<Rightarrow> nat \<Rightarrow> nat \<Rightarrow> nat \<Rightarrow> (u64 \<times> bytes \<times> bytes) list option" where
  "read_span d s local n valueSize =
     (case (pread_full d (sh_dir s, OffsetsBin) (local * 4) (n * 4),
            pread_full d (sh_dir s, ValuesBin) (local * valueSize) (n * valueSize)) of
        (Some obs, Some vbs) \<Rightarrow>
          let firsts = (case pread_full d (sh_dir s, FirstValuesBin) (local * valueSize) (n * valueSize) of
              Some fbs \<Rightarrow> fbs | None \<Rightarrow> vbs)
          in Some (zip (decode_addrs (sh_frames s) local (word_list obs n))
                     (zip (record_list valueSize vbs n) (record_list valueSize firsts n)))
      | _ \<Rightarrow> None)"

function reader_read :: "disk \<Rightarrow> reader \<Rightarrow> nat \<Rightarrow> nat \<Rightarrow> nat \<Rightarrow> (u64 \<times> bytes \<times> bytes) list option" where
  "reader_read d R i n valueSize =
     (if n = 0 then Some []
      else case List.find (\<lambda>s. sh_cum s \<le> i \<and> i < sh_cum s + sh_count s) (rd_shards R) of
          None \<Rightarrow> None
        | Some s \<Rightarrow>
            let local = i - sh_cum s; m = min (sh_count s - local) n in
            (case read_span d s local m valueSize of
               None \<Rightarrow> None
             | Some recs \<Rightarrow> map_option (\<lambda>rest. recs @ rest) (reader_read d R (i + m) (n - m) valueSize)))"
  by pat_completeness auto
termination
proof (relation "measure (\<lambda>(d, R, i, n, v). n)", goal_cases)
  case (2 d R i n v s x xa)
  then have "sh_cum s \<le> i" "i < sh_cum s + sh_count s" by (auto simp: find_Some_iff)
  with 2 show ?case by simp
qed simp

declare reader_read.simps [simp del]

text \<open>The copy of a result without the removed rows.\<close>

fun prune_rows :: "disk \<Rightarrow> ScanResult \<Rightarrow> nat \<Rightarrow> bool list \<Rightarrow> nat list \<Rightarrow> bytes \<times> bytes \<Rightarrow> ScanResult \<Rightarrow> disk \<times> ScanResult" where
  "prune_rows d src n remove [] bufs out = (d, out)"
| "prune_rows d src n remove (i # is) (vbuf, fbuf) out =
     (if i < length remove \<and> remove ! i then prune_rows d src n remove is (vbuf, fbuf) out
      else
        let vbuf' = (if n = 0 then vbuf else result_value d src i n vbuf);
            fbuf' = (if n = 0 then fbuf else result_firstValue d src i n fbuf);
            (d', out') = addResult d out (result_address d src i) (take n vbuf') (take n fbuf')
        in prune_rows d' src n remove is (vbuf', fbuf') out')"

definition pruneScanResult :: "disk \<Rightarrow> string \<Rightarrow> ScanResult \<Rightarrow> nat \<Rightarrow> bool list \<Rightarrow> disk \<times> ScanResult" where
  "pruneScanResult d dir src n remove =
     (let (d1, out) = new_ScanResult d dir True;
          (d2, out') = prune_rows d1 src n remove [0..<sr_count src] (replicate (max 1 n) 0, replicate (max 1 n) 0) out
      in finalize d2 out')"

end
