(* ===== verification/Scan_Store_Facts.thy ===== *)
theory Scan_Store_Facts
  imports Scan_Store
begin

text \<open>
  What a written result reads back: when no write error was reported, the files of a finished
  result hold every record that was added, whatever the order of the addresses; a sharded result is
  the concatenation of its shards; positional and streaming reads give those records; pruning gives
  the rows that were kept.
\<close>

type_synonym record3 = "u64 \<times> bytes \<times> bytes"

abbreviation rec_addr :: "record3 \<Rightarrow> u64" where "rec_addr \<equiv> fst"
abbreviation rec_val :: "record3 \<Rightarrow> bytes" where "rec_val r \<equiv> fst (snd r)"
abbreviation rec_first :: "record3 \<Rightarrow> bytes" where "rec_first r \<equiv> snd (snd r)"

section \<open>Writing\<close>

lemma writeAll_effect:
  assumes "writeAll f data d = (d', ok)"
  shows "(\<forall>g. g \<noteq> f \<longrightarrow> dk_files d' g = dk_files d g) \<and> dk_denied d' = dk_denied d \<and>
    (ok \<longrightarrow> dk_files d f \<noteq> None \<longrightarrow> dk_files d' f = Some (the (dk_files d f) @ data))"
  using assms
proof (induction f data d arbitrary: d' ok rule: writeAll.induct)
  case (1 f data d)
  show ?case
  proof (cases "data = [] \<or> dk_room d = 0")
    case True
    then have "(d', ok) = (d, data = [])" using "1.prems" by (subst (asm) writeAll.simps) (auto simp: Let_def split: if_splits)
    then show ?thesis by auto
  next
    case False
    let ?n = "min (length data) (dk_room d)"
    have n: "data \<noteq> []" "?n \<noteq> 0" using False by simp_all
    then have "writeAll f (drop ?n data) (file_append f (take ?n data) d) = (d', ok)"
      using "1.prems" unfolding writeAll.simps[of f data d] Let_def by (simp only: if_False)
    then have "(\<forall>g. g \<noteq> f \<longrightarrow> dk_files d' g = dk_files (file_append f (take ?n data) d) g) \<and>
        dk_denied d' = dk_denied (file_append f (take ?n data) d) \<and>
        (ok \<longrightarrow> dk_files (file_append f (take ?n data) d) f \<noteq> None \<longrightarrow>
          dk_files d' f = Some (the (dk_files (file_append f (take ?n data) d) f) @ drop ?n data))"
      using "1.IH"[OF n(1) refl n(2)] by blast
    then show ?thesis by (auto simp: file_append_def)
  qed
qed

lemma writeAll_room: "length data \<le> dk_room d \<Longrightarrow> snd (writeAll f data d)"
proof (induction f data d rule: writeAll.induct)
  case (1 f data d)
  then show ?case
    by (subst writeAll.simps) (auto simp: Let_def file_append_def writeAll.simps[of _ "[]"])
qed

fun frame_addrs :: "(u64 \<times> nat) list \<Rightarrow> u32 list \<Rightarrow> u64 list" where
  "frame_addrs [] offs = []"
| "frame_addrs ((b, c) # fs) offs = map (\<lambda>off. b + ucast off) (take c offs) @ frame_addrs fs (drop c offs)"

lemma frame_addrs_append:
  "sum_list (map snd fs) = length offs \<Longrightarrow> frame_addrs (fs @ gs) (offs @ offs') = frame_addrs fs offs @ frame_addrs gs offs'"
proof (induction fs offs rule: frame_addrs.induct)
  case (2 b c fs offs)
  then have "c \<le> length offs" by simp
  moreover have "sum_list (map snd fs) = length (drop c offs)" using 2 by simp
  ultimately show ?case using "2.IH" by simp
qed simp

lemma ucast_offset: "x < 2 ^ 32 \<Longrightarrow> ucast (ucast x :: u32) = (x :: u64)"
proof -
  assume "x < 2 ^ 32"
  then have "take_bit 32 (unat x) = unat x" by (simp add: word_less_nat_alt take_bit_nat_eq_self)
  then have "unat (ucast (ucast x :: u32) :: u64) = unat x" by (simp add: unsigned_ucast_eq unsigned_take_bit_eq)
  then show ?thesis by (rule unsigned_word_eqI)
qed

definition all_frames :: "ScanResult \<Rightarrow> (u64 \<times> nat) list" where
  "all_frames r = sr_frames r @ (if sr_haveFrame r then [(sr_frameBase r, sr_frameCount r)] else [])"

text \<open>The frames and offsets of a result encode the addresses.\<close>

definition encodes :: "(u64 \<times> nat) list \<Rightarrow> u32 list \<Rightarrow> u64 list \<Rightarrow> bool" where
  "encodes fs offs addrs \<longleftrightarrow>
     frame_addrs fs offs = addrs \<and> length offs = length addrs \<and> sum_list (map snd fs) = length addrs"

lemma encodes_new: "encodes fs offs addrs \<Longrightarrow> encodes (fs @ [(a, Suc 0)]) (offs @ [0]) (addrs @ [a])"
  by (simp add: encodes_def frame_addrs_append)

lemma encodes_more:
  assumes "encodes (fs @ [(b, c)]) offs addrs" "a - b < 2 ^ 32"
  shows "encodes (fs @ [(b, Suc c)]) (offs @ [ucast (a - b)]) (addrs @ [a])"
proof -
  let ?k = "sum_list (map snd fs)"
  have len: "length offs = ?k + c" using assms(1) by (simp add: encodes_def)
  have fa: "frame_addrs (fs @ [g]) (take ?k offs @ os) = frame_addrs fs (take ?k offs) @ frame_addrs [g] os" for g os
    using len by (intro frame_addrs_append) simp
  have offs: "take ?k offs @ drop ?k offs = offs" by simp
  have "frame_addrs (fs @ [(b, Suc c)]) (offs @ [ucast (a - b)]) =
      frame_addrs fs (take ?k offs) @ frame_addrs [(b, Suc c)] (drop ?k offs @ [ucast (a - b)])"
    using fa[of "(b, Suc c)" "drop ?k offs @ [ucast (a - b)]"] by (simp only: append_assoc[symmetric] offs)
  also have "frame_addrs [(b, Suc c)] (drop ?k offs @ [ucast (a - b)]) = frame_addrs [(b, c)] (drop ?k offs) @ [a]"
    using len ucast_offset[OF assms(2)] by simp
  also have "frame_addrs fs (take ?k offs) @ frame_addrs [(b, c)] (drop ?k offs) @ [a] = addrs @ [a]"
    using fa[of "(b, c)" "drop ?k offs"] assms(1) by (simp add: encodes_def)
  finally show ?thesis using assms(1) by (simp add: encodes_def)
qed

section \<open>The invariant of a result that is being written\<close>

text \<open>Unless a write error was noted, the files together with the buffers hold the records added so far.\<close>

definition holds_file :: "disk \<Rightarrow> string \<times> rfile \<Rightarrow> bytes \<Rightarrow> bytes \<Rightarrow> bool" where
  "holds_file d f buf content \<longleftrightarrow> (\<exists>bs. dk_files d f = Some bs \<and> bs @ buf = content)"

definition store_inv :: "disk \<Rightarrow> ScanResult \<Rightarrow> record3 list \<Rightarrow> bool" where
  "store_inv d r recs \<longleftrightarrow>
     sr_count r = length recs \<and> sr_offsetFd r \<and> sr_valueFd r \<and> sr_firstValueFd r = sr_storeFirst r \<and>
     (sr_haveFrame r \<longleftrightarrow> recs \<noteq> []) \<and>
     (sr_offsetBuf r = [] \<longrightarrow> sr_valueBuf r = [] \<and> sr_firstValueBuf r = []) \<and>
     (\<not> sr_storeFirst r \<longrightarrow> sr_firstValueBuf r = [] \<and> dk_files d (sr_dir r, FirstValuesBin) = None) \<and>
     (\<not> sr_writeError r \<longrightarrow>
       (\<exists>offs. encodes (all_frames r) offs (map rec_addr recs) \<and>
          holds_file d (sr_dir r, OffsetsBin) (offsets_bytes (sr_offsetBuf r)) (offsets_bytes offs)) \<and>
       holds_file d (sr_dir r, ValuesBin) (sr_valueBuf r) (concat (map rec_val recs)) \<and>
       (sr_storeFirst r \<longrightarrow> holds_file d (sr_dir r, FirstValuesBin) (sr_firstValueBuf r) (concat (map rec_first recs))))"

lemma offsets_bytes_append [simp]: "offsets_bytes (xs @ ys) = offsets_bytes xs @ offsets_bytes ys"
  by (simp add: offsets_bytes_def)

lemma holds_file_more: "holds_file d f buf content \<Longrightarrow> holds_file d f (buf @ bs) (content @ bs)"
  by (auto simp: holds_file_def)

text \<open>Opening frames and appending to the buffers.\<close>

lemma open_frame_same [simp]:
  "sr_dir (open_frame a r) = sr_dir r" "sr_count (open_frame a r) = sr_count r"
  "sr_writeError (open_frame a r) = sr_writeError r" "sr_storeFirst (open_frame a r) = sr_storeFirst r"
  "sr_offsetBuf (open_frame a r) = sr_offsetBuf r" "sr_valueBuf (open_frame a r) = sr_valueBuf r"
  "sr_firstValueBuf (open_frame a r) = sr_firstValueBuf r" "sr_offsetFd (open_frame a r) = sr_offsetFd r"
  "sr_valueFd (open_frame a r) = sr_valueFd r" "sr_firstValueFd (open_frame a r) = sr_firstValueFd r"
  "sr_haveFrame (open_frame a r)"
  by (auto simp: open_frame_def)

lemma open_frame_encodes:
  assumes "encodes (all_frames r) offs addrs"
  shows "encodes (sr_frames (open_frame a r) @ [(sr_frameBase (open_frame a r), sr_frameCount (open_frame a r) + 1)])
    (offs @ [ucast (a - sr_frameBase (open_frame a r))]) (addrs @ [a])"
proof (cases "\<not> sr_haveFrame r \<or> a < sr_frameBase r \<or> 2 ^ 32 \<le> a - sr_frameBase r")
  case True
  then have "open_frame a r = r\<lparr>sr_frames := all_frames r, sr_frameBase := a, sr_frameCount := 0, sr_haveFrame := True\<rparr>"
    by (simp add: open_frame_def all_frames_def)
  with encodes_new[OF assms, of a] show ?thesis by simp
next
  case False
  then have "open_frame a r = r" "all_frames r = sr_frames r @ [(sr_frameBase r, sr_frameCount r)]"
    by (simp_all add: open_frame_def all_frames_def)
  moreover have "a - sr_frameBase r < 2 ^ 32" using False by (simp add: not_le)
  ultimately show ?thesis using encodes_more[of "sr_frames r"] assms by simp
qed

definition add_buffered :: "ScanResult \<Rightarrow> record3 \<Rightarrow> ScanResult" where
  "add_buffered r rec =
     (let r1 = open_frame (rec_addr rec) r in
      r1\<lparr>sr_offsetBuf := sr_offsetBuf r1 @ [ucast (rec_addr rec - sr_frameBase r1)],
         sr_frameCount := sr_frameCount r1 + 1,
         sr_valueBuf := sr_valueBuf r1 @ rec_val rec,
         sr_firstValueBuf := (if sr_storeFirst r1 then sr_firstValueBuf r1 @ rec_first rec else sr_firstValueBuf r1),
         sr_valueSize := length (rec_val rec),
         sr_count := sr_count r1 + 1\<rparr>)"

lemma addResult_buffered:
  "addResult d r (rec_addr rec) (rec_val rec) (rec_first rec) =
     (if 8192 \<le> length (sr_offsetBuf (add_buffered r rec)) then flush d (add_buffered r rec) else (d, add_buffered r rec))"
  by (simp add: addResult_def add_buffered_def Let_def)

lemma add_buffered_inv:
  assumes "store_inv d r recs"
  shows "store_inv d (add_buffered r rec) (recs @ [rec])"
proof -
  let ?r1 = "open_frame (rec_addr rec) r"
  have "\<exists>offs. encodes (all_frames (add_buffered r rec)) offs (map rec_addr (recs @ [rec])) \<and>
      holds_file d (sr_dir r, OffsetsBin) (offsets_bytes (sr_offsetBuf (add_buffered r rec))) (offsets_bytes offs)"
    if "\<not> sr_writeError r"
  proof -
    obtain offs where o: "encodes (all_frames r) offs (map rec_addr recs)"
      "holds_file d (sr_dir r, OffsetsBin) (offsets_bytes (sr_offsetBuf r)) (offsets_bytes offs)"
      using assms \<open>\<not> sr_writeError r\<close> by (auto simp: store_inv_def)
    show ?thesis
      using open_frame_encodes[OF o(1), of "rec_addr rec"] holds_file_more[OF o(2)]
      by (intro exI[of _ "offs @ [ucast (rec_addr rec - sr_frameBase ?r1)]"])
        (simp add: add_buffered_def Let_def all_frames_def)
  qed
  then show ?thesis
    using assms unfolding store_inv_def
    by (auto simp: add_buffered_def Let_def intro: holds_file_more)
qed

lemma flush_to_effect:
  assumes "flush_to fd f bs (d, err) = (d', err')" "fd" "\<not> err'"
  shows "\<not> err \<and> (\<forall>content. holds_file d f bs content \<longrightarrow> holds_file d' f [] content) \<and>
    (\<forall>g. g \<noteq> f \<longrightarrow> dk_files d' g = dk_files d g)"
  using assms writeAll_effect[of f bs d]
  by (auto simp: flush_to_def holds_file_def split: prod.splits)

lemma flush_to_other: "flush_to fd f bs (d, err) = (d', err') \<Longrightarrow>
    (\<forall>g. g \<noteq> f \<longrightarrow> dk_files d' g = dk_files d g) \<and> dk_denied d' = dk_denied d"
  using writeAll_effect[of f bs d] by (auto simp: flush_to_def split: prod.splits if_splits)

lemma holds_file_cong: "dk_files d' f = dk_files d f \<Longrightarrow> holds_file d' f buf content = holds_file d f buf content"
  by (simp add: holds_file_def)

lemma flush_inv:
  assumes "store_inv d r recs" "flush d r = (d', r')"
  shows "store_inv d' r' recs \<and> sr_offsetBuf r' = [] \<and> sr_dir r' = sr_dir r \<and> sr_storeFirst r' = sr_storeFirst r \<and>
    all_frames r' = all_frames r \<and>
    (\<forall>g. fst g \<noteq> sr_dir r \<or> snd g = FramesBin \<or> snd g = ShardsTxt \<longrightarrow> dk_files d' g = dk_files d g) \<and> dk_denied d' = dk_denied d"
proof (cases "sr_offsetBuf r = []")
  case True
  then show ?thesis using assms by (auto simp: flush_def)
next
  case False
  let ?o = "(sr_dir r, OffsetsBin)" and ?v = "(sr_dir r, ValuesBin)" and ?f = "(sr_dir r, FirstValuesBin)"
  obtain d1 e1 where s1: "flush_to (sr_offsetFd r) ?o (offsets_bytes (sr_offsetBuf r)) (d, sr_writeError r) = (d1, e1)" by fastforce
  obtain d2 e2 where s2: "flush_to (sr_valueFd r) ?v (sr_valueBuf r) (d1, e1) = (d2, e2)" by fastforce
  obtain d3 e3 where s3: "flush_to (sr_firstValueFd r) ?f (sr_firstValueBuf r) (d2, e2) = (d3, e3)" by fastforce
  have d': "d' = d3" and r': "r' = r\<lparr>sr_writeError := e3, sr_offsetBuf := [], sr_valueBuf := [], sr_firstValueBuf := []\<rparr>"
    using assms(2) False s1 s2 s3 by (auto simp: flush_def)
  note other = flush_to_other[OF s1] flush_to_other[OF s2] flush_to_other[OF s3]
  have inv: "sr_offsetFd r" "sr_valueFd r" "sr_firstValueFd r = sr_storeFirst r" using assms(1) by (auto simp: store_inv_def)
  have err: "\<not> e3 \<Longrightarrow> \<not> e2 \<and> \<not> e1 \<and> \<not> sr_writeError r"
    using flush_to_effect[OF s1 inv(1)] flush_to_effect[OF s2 inv(2)] s3 by (auto simp: flush_to_def split: prod.splits if_splits)
  have nofirst: "\<not> sr_storeFirst r \<Longrightarrow> d3 = d2" using s3 inv(3) by (simp add: flush_to_def)
  have "store_inv d3 r' recs"
  proof -
    have files: "(\<exists>offs. encodes (all_frames r) offs (map rec_addr recs) \<and> holds_file d3 ?o [] (offsets_bytes offs)) \<and>
        holds_file d3 ?v [] (concat (map rec_val recs)) \<and>
        (sr_storeFirst r \<longrightarrow> holds_file d3 ?f [] (concat (map rec_first recs)))" if "\<not> e3"
    proof -
      have e: "\<not> e2" "\<not> e1" "\<not> sr_writeError r" using err that by auto
      obtain offs where o: "encodes (all_frames r) offs (map rec_addr recs)"
        "holds_file d ?o (offsets_bytes (sr_offsetBuf r)) (offsets_bytes offs)"
        and v: "holds_file d ?v (sr_valueBuf r) (concat (map rec_val recs))"
        and f: "sr_storeFirst r \<Longrightarrow> holds_file d ?f (sr_firstValueBuf r) (concat (map rec_first recs))"
        using assms(1) e(3) by (auto simp: store_inv_def)
      have "holds_file d3 ?o [] (offsets_bytes offs)"
        using flush_to_effect[OF s1 inv(1) e(2)] o(2) other by (auto simp: holds_file_def)
      moreover have "holds_file d3 ?v [] (concat (map rec_val recs))"
        using flush_to_effect[OF s2 inv(2) e(1)] v other by (auto simp: holds_file_def)
      moreover have "holds_file d3 ?f [] (concat (map rec_first recs))" if "sr_storeFirst r"
      proof -
        have "holds_file d2 ?f (sr_firstValueBuf r) (concat (map rec_first recs))"
          using f[OF that] other by (auto simp: holds_file_def)
        then show ?thesis using flush_to_effect[OF s3 _ \<open>\<not> e3\<close>] inv(3) that by blast
      qed
      ultimately show ?thesis using o(1) by blast
    qed
    have "dk_files d3 ?f = None" if "\<not> sr_storeFirst r"
      using that nofirst other assms(1) by (auto simp: store_inv_def)
    then show ?thesis using assms(1) files unfolding store_inv_def r'
      by (auto simp: offsets_bytes_def all_frames_def)
  qed
  then show ?thesis using other unfolding d' r' by (auto simp: all_frames_def)
qed

section \<open>A finished result\<close>

primrec add_all :: "disk \<Rightarrow> ScanResult \<Rightarrow> record3 list \<Rightarrow> disk \<times> ScanResult" where
  "add_all d r [] = (d, r)"
| "add_all d r (rec # recs) =
     (case addResult d r (rec_addr rec) (rec_val rec) (rec_first rec) of (d', r') \<Rightarrow> add_all d' r' recs)"

definition write_result :: "disk \<Rightarrow> string \<Rightarrow> bool \<Rightarrow> record3 list \<Rightarrow> disk \<times> ScanResult" where
  "write_result d dir storeFirst recs =
     (case new_ScanResult d dir storeFirst of (d1, r) \<Rightarrow>
        (case add_all d1 r recs of (d2, r2) \<Rightarrow> finalize d2 r2))"

text \<open>What a shard on disk holds: its records, with values of \<open>n\<close> bytes.\<close>

definition shard_holds :: "disk \<Rightarrow> nat \<Rightarrow> Shard \<Rightarrow> record3 list \<Rightarrow> bool" where
  "shard_holds d n s recs \<longleftrightarrow>
     sh_count s = length recs \<and> (\<forall>r \<in> set recs. length (rec_val r) = n \<and> length (rec_first r) = n) \<and>
     (\<exists>fs offs. sh_frames s = start_frames 0 fs \<and> encodes fs offs (map rec_addr recs) \<and>
        dk_files d (sh_dir s, OffsetsBin) = Some (offsets_bytes offs)) \<and>
     dk_files d (sh_dir s, ValuesBin) = Some (concat (map rec_val recs)) \<and>
     (case dk_files d (sh_dir s, FirstValuesBin) of
        None \<Rightarrow> \<forall>r \<in> set recs. rec_first r = rec_val r
      | Some bs \<Rightarrow> bs = concat (map rec_first recs))"

definition untouched :: "disk \<Rightarrow> string \<Rightarrow> disk \<Rightarrow> bool" where
  "untouched d dir d' \<longleftrightarrow> (\<forall>g. fst g \<noteq> dir \<longrightarrow> dk_files d' g = dk_files d g) \<and> dk_denied d' = dk_denied d"

lemma untouched_refl [simp]: "untouched d dir d"
  by (simp add: untouched_def)

lemma untouched_trans: "untouched d dir d1 \<Longrightarrow> untouched d1 dir d2 \<Longrightarrow> untouched d dir d2"
  by (simp add: untouched_def)

lemma addResult_inv:
  assumes "store_inv d r recs" "addResult d r (rec_addr rec) (rec_val rec) (rec_first rec) = (d', r')"
  shows "store_inv d' r' (recs @ [rec]) \<and> sr_dir r' = sr_dir r \<and> sr_storeFirst r' = sr_storeFirst r \<and>
    untouched d (sr_dir r) d' \<and> dk_files d' (sr_dir r, FramesBin) = dk_files d (sr_dir r, FramesBin) \<and>
    dk_files d' (sr_dir r, ShardsTxt) = dk_files d (sr_dir r, ShardsTxt)"
proof -
  note inv = add_buffered_inv[OF assms(1), of rec]
  have dir: "sr_dir (add_buffered r rec) = sr_dir r" "sr_storeFirst (add_buffered r rec) = sr_storeFirst r"
    by (simp_all add: add_buffered_def Let_def)
  show ?thesis
  proof (cases "8192 \<le> length (sr_offsetBuf (add_buffered r rec))")
    case True
    then have "flush d (add_buffered r rec) = (d', r')" using assms(2) by (simp add: addResult_buffered)
    from flush_inv[OF inv this] show ?thesis by (auto simp: untouched_def dir)
  next
    case False
    then have "d' = d" "r' = add_buffered r rec" using assms(2) by (simp_all add: addResult_buffered)
    then show ?thesis using inv dir by simp
  qed
qed

lemma add_all_inv:
  assumes "store_inv d r recs" "add_all d r recs2 = (d', r')"
  shows "store_inv d' r' (recs @ recs2) \<and> sr_dir r' = sr_dir r \<and> sr_storeFirst r' = sr_storeFirst r \<and>
    untouched d (sr_dir r) d' \<and> dk_files d' (sr_dir r, FramesBin) = dk_files d (sr_dir r, FramesBin) \<and>
    dk_files d' (sr_dir r, ShardsTxt) = dk_files d (sr_dir r, ShardsTxt)"
  using assms
proof (induction recs2 arbitrary: d r recs)
  case (Cons rec recs2)
  obtain d1 r1 where a: "addResult d r (rec_addr rec) (rec_val rec) (rec_first rec) = (d1, r1)" by fastforce
  note inv = addResult_inv[OF Cons.prems(1) a]
  have "add_all d1 r1 recs2 = (d', r')" using Cons.prems(2) a by simp
  from Cons.IH[OF _ this, of "recs @ [rec]"] inv show ?case by (auto intro: untouched_trans)
qed simp

text \<open>
  What a result needs of its directory: no file of an earlier result in it, and data files that can be
  opened for writing.  The second is not checked by the code, whose constructor ignores a failed
  \<open>open\<close>; the frame table is opened later and its failure is reported.
\<close>

definition no_results :: "disk \<Rightarrow> string \<Rightarrow> bool" where
  "no_results d dir \<longleftrightarrow> (\<forall>k. dk_files d (dir, k) = None)"

definition data_opens :: "disk \<Rightarrow> string \<Rightarrow> bool \<Rightarrow> bool" where
  "data_opens d dir storeFirst \<longleftrightarrow> \<not> dk_denied d (dir, OffsetsBin) \<and> \<not> dk_denied d (dir, ValuesBin) \<and>
     (storeFirst \<longrightarrow> \<not> dk_denied d (dir, FirstValuesBin))"

definition fresh :: "disk \<Rightarrow> string \<Rightarrow> bool" where
  "fresh d dir \<longleftrightarrow> no_results d dir \<and> data_opens d dir True"

lemma fresh_opens: "fresh d dir \<Longrightarrow> no_results d dir \<and> data_opens d dir storeFirst"
  by (simp_all add: fresh_def data_opens_def)

lemma new_opens_inv:
  assumes "no_results d dir \<and> data_opens d dir storeFirst" "new_ScanResult d dir storeFirst = (d', r)"
  shows "store_inv d' r [] \<and> sr_dir r = dir \<and> sr_storeFirst r = storeFirst \<and> untouched d dir d' \<and>
    dk_files d' (dir, FramesBin) = None \<and> dk_files d' (dir, ShardsTxt) = None"
proof -
  have d: "dk_files d (dir, k) = None" "\<not> dk_denied d (dir, OffsetsBin)" "\<not> dk_denied d (dir, ValuesBin)"
    "storeFirst \<Longrightarrow> \<not> dk_denied d (dir, FirstValuesBin)" for k
    using assms(1) by (auto simp: no_results_def data_opens_def)
  then have "d' = d\<lparr>dk_files := (if storeFirst then (dk_files d)((dir, OffsetsBin) := Some [], (dir, ValuesBin) := Some [], (dir, FirstValuesBin) := Some [])
        else (dk_files d)((dir, OffsetsBin) := Some [], (dir, ValuesBin) := Some []))\<rparr>"
    "r = (blank_result dir storeFirst)\<lparr>sr_offsetFd := True, sr_valueFd := True, sr_firstValueFd := storeFirst\<rparr>"
    using assms(2) by (cases storeFirst; simp add: new_ScanResult_def open_trunc_def Let_def)+
  then show ?thesis
    using d by (auto simp: store_inv_def blank_result_def untouched_def all_frames_def encodes_def holds_file_def
        offsets_bytes_def intro: exI[of _ "[]"])
qed

lemmas new_inv = new_opens_inv[OF fresh_opens]

lemma finalize_holds:
  assumes "store_inv d r recs" "finalize d r = (d', r')" "\<not> sr_writeError r'"
    "\<forall>r \<in> set recs. length (rec_val r) = n \<and> length (rec_first r) = n"
    "\<not> sr_storeFirst r \<longrightarrow> (\<forall>r \<in> set recs. rec_first r = rec_val r)"
  shows "\<exists>fs. sr_shards r' = [\<lparr>sh_dir = sr_dir r, sh_count = length recs, sh_cum = 0, sh_frames = start_frames 0 fs\<rparr>] \<and>
    shard_holds d' n (hd (sr_shards r')) recs \<and> sr_count r' = length recs \<and> sr_dir r' = sr_dir r \<and> untouched d (sr_dir r) d' \<and>
    dk_files d' (sr_dir r, FramesBin) = (if fs = [] then dk_files d (sr_dir r, FramesBin) else Some (frames_bytes fs))"
proof -
  obtain d1 r1 where f: "flush d r = (d1, r1)" by fastforce
  note inv = flush_inv[OF assms(1) f]
  define fs where "fs = all_frames r1"
  have fd: "sr_offsetFd r1" "sr_count r1 = length recs" "sr_dir r1 = sr_dir r" using inv by (auto simp: store_inv_def)
  obtain d2 err where s: "(if fs \<noteq> []
      then (case open_trunc (sr_dir r1, FramesBin) d1 of (d', opened) \<Rightarrow>
          if opened
          then (case writeAll (sr_dir r1, FramesBin) (frames_bytes fs) d' of (d'', ok) \<Rightarrow> (d'', sr_writeError r1 \<or> \<not> ok))
          else (d', True))
      else (d1, sr_writeError r1)) = (d2, err)" by fastforce
  then have r': "r' = r1\<lparr>sr_writeError := err, sr_haveFrame := False, sr_frames := fs,
      sr_offsetFd := False, sr_valueFd := False, sr_firstValueFd := False,
      sr_shards := [\<lparr>sh_dir = sr_dir r1, sh_count = sr_count r1, sh_cum = 0, sh_frames = start_frames 0 fs\<rparr>]\<rparr>"
    and d': "d' = d2"
    using assms(2) f fd(1) by (simp_all add: finalize_def Let_def fs_def all_frames_def split: prod.splits if_splits)
  have "\<not> err" using assms(3) by (simp add: r')
  have eff: "\<not> sr_writeError r1 \<and> untouched d1 (sr_dir r) d2 \<and> (\<forall>k. k \<noteq> FramesBin \<longrightarrow> dk_files d2 (sr_dir r, k) = dk_files d1 (sr_dir r, k)) \<and>
      dk_files d2 (sr_dir r, FramesBin) = (if fs = [] then dk_files d1 (sr_dir r, FramesBin) else Some (frames_bytes fs))"
  proof (cases "fs = []")
    case True
    then show ?thesis using s \<open>\<not> err\<close> by auto
  next
    case False
    then have den: "\<not> dk_denied d1 (sr_dir r, FramesBin)" using s \<open>\<not> err\<close> by (auto simp: open_trunc_def fd)
    let ?d = "d1\<lparr>dk_files := (dk_files d1)((sr_dir r, FramesBin) := Some [])\<rparr>"
    obtain ok where w: "writeAll (sr_dir r, FramesBin) (frames_bytes fs) ?d = (d2, ok)" "\<not> sr_writeError r1" "ok"
      using s False den \<open>\<not> err\<close> by (auto simp: open_trunc_def fd split: prod.splits)
    then show ?thesis using writeAll_effect[OF w(1)] False by (auto simp: untouched_def)
  qed
  have i: "store_inv d1 r1 recs" "sr_offsetBuf r1 = []" using inv by blast+
  have bufs: "sr_valueBuf r1 = []" "sr_firstValueBuf r1 = []" using i by (auto simp: store_inv_def)
  obtain offs where o: "encodes fs offs (map rec_addr recs)" "dk_files d1 (sr_dir r, OffsetsBin) = Some (offsets_bytes offs)"
    using i eff fd(3) by (auto simp: store_inv_def holds_file_def fs_def offsets_bytes_def)
  have v: "dk_files d1 (sr_dir r, ValuesBin) = Some (concat (map rec_val recs))"
    using i(1) eff bufs fd(3) by (auto simp: store_inv_def holds_file_def)
  have first: "dk_files d1 (sr_dir r, FirstValuesBin) = (if sr_storeFirst r then Some (concat (map rec_first recs)) else None)"
  proof -
    have sf: "sr_storeFirst r1 = sr_storeFirst r" and err: "\<not> sr_writeError r1" using inv eff by blast+
    show ?thesis using i(1) err unfolding store_inv_def sf bufs fd(3) holds_file_def by auto
  qed
  have "untouched d (sr_dir r) d1" using inv by (auto simp: untouched_def)
  then have "untouched d (sr_dir r) d2" using eff untouched_trans by blast
  moreover have "dk_files d1 (sr_dir r, FramesBin) = dk_files d (sr_dir r, FramesBin)" using inv by auto
  moreover have "shard_holds d2 n \<lparr>sh_dir = sr_dir r, sh_count = length recs, sh_cum = 0, sh_frames = start_frames 0 fs\<rparr> recs"
    using o v first eff assms(4,5) by (auto simp: shard_holds_def)
  ultimately show ?thesis using eff fd unfolding d' r' by (intro exI[of _ fs]) auto
qed

section \<open>Reading records of one shard\<close>

lemma concat_take_drop:
  assumes "\<forall>x \<in> set xs. length x = k"
  shows "take (i * k) (concat xs) = concat (take i xs) \<and> drop (i * k) (concat xs) = concat (drop i xs)"
  using assms
proof (induction xs arbitrary: i)
  case (Cons x xs)
  then show ?case by (cases i) simp_all
qed simp

lemma concat_piece:
  assumes "\<forall>x \<in> set xs. length x = k"
  shows "piece (i * k) (n * k) (concat xs) = concat (take n (drop i xs))"
  using concat_take_drop[OF assms, of i] concat_take_drop[of "drop i xs" k n] assms
  by (simp add: piece_def) (meson in_set_dropD)

lemma length_concat_uniform: "\<forall>x \<in> set xs. length x = k \<Longrightarrow> length (concat xs) = length xs * k"
  by (induction xs) simp_all

lemma pread_uniform:
  assumes "dk_files d f = Some (concat xs)" "\<forall>x \<in> set xs. length x = k" "i + n \<le> length xs"
  shows "pread_full d f (i * k) (n * k) = Some (concat (take n (drop i xs)))"
proof -
  have "i * k + n * k \<le> length (concat xs)"
    using assms(3) mult_le_mono1[of "i + n" "length xs" k] by (simp add: length_concat_uniform[OF assms(2)] add_mult_distrib)
  then show ?thesis using assms(1) concat_piece[OF assms(2)] by (simp add: pread_full_def)
qed

lemma record_list_concat:
  assumes "\<forall>x \<in> set xs. length x = k"
  shows "record_list k (concat xs) (length xs) = xs"
proof (rule nth_equalityI)
  fix i assume "i < length (record_list k (concat xs) (length xs))"
  then have i: "i < length xs" by (simp add: record_list_def)
  have "concat (take 1 (drop i xs)) = xs ! i" using i by (simp add: take_Suc hd_drop_conv_nth)
  then show "record_list k (concat xs) (length xs) ! i = xs ! i"
    using i concat_piece[OF assms, of i 1] by (simp add: record_list_def)
qed (simp add: record_list_def)

lemma word_list_offsets: "word_list (offsets_bytes offs) (length offs) = offs"
proof (rule nth_equalityI)
  fix i assume "i < length (word_list (offsets_bytes offs) (length offs))"
  then have i: "i < length offs" by (simp add: word_list_def)
  have "concat (take 1 (drop i (map (le_bytes 4) offs))) = le_bytes 4 (offs ! i)"
    using i by (simp add: take_Suc hd_drop_conv_nth)
  then show "word_list (offsets_bytes offs) (length offs) ! i = offs ! i"
    using i concat_piece[of "map (le_bytes 4) offs" 4 i 1]
    by (simp add: word_list_def offsets_bytes_def le_val_le_bytes_full)
qed (simp add: word_list_def)

lemma skip_frames_skip: "i \<le> j \<Longrightarrow> skip_frames (skip_frames fs i) j = skip_frames fs j"
  by (induction fs) auto

lemma length_decode_addrs [simp]: "length (decode_addrs fs i offs) = length offs"
  by (induction offs arbitrary: fs i) (simp_all add: Let_def)

lemma decode_addrs_nth:
  "k < length offs \<Longrightarrow> decode_addrs fs i offs ! k = frame_base (skip_frames fs (i + k)) + ucast (offs ! k)"
proof (induction offs arbitrary: fs i k)
  case (Cons off offs)
  show ?case
  proof (cases k)
    case (Suc m)
    then have "decode_addrs fs i (off # offs) ! k = frame_base (skip_frames (skip_frames fs i) (Suc i + m)) + ucast (offs ! m)"
      using Cons.IH[of m "skip_frames fs i" "Suc i"] Cons.prems by (simp add: Let_def)
    also have "skip_frames (skip_frames fs i) (Suc i + m) = skip_frames fs (i + k)" using Suc by (simp add: skip_frames_skip)
    finally show ?thesis using Suc by simp
  qed (simp add: Let_def)
qed simp

lemma frame_of_index:
  assumes "sum_list (map snd fs) = length offs" "i < length offs"
  shows "frame_base (skip_frames (start_frames s fs) (s + i)) + ucast (offs ! i) = frame_addrs fs offs ! i \<and>
    reconstruct (start_frames s fs) (s + i) (offs ! i) = frame_addrs fs offs ! i"
  using assms
proof (induction fs offs arbitrary: s i rule: frame_addrs.induct)
  case (2 b c fs offs)
  have c: "c \<le> length offs" using "2.prems" by simp
  show ?case
  proof (cases "i < c")
    case True
    then show ?thesis using c by (simp add: frame_base_def reconstruct_def in_frame_def nth_append)
  next
    case False
    have "sum_list (map snd fs) = length (drop c offs)" "i - c < length (drop c offs)" using "2.prems" False by auto
    from "2.IH"[OF this, of "s + c"] show ?thesis
      using False c by (simp add: reconstruct_def in_frame_def nth_append)
  qed
qed simp

lemma frame_addrs_length: "sum_list (map snd fs) = length offs \<Longrightarrow> length (frame_addrs fs offs) = length offs"
  by (induction fs offs rule: frame_addrs.induct) auto

lemma decode_addrs_encodes:
  assumes "encodes fs offs addrs" "i + n \<le> length addrs" "j \<le> i"
  shows "decode_addrs (skip_frames (start_frames 0 fs) j) i (take n (drop i offs)) = take n (drop i addrs)"
proof (rule nth_equalityI)
  have len: "length offs = length addrs" "sum_list (map snd fs) = length offs" "frame_addrs fs offs = addrs"
    using assms(1) by (auto simp: encodes_def)
  then show "length (decode_addrs (skip_frames (start_frames 0 fs) j) i (take n (drop i offs))) = length (take n (drop i addrs))"
    by simp
  fix k assume "k < length (decode_addrs (skip_frames (start_frames 0 fs) j) i (take n (drop i offs)))"
  then have k: "k < n" "i + k < length offs" using assms(2) len by auto
  then show "decode_addrs (skip_frames (start_frames 0 fs) j) i (take n (drop i offs)) ! k = take n (drop i addrs) ! k"
    using frame_of_index[OF len(2) k(2), of 0] assms(2,3) len
    by (simp add: decode_addrs_nth skip_frames_skip)
qed

lemma skip_frames_0: "decode_addrs fs i offs = decode_addrs (skip_frames fs i) i offs"
  by (cases offs) (simp_all add: Let_def skip_frames_skip)

lemma decode_addrs_start:
  assumes "encodes fs offs addrs" "i + n \<le> length addrs"
  shows "decode_addrs (start_frames 0 fs) i (take n (drop i offs)) = take n (drop i addrs)"
  using decode_addrs_encodes[OF assms le_refl] skip_frames_0 by simp

lemma zip3_map: "zip (map rec_addr recs) (zip (map rec_val recs) (map rec_first recs)) = recs"
  by (induction recs) simp_all

lemma shard_reads:
  assumes "shard_holds d v s recs" "i + n \<le> length recs"
  shows "read_span d s i n v = Some (take n (drop i recs))"
    "j \<le> i \<Longrightarrow> (case (pread_full d (sh_dir s, OffsetsBin) (i * 4) (n * 4), pread_full d (sh_dir s, ValuesBin) (i * v) (n * v)) of
       (Some obs, Some vbs) \<Rightarrow>
         zip (decode_addrs (skip_frames (sh_frames s) j) i (word_list obs n)) (record_list v vbs n) =
         map (\<lambda>r. (rec_addr r, rec_val r)) (take n (drop i recs))
     | _ \<Rightarrow> False)"
proof -
  let ?rs = "take n (drop i recs)"
  obtain fs offs where f: "sh_frames s = start_frames 0 fs" "encodes fs offs (map rec_addr recs)"
    "dk_files d (sh_dir s, OffsetsBin) = Some (offsets_bytes offs)"
    and vals: "dk_files d (sh_dir s, ValuesBin) = Some (concat (map rec_val recs))"
    and len: "\<forall>r \<in> set recs. length (rec_val r) = v \<and> length (rec_first r) = v"
    and first: "case dk_files d (sh_dir s, FirstValuesBin) of None \<Rightarrow> \<forall>r \<in> set recs. rec_first r = rec_val r
        | Some bs \<Rightarrow> bs = concat (map rec_first recs)"
    using assms(1) by (auto simp: shard_holds_def)
  have lo: "length offs = length recs" using f(2) by (simp add: encodes_def)
  have n: "length ?rs = n" using assms(2) by simp
  have o: "pread_full d (sh_dir s, OffsetsBin) (i * 4) (n * 4) = Some (offsets_bytes (take n (drop i offs)))"
    using pread_uniform[of d _ "map (le_bytes 4) offs" 4 i n] f(3) lo assms(2) by (simp add: offsets_bytes_def take_map drop_map)
  have vb: "pread_full d (sh_dir s, ValuesBin) (i * v) (n * v) = Some (concat (map rec_val ?rs))"
    using pread_uniform[of d _ "map rec_val recs" v i n] vals len assms(2) by (simp add: take_map drop_map)
  have fb: "(case pread_full d (sh_dir s, FirstValuesBin) (i * v) (n * v) of Some fbs \<Rightarrow> fbs | None \<Rightarrow> concat (map rec_val ?rs)) =
      concat (map rec_first ?rs)"
  proof (cases "dk_files d (sh_dir s, FirstValuesBin)")
    case None
    then have "rec_first r = rec_val r" if "r \<in> set ?rs" for r
      using first that by (auto dest: in_set_takeD in_set_dropD)
    then have eq: "map rec_first ?rs = map rec_val ?rs" by (rule map_cong[OF refl])
    show ?thesis unfolding eq using None by (simp add: pread_full_def)
  next
    case (Some bs)
    then show ?thesis
      using pread_uniform[of d "(sh_dir s, FirstValuesBin)" "map rec_first recs" v i n] first len assms(2)
      by (simp add: take_map drop_map)
  qed
  have wl: "word_list (offsets_bytes (take n (drop i offs))) n = take n (drop i offs)"
    using word_list_offsets[of "take n (drop i offs)"] lo assms(2) by simp
  have lens: "\<forall>x \<in> set (map rec_val ?rs). length x = v" "\<forall>x \<in> set (map rec_first ?rs). length x = v"
    using len by (auto dest: in_set_takeD in_set_dropD)
  have rl: "record_list v (concat (map rec_val ?rs)) n = map rec_val ?rs"
    "record_list v (concat (map rec_first ?rs)) n = map rec_first ?rs"
    using record_list_concat[OF lens(1)] record_list_concat[OF lens(2)] n by simp_all
  have addrs: "decode_addrs (start_frames 0 fs) i (take n (drop i offs)) = map rec_addr ?rs"
    using decode_addrs_start[OF f(2), of i n] assms(2) by (simp add: take_map drop_map)
  have "read_span d s i n v = Some (zip (map rec_addr ?rs) (zip (map rec_val ?rs) (map rec_first ?rs)))"
    unfolding read_span_def o vb by (simp only: option.case prod.case Let_def fb wl rl f(1) addrs)
  then show "read_span d s i n v = Some ?rs" by (simp only: zip3_map)
  assume "j \<le> i"
  then have "decode_addrs (skip_frames (start_frames 0 fs) j) i (take n (drop i offs)) = map rec_addr ?rs"
    using decode_addrs_encodes[OF f(2), of i n j] assms(2) by (simp add: take_map drop_map)
  moreover have "zip (map rec_addr ?rs) (map rec_val ?rs) = map (\<lambda>r. (rec_addr r, rec_val r)) ?rs"
    by (simp add: zip_map_map zip_same_conv_map)
  ultimately show "(case (pread_full d (sh_dir s, OffsetsBin) (i * 4) (n * 4), pread_full d (sh_dir s, ValuesBin) (i * v) (n * v)) of
       (Some obs, Some vbs) \<Rightarrow>
         zip (decode_addrs (skip_frames (sh_frames s) j) i (word_list obs n)) (record_list v vbs n) =
         map (\<lambda>r. (rec_addr r, rec_val r)) ?rs
     | _ \<Rightarrow> False)"
    by (simp only: o vb option.case prod.case f(1) wl rl)
qed

end
