(* ===== verification/Scan_Results.thy ===== *)
theory Scan_Results
  imports Scan_Store_Facts
begin

text \<open>
  The results of a scan as lists of records: written, merged from shards, read back by index, by
  range and as a stream, and pruned.
\<close>

section \<open>Shards in a row\<close>

fun shards_hold :: "disk \<Rightarrow> nat \<Rightarrow> nat \<Rightarrow> Shard list \<Rightarrow> record3 list \<Rightarrow> bool" where
  "shards_hold d v cum [] recs = (recs = [])"
| "shards_hold d v cum (s # ss) recs =
     (sh_cum s = cum \<and> sh_count s \<le> length recs \<and> shard_holds d v s (take (sh_count s) recs) \<and>
      shards_hold d v (cum + sh_count s) ss (drop (sh_count s) recs))"

definition result_holds :: "disk \<Rightarrow> nat \<Rightarrow> ScanResult \<Rightarrow> record3 list \<Rightarrow> bool" where
  "result_holds d v r recs \<longleftrightarrow> shards_hold d v 0 (sr_shards r) recs \<and> sr_count r = length recs"

abbreviation has_index :: "nat \<Rightarrow> Shard \<Rightarrow> bool" where
  "has_index i s \<equiv> sh_cum s \<le> i \<and> i < sh_cum s + sh_count s"

lemma find_shard:
  assumes "shards_hold d v cum ss recs" "cum \<le> i" "i < cum + length recs"
  shows "\<exists>s k. List.find (has_index i) ss = Some s \<and> has_index i s \<and> sh_cum s = cum + k \<and>
    k + sh_count s \<le> length recs \<and> shard_holds d v s (take (sh_count s) (drop k recs))"
  using assms
proof (induction ss arbitrary: cum recs)
  case (Cons s ss)
  show ?case
  proof (cases "i < cum + sh_count s")
    case True
    then show ?thesis using Cons.prems by (intro exI[of _ s] exI[of _ 0]) simp
  next
    case False
    have "\<exists>s' k. List.find (has_index i) ss = Some s' \<and> has_index i s' \<and> sh_cum s' = cum + sh_count s + k \<and>
        k + sh_count s' \<le> length (drop (sh_count s) recs) \<and>
        shard_holds d v s' (take (sh_count s') (drop k (drop (sh_count s) recs)))"
      by (rule Cons.IH) (use Cons.prems False in auto)
    then obtain s' k where s': "List.find (has_index i) ss = Some s'" "has_index i s'" "sh_cum s' = cum + sh_count s + k"
      "k + sh_count s' \<le> length (drop (sh_count s) recs)"
      "shard_holds d v s' (take (sh_count s') (drop k (drop (sh_count s) recs)))" by blast
    have "\<not> has_index i s" using Cons.prems(1) False by simp
    then show ?thesis using s' Cons.prems(1)
      by (intro exI[of _ s'] exI[of _ "sh_count s + k"]) (auto simp: add.commute)
  qed
qed simp

lemma concat_take_1: "j < length xs \<Longrightarrow> concat (take 1 (drop j xs)) = xs ! j"
  by (simp add: take_Suc hd_drop_conv_nth)

lemma index_parts:
  assumes "shard_holds d v s (take (sh_count s) (drop k recs))" "sh_cum s = k" "k \<le> i" "i < k + sh_count s"
    "k + sh_count s \<le> length recs"
  shows "pread_full d (sh_dir s, OffsetsBin) ((i - k) * 4) 4 \<noteq> None \<and>
    reconstruct (sh_frames s) (i - k) (le_val (the (pread_full d (sh_dir s, OffsetsBin) ((i - k) * 4) 4))) = rec_addr (recs ! i) \<and>
    read_record d (sh_dir s, ValuesBin) (i - k) v buf = rec_val (recs ! i) \<and>
    (if dk_files d (sh_dir s, FirstValuesBin) = None then rec_first (recs ! i) = rec_val (recs ! i)
     else read_record d (sh_dir s, FirstValuesBin) (i - k) v buf = rec_first (recs ! i))"
proof -
  let ?rs = "take (sh_count s) (drop k recs)"
  have i: "i - k < length ?rs" "?rs ! (i - k) = recs ! i" using assms(3-5) by auto
  obtain fs offs where f: "sh_frames s = start_frames 0 fs" "encodes fs offs (map rec_addr ?rs)"
    "dk_files d (sh_dir s, OffsetsBin) = Some (offsets_bytes offs)"
    and vals: "dk_files d (sh_dir s, ValuesBin) = Some (concat (map rec_val ?rs))"
    and len: "\<forall>r \<in> set ?rs. length (rec_val r) = v \<and> length (rec_first r) = v"
    and first: "case dk_files d (sh_dir s, FirstValuesBin) of None \<Rightarrow> \<forall>r \<in> set ?rs. rec_first r = rec_val r
        | Some bs \<Rightarrow> bs = concat (map rec_first ?rs)"
    using assms(1) by (auto simp: shard_holds_def)
  have e: "length offs = length ?rs" "sum_list (map snd fs) = length offs" "frame_addrs fs offs = map rec_addr ?rs"
    using f(2) by (auto simp: encodes_def)
  have one: "concat (take 1 (drop (i - k) xs)) = xs ! (i - k)" if "length xs = length ?rs" for xs :: "bytes list"
    using that i(1) concat_take_1[of "i - k" xs] by simp
  have o: "pread_full d (sh_dir s, OffsetsBin) ((i - k) * 4) 4 = Some (le_bytes 4 (offs ! (i - k)))"
    using pread_uniform[of d _ "map (le_bytes 4) offs" 4 "i - k" 1] f(3) one[of "map (le_bytes 4) offs"] i(1) e(1)
    by (simp add: offsets_bytes_def)
  have off: "i - k < length offs" using i(1) e(1) by simp
  have "reconstruct (sh_frames s) (i - k) (offs ! (i - k)) = rec_addr (recs ! i)"
    using frame_of_index[OF e(2) off, of 0] e(3) i f(1) by simp
  moreover have read: "read_record d f (i - k) v buf = g (recs ! i)"
    if "dk_files d f = Some (concat (map g ?rs))" "\<forall>r \<in> set ?rs. length (g r) = v" for f g
  proof -
    have "pread_full d f ((i - k) * v) (1 * v) = Some (concat (take 1 (drop (i - k) (map g ?rs))))"
      using that i(1) by (intro pread_uniform) auto
    also have "concat (take 1 (drop (i - k) (map g ?rs))) = map g ?rs ! (i - k)" by (rule one) simp
    also have "\<dots> = g (recs ! i)" using i by simp
    finally show ?thesis using that(1) by (simp add: read_record_def)
  qed
  moreover have "rec_first (recs ! i) = rec_val (recs ! i)" if "dk_files d (sh_dir s, FirstValuesBin) = None"
    using first that i nth_mem[OF i(1)] by auto
  ultimately show ?thesis
    using o vals len first by (auto simp: le_val_le_bytes_full split: option.splits)
qed

lemma result_index:
  assumes "result_holds d v r recs" "i < length recs"
  shows "result_address d r i = rec_addr (recs ! i)" "result_value d r i v buf = rec_val (recs ! i)"
    "result_firstValue d r i v buf = rec_first (recs ! i)"
proof -
  obtain s k where s: "List.find (has_index i) (sr_shards r) = Some s" "has_index i s" "sh_cum s = k"
    "k + sh_count s \<le> length recs" "shard_holds d v s (take (sh_count s) (drop k recs))"
    using find_shard[of d v 0 "sr_shards r" recs i] assms by (auto simp: result_holds_def)
  have at: "shardAt r i = Some s" using s(1) by (simp add: shardAt_def)
  have b: "k \<le> i" "i < k + sh_count s" using s(2,3) by auto
  note p = index_parts[OF s(5,3) b s(4)]
  show "result_address d r i = rec_addr (recs ! i)" using p[of "[]"] s(3) by (auto simp: result_address_def at Let_def)
  show v: "result_value d r i v buf = rec_val (recs ! i)" for buf using p[of buf] s(3) by (simp add: result_value_def at)
  show "result_firstValue d r i v buf = rec_first (recs ! i)"
    using p[of buf] s(3) v[of buf] by (auto simp: result_firstValue_def at split: if_splits)
qed

section \<open>Writing and reading back\<close>

lemma write_opens_holds:
  assumes "no_results d dir \<and> data_opens d dir storeFirst"
    "write_result d dir storeFirst recs = (d', r')" "\<not> sr_writeError r'"
    "\<forall>r \<in> set recs. length (rec_val r) = n \<and> length (rec_first r) = n"
    "\<not> storeFirst \<longrightarrow> (\<forall>r \<in> set recs. rec_first r = rec_val r)"
  shows "\<exists>fs. sr_shards r' = [\<lparr>sh_dir = dir, sh_count = length recs, sh_cum = 0, sh_frames = start_frames 0 fs\<rparr>] \<and>
    shard_holds d' n (hd (sr_shards r')) recs \<and> sr_count r' = length recs \<and> sr_dir r' = dir \<and> untouched d dir d' \<and>
    dk_files d' (dir, FramesBin) = (if fs = [] then None else Some (frames_bytes fs))"
proof -
  obtain d1 r where n: "new_ScanResult d dir storeFirst = (d1, r)" by fastforce
  obtain d2 r2 where a: "add_all d1 r recs = (d2, r2)" by fastforce
  have f: "finalize d2 r2 = (d', r')" using assms(2) n a by (simp add: write_result_def)
  note new = new_opens_inv[OF assms(1) n]
  then have inv: "store_inv d1 r []" by blast
  note all = add_all_inv[OF inv a]
  then have i2: "store_inv d2 r2 recs" by simp
  have st: "sr_dir r2 = dir" "sr_storeFirst r2 = storeFirst" using new all by auto
  have "\<not> sr_storeFirst r2 \<longrightarrow> (\<forall>r \<in> set recs. rec_first r = rec_val r)" using assms(5) st by simp
  from finalize_holds[OF i2 f assms(3,4) this] obtain fs where
    "sr_shards r' = [\<lparr>sh_dir = dir, sh_count = length recs, sh_cum = 0, sh_frames = start_frames 0 fs\<rparr>]"
    "shard_holds d' n (hd (sr_shards r')) recs" "sr_count r' = length recs" "sr_dir r' = dir" "untouched d2 dir d'"
    "dk_files d' (dir, FramesBin) = (if fs = [] then dk_files d2 (dir, FramesBin) else Some (frames_bytes fs))"
    unfolding st by blast
  moreover have "untouched d dir d2" using new all st untouched_trans by metis
  moreover have "dk_files d2 (dir, FramesBin) = None" using new all by auto
  ultimately show ?thesis using untouched_trans by auto
qed

lemmas write_result_holds = write_opens_holds[OF fresh_opens]

lemma write_opens_result:
  assumes "no_results d dir \<and> data_opens d dir storeFirst" "write_result d dir storeFirst recs = (d', r')" "\<not> sr_writeError r'"
    "\<forall>r \<in> set recs. length (rec_val r) = n \<and> length (rec_first r) = n"
    "\<not> storeFirst \<longrightarrow> (\<forall>r \<in> set recs. rec_first r = rec_val r)"
  shows "result_holds d' n r' recs"
  using write_opens_holds[OF assms] by (auto simp: result_holds_def)

lemmas write_result_result = write_opens_result[OF fresh_opens]

text \<open>
  C5: When the directory held no earlier result, the data files of the result could be opened (\<open>data_opens\<close>:
  the code does not notice when they could not) and no write error was reported, the address, value and
  first value at every index are the ones that were added, whatever the order and the distance of the
  addresses: the 32-bit offsets and the frames lose nothing.  The values have the size they are read
  with, and a result that does not store first values gets none that differ from the values.
\<close>

theorem result_reads_back:
  assumes "no_results d dir" "data_opens d dir storeFirst"
    "write_result d dir storeFirst recs = (d', r')" "\<not> sr_writeError r'"
    "\<forall>r \<in> set recs. length (rec_val r) = n \<and> length (rec_first r) = n"
    "\<not> storeFirst \<longrightarrow> (\<forall>r \<in> set recs. rec_first r = rec_val r)" "i < length recs"
  shows "sr_count r' = length recs \<and> result_address d' r' i = rec_addr (recs ! i) \<and>
    result_value d' r' i n buf = rec_val (recs ! i) \<and> result_firstValue d' r' i n buf = rec_first (recs ! i)"
  using result_index[OF write_opens_result[OF conjI[OF assms(1,2)] assms(3-6)] assms(7)]
    write_opens_result[OF conjI[OF assms(1,2)] assms(3-6)]
  by (simp add: result_holds_def)

definition empty_disk :: "nat \<Rightarrow> disk" where
  "empty_disk room = \<lparr>dk_files = (\<lambda>_. None), dk_room = room, dk_denied = (\<lambda>_. False)\<rparr>"

definition demo_records :: "record3 list" where
  "demo_records = [(0x1000, [1, 2], [3, 4]), (0x700000001000, [5, 6], [7, 8])]"

theorem result_reads_back_witness:
  "result_address (fst (write_result (empty_disk 1000) ''r'' True demo_records))
     (snd (write_result (empty_disk 1000) ''r'' True demo_records)) 1 = 0x700000001000"
proof -
  obtain d' r' where w: "write_result (empty_disk 1000) ''r'' True demo_records = (d', r')" by fastforce
  have "no_results (empty_disk 1000) ''r''" "data_opens (empty_disk 1000) ''r'' True"
    by (simp_all add: no_results_def data_opens_def empty_disk_def)
  moreover have "\<not> sr_writeError (snd (write_result (empty_disk 1000) ''r'' True demo_records))" by code_simp
  ultimately have "result_address d' r' 1 = rec_addr (demo_records ! 1)"
    using result_reads_back[OF _ _ w, of 2 1] w by (simp add: demo_records_def)
  then show ?thesis unfolding w fst_conv snd_conv by (simp add: demo_records_def)
qed

lemma empty_disk_fresh: "fresh (empty_disk room) dir"
  by (simp add: fresh_def no_results_def data_opens_def empty_disk_def)

text \<open>
  Data files that cannot be opened are not reported: two records are added, no write error is set, the
  count is 2 and both addresses read back as 0.
\<close>

lemma unopened_files_unreported:
  "let (d, r) = write_result ((empty_disk 1000)\<lparr>dk_denied := (\<lambda>(dir, k). k = OffsetsBin \<or> k = ValuesBin)\<rparr>) ''r'' False
      demo_records
   in \<not> sr_writeError r \<and> sr_count r = 2 \<and> result_address d r 0 = 0 \<and> result_address d r 1 = 0"
  by code_simp

section \<open>Ranges and streams\<close>

lemma reader_read_slice:
  assumes "shards_hold d v 0 (rd_shards R) recs" "i + n \<le> length recs"
  shows "reader_read d R i n v = Some (take n (drop i recs))"
  using assms
proof (induction d R i n v rule: reader_read.induct)
  case (1 d R i n v)
  show ?case
  proof (cases "n = 0")
    case True
    then show ?thesis by (subst reader_read.simps) simp
  next
    case False
    obtain s k where s: "List.find (has_index i) (rd_shards R) = Some s" "has_index i s" "sh_cum s = k"
      "k + sh_count s \<le> length recs" "shard_holds d v s (take (sh_count s) (drop k recs))"
      using find_shard[OF "1.prems"(1), of i] "1.prems"(2) False by auto
    let ?m = "min (sh_count s - (i - k)) n"
    have m: "i - k + ?m \<le> length (take (sh_count s) (drop k recs))" using s(2-4) by auto
    have "read_span d s (i - k) ?m v = Some (take ?m (drop (i - k) (take (sh_count s) (drop k recs))))"
      by (rule shard_reads(1)[OF s(5) m])
    also have "take ?m (drop (i - k) (take (sh_count s) (drop k recs))) = take ?m (drop i recs)"
      using s(2,3) by (simp add: drop_take min_def add.commute)
    finally have span: "read_span d s (i - sh_cum s) (min (sh_count s - (i - sh_cum s)) n) v = Some (take ?m (drop i recs))"
      by (simp only: s(3))
    have "reader_read d R (i + ?m) (n - ?m) v = Some (take (n - ?m) (drop (i + ?m) recs))"
      using "1.IH"[OF False s(1) refl refl] span "1.prems" s(3) by simp
    moreover have "take ?m (drop i recs) @ take (n - ?m) (drop (i + ?m) recs) = take n (drop i recs)"
      by (metis (no_types) add.commute drop_drop le_add_diff_inverse min.cobounded2 take_add)
    ultimately show ?thesis
      using False s(1,3) span by (subst reader_read.simps) (simp add: Let_def)
  qed
qed

lemma each_batch_stream:
  assumes "shard_holds d v s recs" "i \<le> length recs" "skip_frames gs i = skip_frames (sh_frames s) i"
  shows "each_batch d s v i gs = map (\<lambda>r. (rec_addr r, rec_val r)) (drop i recs)"
  using assms(2,3)
proof (induction "length recs - i" arbitrary: i gs rule: less_induct)
  case less
  have cnt: "sh_count s = length recs" using assms(1) by (simp add: shard_holds_def)
  show ?case
  proof (cases "i < length recs")
    case False
    then show ?thesis by (subst each_batch.simps) (simp add: cnt)
  next
    case True
    let ?n = "min (length recs - i) 4096"
    have n: "0 < ?n" "i + ?n \<le> length recs" using True by simp_all
    obtain obs vbs where p: "pread_full d (sh_dir s, OffsetsBin) (i * 4) (?n * 4) = Some obs"
      "pread_full d (sh_dir s, ValuesBin) (i * v) (?n * v) = Some vbs"
      "zip (decode_addrs (skip_frames (sh_frames s) i) i (word_list obs ?n)) (record_list v vbs ?n) =
         map (\<lambda>r. (rec_addr r, rec_val r)) (take ?n (drop i recs))"
      using shard_reads(2)[OF assms(1) n(2) le_refl] by (auto split: option.splits)
    have skip: "skip_frames gs j = skip_frames (sh_frames s) j" if "i \<le> j" for j
      using skip_frames_skip[OF that, of gs] skip_frames_skip[OF that, of "sh_frames s"] less.prems(2) by simp
    have z: "zip (decode_addrs gs i (word_list obs ?n)) (record_list v vbs ?n) =
        map (\<lambda>r. (rec_addr r, rec_val r)) (take ?n (drop i recs))"
      using p(3) unfolding skip_frames_0[of gs] less.prems(2) .
    have le: "i \<le> i + ?n - 1" "i + ?n - 1 \<le> i + ?n" "i \<le> i + ?n" using n(1) by linarith+
    have "skip_frames (skip_frames gs (i + ?n - 1)) (i + ?n) = skip_frames (sh_frames s) (i + ?n)"
      by (simp only: skip_frames_skip[OF le(2)] skip[OF le(3)])
    then have "each_batch d s v (i + ?n) (skip_frames gs (i + ?n - 1)) = map (\<lambda>r. (rec_addr r, rec_val r)) (drop (i + ?n) recs)"
      using n by (intro less.hyps) linarith+
    moreover have "take ?n (drop i recs) @ drop (i + ?n) recs = drop i recs"
      by (simp only: add.commute[of i] drop_drop[symmetric] append_take_drop_id)
    moreover have "each_batch d s v i gs = map (\<lambda>r. (rec_addr r, rec_val r)) (take ?n (drop i recs)) @
        each_batch d s v (i + ?n) (skip_frames gs (i + ?n - 1))"
      unfolding each_batch.simps[of d s v i] cnt Let_def p(1,2) using True by (simp only: if_True option.case prod.case z)
    ultimately show ?thesis by (simp only: map_append[symmetric])
  qed
qed

text \<open>
  C31: Streaming a result and reading any range of it by position give its records in order; both
  cross batches, frames and shards without losing, repeating or mispairing a record.
\<close>

theorem result_streams:
  assumes "result_holds d v r recs" "i + n \<le> length recs"
  shows "forEach d r v = map (\<lambda>r. (rec_addr r, rec_val r)) recs \<and>
    reader_read d \<lparr>rd_shards = sr_shards r, rd_ok = True\<rparr> i n v = Some (take n (drop i recs))"
proof
  have "shards_hold d v cum ss recs \<Longrightarrow> concat (map (\<lambda>s. if dk_files d (sh_dir s, OffsetsBin) = None \<or> dk_files d (sh_dir s, ValuesBin) = None then []
                      else each_batch d s v 0 (sh_frames s)) ss) = map (\<lambda>r. (rec_addr r, rec_val r)) recs" for cum ss recs
  proof (induction ss arbitrary: cum recs)
    case (Cons s ss)
    have sh: "shard_holds d v s (take (sh_count s) recs)" using Cons.prems by simp
    have "each_batch d s v 0 (sh_frames s) = map (\<lambda>r. (rec_addr r, rec_val r)) (take (sh_count s) recs)"
      using each_batch_stream[OF sh, of 0] by simp
    moreover have "dk_files d (sh_dir s, OffsetsBin) \<noteq> None" "dk_files d (sh_dir s, ValuesBin) \<noteq> None"
      using sh by (auto simp: shard_holds_def)
    ultimately have e: "(if dk_files d (sh_dir s, OffsetsBin) = None \<or> dk_files d (sh_dir s, ValuesBin) = None then []
        else each_batch d s v 0 (sh_frames s)) = map (\<lambda>r. (rec_addr r, rec_val r)) (take (sh_count s) recs)" by auto
    have "shards_hold d v (cum + sh_count s) ss (drop (sh_count s) recs)" using Cons.prems by simp
    from Cons.IH[OF this] show ?case
      by (simp only: list.map concat.simps e map_append[symmetric] append_take_drop_id)
  qed simp
  then show "forEach d r v = map (\<lambda>r. (rec_addr r, rec_val r)) recs"
    using assms(1) unfolding forEach_def result_holds_def by blast
  show "reader_read d \<lparr>rd_shards = sr_shards r, rd_ok = True\<rparr> i n v = Some (take n (drop i recs))"
    using reader_read_slice[of d v "\<lparr>rd_shards = sr_shards r, rd_ok = True\<rparr>" recs i n] assms by (simp add: result_holds_def)
qed

lemma demo_written:
  "result_holds (fst (write_result (empty_disk 1000) ''r'' True demo_records)) 2
     (snd (write_result (empty_disk 1000) ''r'' True demo_records)) demo_records"
proof -
  have "fresh (empty_disk 1000) ''r''" by (rule empty_disk_fresh)
  moreover have "\<not> sr_writeError (snd (write_result (empty_disk 1000) ''r'' True demo_records))" by code_simp
  moreover have "\<forall>r \<in> set demo_records. length (rec_val r) = 2 \<and> length (rec_first r) = 2" by (simp add: demo_records_def)
  ultimately show ?thesis using write_result_result[OF _ prod.collapse[symmetric]] by blast
qed

theorem result_streams_witness:
  "forEach (fst (write_result (empty_disk 1000) ''r'' True demo_records))
     (snd (write_result (empty_disk 1000) ''r'' True demo_records)) 2 = [(0x1000, [1, 2]), (0x700000001000, [5, 6])]"
  using result_streams[OF demo_written, of 0 2] by (simp add: demo_records_def)

section \<open>Sharded results\<close>

lemma stoull_dec: "n < 2 ^ 64 \<Longrightarrow> stoull 10 (fmt_dec n) = Some (of_nat n)"
  using strtoull_dec[of n 10 "[]"] by (simp add: stoull_def)

lemma fmt_dec_no_space: "c \<in> set (fmt_dec n) \<Longrightarrow> \<not> is_space c"
  using fmt_dec_set[of c n] hex_lower_plain(1) by fastforce

lemma fmt_dec_plain: "CHR 0x0A \<notin> set (fmt_dec n)" "CHR '' '' \<notin> set (fmt_dec n)"
  using fmt_dec_no_space[of "CHR 0x0A" n] fmt_dec_no_space[of "CHR '' ''" n] by (auto simp: is_space_def char_code_def)

lemma manifest_line_printed: "c < 2 ^ 64 \<Longrightarrow> manifest_line (fmt_dec c @ CHR '' '' # dir) = Some (c, dir)"
  using fmt_dec_plain(2)[of c] by (simp add: manifest_line_def split_first_append stoull_dec unat_u64_of_nat)

lemma raw_frames_bytes: "\<forall>(b, c) \<in> set fs. c < 2 ^ 64 \<Longrightarrow> raw_frames (frames_bytes fs) (length fs) = fs"
  by (induction fs) (auto simp: frames_bytes_def le_val_le_bytes_full unat_u64_of_nat)

lemma length_frames_bytes [simp]: "length (frames_bytes fs) = length fs * 16"
  by (induction fs) (auto simp: frames_bytes_def)

lemma encodes_counts: "encodes fs offs addrs \<Longrightarrow> (b, c) \<in> set fs \<Longrightarrow> c \<le> length addrs"
  using member_le_sum_list[of c "map snd fs"] by (force simp: encodes_def)

text \<open>A finished part: one shard on disk whose frame table reads back.\<close>

definition part_holds :: "disk \<Rightarrow> nat \<Rightarrow> ScanResult \<Rightarrow> record3 list \<Rightarrow> bool" where
  "part_holds d n p recs \<longleftrightarrow>
     sr_count p = length recs \<and> length recs < 2 ^ 64 \<and> CHR 0x0A \<notin> set (sr_dir p) \<and> \<not> sr_writeError p \<and>
     shard_holds d n \<lparr>sh_dir = sr_dir p, sh_count = length recs, sh_cum = 0, sh_frames = loadFrames d (sr_dir p)\<rparr> recs"

lemma shard_holds_cum: "shard_holds d n (s\<lparr>sh_cum := k\<rparr>) recs = shard_holds d n s recs"
  by (simp add: shard_holds_def)

lemma start_frames_pairs: "map (\<lambda>f. (fr_base f, fr_count f)) (start_frames k fs) = fs"
  by (induction k fs rule: start_frames.induct) simp_all

text \<open>A result whose frame tables are those on disk, as those of a finished result are.\<close>

definition result_loaded :: "disk \<Rightarrow> ScanResult \<Rightarrow> bool" where
  "result_loaded d r \<longleftrightarrow> (\<forall>s \<in> set (sr_shards r). sh_frames s = loadFrames d (sh_dir s))"

lemma finalize_part:
  assumes "store_inv d r recs" "dk_files d (sr_dir r, FramesBin) = None" "finalize d r = (d', r')" "\<not> sr_writeError r'"
    "\<forall>r \<in> set recs. length (rec_val r) = n \<and> length (rec_first r) = n"
    "\<not> sr_storeFirst r \<longrightarrow> (\<forall>r \<in> set recs. rec_first r = rec_val r)" "length recs < 2 ^ 64" "CHR 0x0A \<notin> set (sr_dir r)"
  shows "part_holds d' n r' recs \<and> sr_dir r' = sr_dir r \<and> untouched d (sr_dir r) d' \<and> result_loaded d' r'"
proof -
  obtain fs where w: "sr_shards r' = [\<lparr>sh_dir = sr_dir r, sh_count = length recs, sh_cum = 0, sh_frames = start_frames 0 fs\<rparr>]"
    "shard_holds d' n (hd (sr_shards r')) recs" "sr_count r' = length recs" "sr_dir r' = sr_dir r" "untouched d (sr_dir r) d'"
    "dk_files d' (sr_dir r, FramesBin) = (if fs = [] then None else Some (frames_bytes fs))"
    using finalize_holds[OF assms(1,3-6)] assms(2) by auto
  have "loadFrames d' (sr_dir r) = start_frames 0 fs"
  proof (cases "fs = []")
    case True
    then show ?thesis using w(6) by (simp add: loadFrames_def)
  next
    case False
    obtain fs' offs where "start_frames 0 fs = start_frames 0 fs'" "encodes fs' offs (map rec_addr recs)"
      using w(1,2) by (auto simp: shard_holds_def)
    then have "encodes fs offs (map rec_addr recs)" by (metis start_frames_pairs)
    then have "\<forall>(b, c) \<in> set fs. c < 2 ^ 64" using encodes_counts assms(7) by fastforce
    from raw_frames_bytes[OF this] show ?thesis
      using w(6) False by (cases fs) (simp_all add: loadFrames_def)
  qed
  then show ?thesis using w assms(4,7,8) by (simp add: part_holds_def result_loaded_def)
qed

lemma write_result_part:
  assumes "fresh d dir" "write_result d dir storeFirst recs = (d', r')" "\<not> sr_writeError r'"
    "\<forall>r \<in> set recs. length (rec_val r) = n \<and> length (rec_first r) = n"
    "\<not> storeFirst \<longrightarrow> (\<forall>r \<in> set recs. rec_first r = rec_val r)" "length recs < 2 ^ 64" "CHR 0x0A \<notin> set dir"
  shows "part_holds d' n r' recs" "result_loaded d' r'"
proof -
  obtain d1 r where n: "new_ScanResult d dir storeFirst = (d1, r)" by fastforce
  obtain d2 r2 where a: "add_all d1 r recs = (d2, r2)" by fastforce
  note new = new_inv[OF assms(1) n]
  then have "store_inv d1 r []" by blast
  note all = add_all_inv[OF this a]
  have st: "sr_dir r2 = dir" "sr_storeFirst r2 = storeFirst" using new all by auto
  show "part_holds d' n r' recs" "result_loaded d' r'"
    using finalize_part[of d2 r2 recs d' r' n] assms(2-7) n a new all st by (simp_all add: write_result_def)
qed

definition same_records :: "disk \<Rightarrow> disk \<Rightarrow> bool" where
  "same_records d d' \<longleftrightarrow> (\<forall>dir k. k \<noteq> ShardsTxt \<longrightarrow> dk_files d' (dir, k) = dk_files d (dir, k))"

lemma same_records_holds:
  assumes "same_records d d'"
  shows "shard_holds d' n s recs = shard_holds d n s recs" "loadFrames d' dir = loadFrames d dir"
proof -
  have "dk_files d' (dir, k) = dk_files d (dir, k)" if "k \<noteq> ShardsTxt" for dir k
    using assms that by (simp add: same_records_def)
  then show "shard_holds d' n s recs = shard_holds d n s recs" "loadFrames d' dir = loadFrames d dir"
    by (simp_all add: shard_holds_def loadFrames_def)
qed

lemma write_manifest_effect:
  assumes "write_manifest dir ps (d, err) = (d', err')" "\<not> err'" "dk_files d (dir, ShardsTxt) = Some bs"
  shows "\<not> err \<and> dk_files d' (dir, ShardsTxt) = Some (bs @ concat (map (\<lambda>p. name_bytes (shard_line p)) ps)) \<and> same_records d d'"
  using assms
proof (induction ps arbitrary: d err bs)
  case (Cons p ps)
  obtain d1 ok where w: "writeAll (dir, ShardsTxt) (name_bytes (shard_line p)) d = (d1, ok)" by fastforce
  note eff = writeAll_effect[OF w]
  have run: "write_manifest dir ps (d1, err \<or> sr_writeError p \<or> \<not> ok) = (d', err')" using Cons.prems(1) w by simp
  show ?case
  proof (cases "err \<or> sr_writeError p \<or> \<not> ok")
    case True
    have "err' = True" if "write_manifest dir ps (d1, True) = (d', err')" for ps d1
      using that by (induction ps arbitrary: d1) (auto split: prod.splits)
    with run True Cons.prems(2) show ?thesis by auto
  next
    case False
    then have d1: "dk_files d1 (dir, ShardsTxt) = Some (bs @ name_bytes (shard_line p))" using eff Cons.prems(3) by auto
    from Cons.IH[OF run Cons.prems(2) this] False eff show ?thesis by (auto simp: same_records_def)
  qed
qed (simp add: same_records_def)

lemma bytes_name_concat: "bytes_name (concat (map (\<lambda>p. name_bytes (f p)) ps)) = concat (map f ps)"
  by (induction ps) (simp_all add: bytes_name_def name_bytes_def, use bytes_name_bytes in \<open>simp add: bytes_name_def name_bytes_def\<close>)

lemma manifest_entries:
  assumes "list_all2 (part_holds d n) parts recss"
  shows "List.map_filter manifest_line (getlines (CHR 0x0A) (concat (map shard_line parts))) = map (\<lambda>p. (sr_count p, sr_dir p)) parts"
  using assms
proof (induction parts recss rule: list_all2_induct)
  case Nil
  then show ?case by (simp add: getlines.simps map_filter_simps)
next
  case (Cons p parts recs recss)
  have p: "sr_count p < 2 ^ 64" "CHR 0x0A \<notin> set (sr_dir p)" using Cons.hyps(1) by (auto simp: part_holds_def)
  have nl: "CHR 0x0A \<notin> set (fmt_dec (sr_count p) @ CHR '' '' # sr_dir p)" using p(2) fmt_dec_plain(1) by auto
  have "getlines (CHR 0x0A) (shard_line p @ concat (map shard_line parts)) =
      (fmt_dec (sr_count p) @ CHR '' '' # sr_dir p) # getlines (CHR 0x0A) (concat (map shard_line parts))"
    using getlines_Cons[OF nl] by (simp add: shard_line_def)
  then show ?case using Cons.IH manifest_line_printed[OF p(1)] by (simp add: map_filter_simps)
qed

lemma add_shards_hold:
  assumes "list_all2 (part_holds d n) parts recss"
  shows "shards_hold d n cum (add_shards d (map (\<lambda>p. (sr_count p, sr_dir p)) parts) cum) (concat recss) \<and>
    sum_list (map fst (map (\<lambda>p. (sr_count p, sr_dir p)) parts)) = length (concat recss)"
  using assms
proof (induction parts recss arbitrary: cum rule: list_all2_induct)
  case (Cons p parts recs recss)
  then have "sr_count p = length recs"
    "shard_holds d n \<lparr>sh_dir = sr_dir p, sh_count = length recs, sh_cum = cum, sh_frames = loadFrames d (sr_dir p)\<rparr> recs"
    by (simp_all add: part_holds_def shard_holds_def)
  then show ?case using Cons.IH by simp
qed simp

lemma part_same: "same_records d d' \<Longrightarrow> part_holds d' n p recs = part_holds d n p recs"
  by (simp add: part_holds_def same_records_holds)

lemma assemble_shards:
  assumes "list_all2 (part_holds d n) parts recss" "assembleShardedResult d dir parts = (d', r)" "\<not> sr_writeError r"
  shows "list_all2 (part_holds d' n) parts recss \<and> same_records d d' \<and>
    sr_shards r = add_shards d' (map (\<lambda>p. (sr_count p, sr_dir p)) parts) 0 \<and>
    sr_count r = sum_list (map fst (map (\<lambda>p. (sr_count p, sr_dir p)) parts))"
proof -
  have nd: "\<not> dk_denied d (dir, ShardsTxt)"
  proof
    assume "dk_denied d (dir, ShardsTxt)"
    then show False using assms(2,3) by (auto simp: assembleShardedResult_def open_trunc_def Let_def split: prod.splits)
  qed
  let ?d1 = "d\<lparr>dk_files := (dk_files d)((dir, ShardsTxt) := Some [])\<rparr>"
  obtain d2 err where w: "write_manifest dir parts (?d1, False) = (d2, err)" by fastforce
  obtain d3 m where nw: "new_ScanResult d2 dir True = (d3, m)" by fastforce
  have r: "r = m\<lparr>sr_writeError := sr_writeError m \<or> err\<rparr>" "d' = d3"
    using assms(2) nd w nw by (auto simp: assembleShardedResult_def open_trunc_def Let_def)
  then have "\<not> err" using assms(3) by simp
  from write_manifest_effect[OF w this, of "[]"]
  have eff: "dk_files d2 (dir, ShardsTxt) = Some (concat (map (\<lambda>p. name_bytes (shard_line p)) parts))" "same_records ?d1 d2"
    by simp_all
  have same: "same_records d d2" using eff(2) by (simp add: same_records_def)
  have parts2: "list_all2 (part_holds d2 n) parts recss"
    using list_all2_mono[OF assms(1), of "part_holds d2 n"] part_same[OF same] by blast
  have "d2 = d3" "m = loadShards d2 (blank_result dir True)" using nw eff(1) by (auto simp: new_ScanResult_def Let_def)
  moreover have "sr_shards m = add_shards d2 (map (\<lambda>p. (sr_count p, sr_dir p)) parts) 0"
    "sr_count m = sum_list (map fst (map (\<lambda>p. (sr_count p, sr_dir p)) parts))"
    unfolding \<open>m = loadShards d2 (blank_result dir True)\<close>
    by (simp_all only: loadShards_def Let_def) (simp_all add: blank_result_def eff(1) bytes_name_concat manifest_entries[OF parts2] comp_def)
  ultimately show ?thesis using parts2 same unfolding r by simp
qed

lemma assemble_holds:
  assumes "list_all2 (part_holds d n) parts recss" "assembleShardedResult d dir parts = (d', r)" "\<not> sr_writeError r"
  shows "result_holds d' n r (concat recss) \<and> same_records d d'"
proof -
  note shards = assemble_shards[OF assms]
  then have "list_all2 (part_holds d' n) parts recss" by simp
  from add_shards_hold[OF this, of 0] shards show ?thesis by (simp add: result_holds_def)
qed

text \<open>
  C24: A result assembled from finished parts holds the records of the parts one after the other: the
  manifest is parsed back to the counts and directories it was written from, and the global index is
  carried into the right shard.
\<close>

theorem sharded_result_concat:
  assumes "list_all2 (part_holds d n) parts recss" "assembleShardedResult d dir parts = (d', r)" "\<not> sr_writeError r"
    "i < length (concat recss)"
  shows "sr_count r = length (concat recss) \<and> result_address d' r i = rec_addr (concat recss ! i) \<and>
    result_value d' r i n buf = rec_val (concat recss ! i) \<and> result_firstValue d' r i n buf = rec_first (concat recss ! i)"
proof -
  have "result_holds d' n r (concat recss)" using assemble_holds[OF assms(1-3)] by blast
  from result_index[OF this assms(4)] this show ?thesis by (simp add: result_holds_def)
qed

lemma assemble_writeError:
  "\<not> dk_denied d (dir, ShardsTxt) \<Longrightarrow> sr_writeError (snd (assembleShardedResult d dir parts)) =
     snd (write_manifest dir parts (d\<lparr>dk_files := (dk_files d)((dir, ShardsTxt) := Some [])\<rparr>, False))"
  by (auto simp: assembleShardedResult_def open_trunc_def new_ScanResult_def loadShards_def blank_result_def Let_def
      split: prod.splits option.splits)

theorem sharded_result_concat_witness:
  "let (d, p) = write_result (empty_disk 1000) ''r'' True demo_records;
       (d', r) = assembleShardedResult d ''all'' [p, p]
   in sr_count r = 4 \<and> result_address d' r 3 = 0x700000001000 \<and> result_firstValue d' r 2 2 [] = [3, 4]"
proof -
  obtain d p where w: "write_result (empty_disk 1000) ''r'' True demo_records = (d, p)" by fastforce
  obtain d' r where a: "assembleShardedResult d ''all'' [p, p] = (d', r)" by fastforce
  have "fresh (empty_disk 1000) ''r''" by (rule empty_disk_fresh)
  moreover have "\<not> sr_writeError (snd (write_result (empty_disk 1000) ''r'' True demo_records))" by code_simp
  ultimately have ok: "part_holds d 2 p demo_records"
    using write_result_part[OF _ w, of 2] w by (simp add: demo_records_def)
  have "\<not> (case write_result (empty_disk 1000) ''r'' True demo_records of (d, p) \<Rightarrow>
      dk_denied d (''all'', ShardsTxt) \<or>
      snd (write_manifest ''all'' [p, p] (d\<lparr>dk_files := (dk_files d)((''all'', ShardsTxt) := Some [])\<rparr>, False)))"
    by code_simp
  then have "\<not> sr_writeError r" using assemble_writeError[of d "''all''" "[p, p]"] by (simp add: w a)
  then have "sr_count r = 4 \<and> result_address d' r i = rec_addr (concat [demo_records, demo_records] ! i) \<and>
      result_firstValue d' r i 2 [] = rec_first (concat [demo_records, demo_records] ! i)" if "i < 4" for i
    using sharded_result_concat[of d 2 "[p, p]" "[demo_records, demo_records]" "''all''" d' r i "[]"] ok a that
    by (simp add: demo_records_def)
  from this[of 3] this[of 2] show ?thesis unfolding w a prod.case Let_def by (simp add: demo_records_def)
qed

lemma add_shards_loaded:
  "s \<in> set (add_shards d entries cum) \<Longrightarrow> sh_frames s = loadFrames d (sh_dir s) \<and> sh_dir s \<in> snd ` set entries"
  by (induction d entries cum rule: add_shards.induct) auto

lemma assemble_loaded:
  assumes "list_all2 (part_holds d n) parts recss" "assembleShardedResult d dir parts = (d', r)" "\<not> sr_writeError r"
  shows "result_loaded d' r \<and> sh_dir ` set (sr_shards r) \<subseteq> sr_dir ` set parts"
  using assemble_shards[OF assms] add_shards_loaded[of _ d' "map (\<lambda>p. (sr_count p, sr_dir p)) parts" 0]
  by (fastforce simp: result_loaded_def)

section \<open>Pruning\<close>

lemma shards_hold_untouched:
  "shards_hold d v cum ss recs \<Longrightarrow> untouched d dir d' \<Longrightarrow> \<forall>s \<in> set ss. sh_dir s \<noteq> dir \<Longrightarrow> shards_hold d' v cum ss recs"
  by (induction ss arbitrary: cum recs) (auto simp: shard_holds_def untouched_def)

definition kept :: "bool list \<Rightarrow> nat \<Rightarrow> bool" where
  "kept remove i = (\<not> (i < length remove \<and> remove ! i))"

lemma prune_rows_adds:
  assumes src: "result_holds d0 n src recs" "\<forall>s \<in> set (sr_shards src). sh_dir s \<noteq> dir" "0 < n"
    "\<forall>r \<in> set recs. length (rec_val r) = n \<and> length (rec_first r) = n"
  assumes "\<forall>i \<in> set is. i < length recs" "length vb = n" "length fb = n"
    "store_inv d out xs" "sr_dir out = dir" "untouched d0 dir d"
  shows "prune_rows d src n remove is (vb, fb) out = add_all d out (map (\<lambda>i. recs ! i) (filter (kept remove) is))"
  using assms(5-10)
proof (induction "is" arbitrary: vb fb d out xs)
  case (Cons i "is")
  show ?case
  proof (cases "kept remove i")
    case False
    then show ?thesis using Cons by (simp add: kept_def)
  next
    case True
    have h: "result_holds d n src recs"
      using src(1) shards_hold_untouched[OF _ Cons.prems(6) src(2)] by (simp add: result_holds_def)
    have i: "i < length recs" using Cons.prems(1) by simp
    have "recs ! i \<in> set recs" using i by simp
    then have l: "length (rec_val (recs ! i)) = n" "length (rec_first (recs ! i)) = n" using src(4) by blast+
    obtain d1 out1 where a: "addResult d out (rec_addr (recs ! i)) (rec_val (recs ! i)) (rec_first (recs ! i)) = (d1, out1)" by fastforce
    note inv = addResult_inv[OF Cons.prems(4) a]
    have "untouched d0 dir d1" using inv Cons.prems(5,6) untouched_trans by blast
    then have "prune_rows d1 src n remove is (rec_val (recs ! i), rec_first (recs ! i)) out1 =
        add_all d1 out1 (map (\<lambda>i. recs ! i) (filter (kept remove) is))"
      using Cons.prems l inv by (intro Cons.IH[of _ _ d1 out1 "xs @ [recs ! i]"]) auto
    moreover have "\<not> (i < length remove \<and> remove ! i)" using True by (simp add: kept_def)
    then have "prune_rows d src n remove (i # is) (vb, fb) out =
        prune_rows d1 src n remove is (rec_val (recs ! i), rec_first (recs ! i)) out1"
      using a l src(3) result_index[OF h i] by (simp only: prune_rows.simps if_False) simp
    ultimately show ?thesis using True a by simp
  qed
qed simp

lemma map_filter_upt_nth: "map (\<lambda>i. xs ! i) (filter P [0..<length xs]) = nths xs {i. P i}"
proof (induction xs rule: rev_induct)
  case (snoc x xs)
  have "map (\<lambda>i. (xs @ [x]) ! i) (filter P [0..<length xs]) = map (\<lambda>i. xs ! i) (filter P [0..<length xs])"
    by (rule map_cong[OF refl]) (simp add: nth_append)
  then show ?case using snoc.IH by (simp add: nths_append nths_singleton)
qed simp

text \<open>
  Pruning keeps exactly the rows that were not flagged, in their order, each with its address,
  its value and its value of the first scan; rows past the end of the flags are kept.
\<close>

theorem prune_keeps_rows:
  assumes "result_holds d n src recs" "fresh d dir" "\<forall>s \<in> set (sr_shards src). sh_dir s \<noteq> dir" "0 < n"
    "\<forall>r \<in> set recs. length (rec_val r) = n \<and> length (rec_first r) = n"
    "pruneScanResult d dir src n remove = (d', r')" "\<not> sr_writeError r'"
  shows "result_holds d' n r' (nths recs {i. \<not> (i < length remove \<and> remove ! i)})"
proof -
  let ?ks = "map (\<lambda>i. recs ! i) (filter (kept remove) [0..<length recs])"
  obtain d1 out where nw: "new_ScanResult d dir True = (d1, out)" by fastforce
  note new = new_inv[OF assms(2) nw]
  have cnt: "sr_count src = length recs" using assms(1) by (simp add: result_holds_def)
  have "prune_rows d1 src n remove [0..<length recs] (replicate n 0, replicate n 0) out = add_all d1 out ?ks"
    using new assms(1,3-5) by (intro prune_rows_adds[of d _ _ _ dir _ _ _ _ _ "[]"]) auto
  moreover have "max 1 n = n" using assms(4) by simp
  ultimately have "write_result d dir True ?ks = (d', r')"
    using assms(6) nw by (simp add: pruneScanResult_def write_result_def cnt)
  moreover have "\<forall>r \<in> set ?ks. length (rec_val r) = n \<and> length (rec_first r) = n" using assms(5) by auto
  ultimately have "result_holds d' n r' ?ks" using write_result_result[OF assms(2) _ assms(7)] by blast
  then show ?thesis by (simp only: map_filter_upt_nth kept_def)
qed

theorem prune_keeps_rows_witness:
  "let (d, p) = write_result (empty_disk 1000) ''r'' True demo_records;
       (d', r) = pruneScanResult d ''pruned'' p 2 [True]
   in result_holds d' 2 r [(0x700000001000, [5, 6], [7, 8])]"
proof -
  obtain d p where w: "write_result (empty_disk 1000) ''r'' True demo_records = (d, p)" by fastforce
  obtain d' r where a: "pruneScanResult d ''pruned'' p 2 [True] = (d', r)" by fastforce
  have h: "result_holds d 2 p demo_records" using demo_written w by simp
  have "fresh (empty_disk 1000) ''r''" by (rule empty_disk_fresh)
  moreover have "\<not> sr_writeError (snd (write_result (empty_disk 1000) ''r'' True demo_records))" by code_simp
  ultimately have wh: "\<not> sr_writeError p" "untouched (empty_disk 1000) ''r'' d" "\<forall>s \<in> set (sr_shards p). sh_dir s = ''r''"
    using write_result_holds[OF _ w, of 2] w by (auto simp: demo_records_def)
  have "fresh d ''pruned''" using wh(2) by (simp add: fresh_def no_results_def data_opens_def empty_disk_def untouched_def)
  moreover have "\<not> sr_writeError (snd (case write_result (empty_disk 1000) ''r'' True demo_records of (d, p) \<Rightarrow>
      pruneScanResult d ''pruned'' p 2 [True]))" by code_simp
  ultimately have "result_holds d' 2 r (nths demo_records {i. \<not> (i < length [True] \<and> [True] ! i)})"
    using prune_keeps_rows[OF h _ _ _ _ a] wh w a by (simp add: demo_records_def)
  then show ?thesis unfolding w a prod.case Let_def by (simp add: demo_records_def nths_Cons)
qed

end
