(* ===== verification/Scan_Workers.thy ===== *)
theory Scan_Workers
  imports Scan_Results
begin

text \<open>
  The worker threads of a scan: each writes the records of its own slice to a result of its own, and
  the parts are assembled in thread order.  The lemma says what the parts hold when no write failed.
\<close>

text \<open>
  The results of the threads are created before the first thread starts.  The threads write to
  different directories; only the room left on the disk is shared, and it is used in thread order.
\<close>

fun open_results :: "disk \<Rightarrow> bool \<Rightarrow> string list \<Rightarrow> disk \<times> ScanResult list" where
  "open_results d storeFirst [] = (d, [])"
| "open_results d storeFirst (dir # dirs) =
     (case new_ScanResult d dir storeFirst of (d1, r) \<Rightarrow>
        (case open_results d1 storeFirst dirs of (d2, rs) \<Rightarrow> (d2, r # rs)))"

fun run_workers :: "disk \<Rightarrow> (ScanResult \<times> record3 list) list \<Rightarrow> disk \<times> ScanResult list" where
  "run_workers d [] = (d, [])"
| "run_workers d ((r, recs) # ws) =
     (case add_all d r recs of (d1, r1) \<Rightarrow>
        (case finalize d1 r1 of (d2, r2) \<Rightarrow>
           (case run_workers d2 ws of (d3, rs) \<Rightarrow> (d3, r2 # rs))))"

definition thread_dir :: "string \<Rightarrow> nat \<Rightarrow> string" where
  "thread_dir resultDir t = resultDir @ ''/t'' @ fmt_dec t"

definition empty_result :: "disk \<Rightarrow> string \<Rightarrow> bool \<Rightarrow> disk \<times> ScanResult" where
  "empty_result d dir storeFirst = (case new_ScanResult d dir storeFirst of (d1, r) \<Rightarrow> finalize d1 r)"

section \<open>The parts hold the records of the workers\<close>

definition ready :: "disk \<Rightarrow> bool \<Rightarrow> ScanResult \<Rightarrow> string \<Rightarrow> bool" where
  "ready d storeFirst r dir \<longleftrightarrow>
     store_inv d r [] \<and> sr_dir r = dir \<and> sr_storeFirst r = storeFirst \<and> dk_files d (dir, FramesBin) = None"

lemma store_inv_untouched:
  "untouched d dir d' \<Longrightarrow> sr_dir r \<noteq> dir \<Longrightarrow> store_inv d' r recs = store_inv d r recs"
  by (simp add: untouched_def store_inv_def holds_file_def)

lemma ready_untouched: "untouched d dir d' \<Longrightarrow> dir' \<noteq> dir \<Longrightarrow> ready d' sf r dir' = ready d sf r dir'"
  using store_inv_untouched[of d dir d' r] by (auto simp: ready_def untouched_def)

lemma fresh_untouched: "untouched d dir d' \<Longrightarrow> dir' \<noteq> dir \<Longrightarrow> fresh d' dir' = fresh d dir'"
  by (simp add: untouched_def fresh_def no_results_def data_opens_def)

lemma part_holds_untouched: "untouched d dir d' \<Longrightarrow> sr_dir p \<noteq> dir \<Longrightarrow> part_holds d' n p recs = part_holds d n p recs"
  by (simp add: part_holds_def shard_holds_def loadFrames_def untouched_def)

definition others_kept :: "disk \<Rightarrow> string set \<Rightarrow> disk \<Rightarrow> bool" where
  "others_kept d dirs d' \<longleftrightarrow> (\<forall>g. fst g \<notin> dirs \<longrightarrow> dk_files d' g = dk_files d g) \<and> dk_denied d' = dk_denied d"

lemma others_kept_step: "untouched d dir d1 \<Longrightarrow> others_kept d1 dirs d2 \<Longrightarrow> others_kept d (insert dir dirs) d2"
  by (simp add: untouched_def others_kept_def)

lemma others_kept_fresh: "others_kept d dirs d' \<Longrightarrow> dir \<notin> dirs \<Longrightarrow> fresh d' dir = fresh d dir"
  by (simp add: others_kept_def fresh_def no_results_def data_opens_def)

lemma ready_kept: "others_kept d dirs d' \<Longrightarrow> dir \<notin> dirs \<Longrightarrow> ready d' sf r dir = ready d sf r dir"
  by (auto simp: ready_def others_kept_def store_inv_def holds_file_def)

lemma open_results_ready:
  assumes "open_results d sf dirs = (d', rs)" "distinct dirs" "\<forall>dir \<in> set dirs. fresh d dir"
  shows "list_all2 (ready d' sf) rs dirs \<and> others_kept d (set dirs) d'"
  using assms
proof (induction dirs arbitrary: d rs)
  case (Cons dir dirs)
  obtain d1 r where n: "new_ScanResult d dir sf = (d1, r)" by fastforce
  obtain rs' where o: "open_results d1 sf dirs = (d', rs')" "rs = r # rs'"
    using Cons.prems(1) n by (auto split: prod.splits)
  note new = new_inv[OF _ n]
  have r: "ready d1 sf r dir" "untouched d dir d1" using new Cons.prems(3) by (auto simp: ready_def)
  have "\<forall>dir' \<in> set dirs. fresh d1 dir'" using Cons.prems(2,3) r(2) fresh_untouched by (metis distinct.simps(2) list.set_intros(2))
  note IH = Cons.IH[OF o(1) _ this]
  then show ?case using Cons.prems(2) o(2) r others_kept_step ready_kept[of d1 "set dirs" d' dir sf r] by auto
qed (simp add: others_kept_def)

definition plain_records :: "nat \<Rightarrow> bool \<Rightarrow> record3 list \<Rightarrow> bool" where
  "plain_records n storeFirst recs \<longleftrightarrow> length recs < 2 ^ 64 \<and>
     (\<forall>r \<in> set recs. length (rec_val r) = n \<and> length (rec_first r) = n \<and> (storeFirst \<or> rec_first r = rec_val r))"

lemma run_workers_parts:
  assumes "list_all2 (ready d sf) rs dirs" "distinct dirs" "length recss = length dirs"
    "run_workers d (zip rs recss) = (d', parts)" "\<forall>p \<in> set parts. \<not> sr_writeError p"
    "\<forall>recs \<in> set recss. plain_records n sf recs" "\<forall>dir \<in> set dirs. CHR 0x0A \<notin> set dir"
  shows "list_all2 (part_holds d' n) parts recss \<and> map sr_dir parts = dirs \<and> others_kept d (set dirs) d'"
  using assms
proof (induction dirs arbitrary: d rs recss parts rule: list.induct)
  case (Cons dir dirs)
  obtain r rs' where "rs = r # rs'" using Cons.prems(1) by (auto simp: list_all2_Cons2)
  moreover obtain recs recss' where "recss = recs # recss'" using Cons.prems(3) by (auto simp: length_Suc_conv)
  ultimately have l: "rs = r # rs'" "recss = recs # recss'" by simp_all
  obtain d1 r1 where a: "add_all d r recs = (d1, r1)" by fastforce
  obtain d2 p where f: "finalize d1 r1 = (d2, p)" by fastforce
  obtain ps where w: "run_workers d2 (zip rs' recss') = (d', ps)" "parts = p # ps"
    using Cons.prems(4) l a f by (auto split: prod.splits)
  have rd: "ready d sf r dir" using Cons.prems(1) l(1) by simp
  then have "store_inv d r []" by (simp add: ready_def)
  note all = add_all_inv[OF this a]
  have st: "sr_dir r1 = dir" "sr_storeFirst r1 = sf" "dk_files d1 (dir, FramesBin) = None"
    using all rd by (auto simp: ready_def)
  have fin: "part_holds d2 n p recs" "sr_dir p = dir" "untouched d1 dir d2"
    using finalize_part[of d1 r1 recs d2 p n] all st f w(2) Cons.prems(5-7) l(2) by (auto simp: plain_records_def)
  have unt: "untouched d dir d2" using all rd fin(3) untouched_trans by (auto simp: ready_def)
  have "\<forall>dir' \<in> set dirs. dir' \<noteq> dir" using Cons.prems(2) by auto
  then have "list_all2 (ready d2 sf) rs' dirs"
    using Cons.prems(1) unfolding l(1) list_all2_Cons
    using ready_untouched[OF unt] list.rel_mono_strong[of "ready d sf" rs' dirs "ready d2 sf"] by auto
  from Cons.IH[OF this _ _ w(1)] have IH: "list_all2 (part_holds d' n) ps recss'" "map sr_dir ps = dirs" "others_kept d2 (set dirs) d'"
    using Cons.prems l w(2) by auto
  have "part_holds d' n p recs"
    using fin(1,2) IH(3) Cons.prems(2) by (auto simp: part_holds_def shard_holds_def loadFrames_def others_kept_def)
  then show ?case using IH fin(2) w(2) l(2) others_kept_step[OF unt] by auto
qed (simp add: others_kept_def)

lemma run_workers_errors:
  assumes "assembleShardedResult d dir parts = (d', r)" "\<not> sr_writeError r"
  shows "\<forall>p \<in> set parts. \<not> sr_writeError p"
proof -
  have mono: "write_manifest dir ps (d, True) = (d', e) \<Longrightarrow> e" for ps d d' e
    by (induction ps arbitrary: d) (auto split: prod.splits)
  have "write_manifest dir ps (d, False) = (d', False) \<Longrightarrow> \<forall>p \<in> set ps. \<not> sr_writeError p" for ps d d'
  proof (induction ps arbitrary: d)
    case (Cons p ps)
    obtain d1 ok where w: "writeAll (dir, ShardsTxt) (name_bytes (shard_line p)) d = (d1, ok)" by fastforce
    then have m: "write_manifest dir ps (d1, sr_writeError p \<or> \<not> ok) = (d', False)" using Cons.prems by simp
    then have ok: "\<not> sr_writeError p \<and> ok" using mono[of ps d1 d' False] by (cases "sr_writeError p \<or> \<not> ok") auto
    then have "write_manifest dir ps (d1, False) = (d', False)" using m by simp
    from Cons.IH[OF this] ok show ?case by simp
  qed simp
  then show ?thesis
    using assms by (auto simp: assembleShardedResult_def Let_def split: prod.splits if_splits)
qed

end
