(* ===== verification/Scan_First.thy ===== *)
theory Scan_First
  imports Scan_Values Scan_Workers
begin

text \<open>
  \<^verbatim>\<open>MemoryScanner::firstScan\<close> (\<^verbatim>\<open>src/src/scanner/memory_scanner.cpp\<close>): the checks of the configuration,
  the selection and clipping of the regions, the dispatch on the value type, the split of the regions
  into chunks that overlap by one value less a byte, the probe that decides whether pages that were
  never touched are skipped, the distribution over the worker threads, and the assembled result.  The
  memory a chunk is read from is the function \<open>sp_read\<close> of its address and length; every chunk has
  its own address, so the function covers memory that changes between the reads.  Sizes are naturals:
  a chunk length that wraps \<^verbatim>\<open>size_t\<close> is out of the model.
\<close>

section \<open>Surroundings\<close>

record scan_proc =
  sp_regions :: "MemoryRegion list"
  sp_resident :: "u64 \<Rightarrow> u64 \<Rightarrow> ranges"
  sp_concurrent :: bool
  sp_read :: "u64 \<Rightarrow> nat \<Rightarrow> bytes option"

definition makeScanDir :: "string \<Rightarrow> int \<Rightarrow> nat \<Rightarrow> string" where
  "makeScanDir tmp pid counter = tmp @ ''/ce-scan/scan-'' @ fmt_int pid @ ''-'' @ fmt_dec counter"

definition thread_count :: "int \<Rightarrow> nat \<Rightarrow> nat" where
  "thread_count threadCount cores = (let n = (if 0 < threadCount then nat threadCount else cores) in max 1 n)"

section \<open>The configuration is checked\<close>

definition first_scan_error :: "ScanConfig \<Rightarrow> string option" where
  "first_scan_error cfg =
     (if cf_type cfg = VGrouped \<and> cf_terms cfg = []
      then Some ''ValueType::Grouped requires grouped terms (use parseGrouped)''
      else if cf_type cfg = VGrouped \<and> groupedValueSize cfg = 0
      then Some ''ValueType::Grouped has invalid grouped terms''
      else if cf_type cfg = VGrouped \<and> cf_cmp cfg \<noteq> Exact \<and> cf_cmp cfg \<noteq> Unknown
      then Some ''ValueType::Grouped first scan supports only Exact or Unknown compare''
      else if cf_type cfg = VCustom \<and> cf_customSize cfg = 0
      then Some ''ValueType::Custom requires customValueSize > 0''
      else if cf_type cfg = VCustom \<and> cf_cmp cfg = Exact \<and> cf_formula cfg = []
      then Some ''ValueType::Custom exact scan requires customFormula''
      else if cf_type cfg = VCustom \<and> cf_cmp cfg \<noteq> Exact \<and> cf_cmp cfg \<noteq> Unknown
      then Some ''ValueType::Custom first scan supports only Exact or Unknown compare''
      else None)"

section \<open>Regions\<close>

primrec memoryTypeAllowed :: "ScanConfig \<Rightarrow> MemType \<Rightarrow> bool" where
  "memoryTypeAllowed cfg Private = cf_private cfg"
| "memoryTypeAllowed cfg Image = cf_image cfg"
| "memoryTypeAllowed cfg Mapped = cf_mapped cfg"

definition protAllowed :: "ProtMatch \<Rightarrow> bool \<Rightarrow> bool" where
  "protAllowed m has = (m = ProtAny \<or> (m = ProtYes) = has)"

definition region_selected :: "ScanConfig \<Rightarrow> MemoryRegion \<Rightarrow> bool" where
  "region_selected cfg r =
     (r_state r = Committed \<and> prot_and (r_protection r) ProtRead \<and>
      protAllowed (cf_writable cfg) (prot_and (r_protection r) ProtWrite) \<and>
      protAllowed (cf_executable cfg) (prot_and (r_protection r) ProtExec) \<and>
      memoryTypeAllowed cfg (r_type r))"

definition clip_region :: "ScanConfig \<Rightarrow> MemoryRegion \<Rightarrow> MemoryRegion option" where
  "clip_region cfg r =
     (let regionEnd = (if - 1 - r_base r < r_size r then - 1 else r_base r + r_size r);
          scanStart = max (r_base r) (cf_start cfg);
          scanEnd = min regionEnd (cf_stop cfg)
      in if scanEnd \<le> scanStart then None
         else Some (r\<lparr>r_base := scanStart, r_size := scanEnd - scanStart\<rparr>))"

definition scan_regions :: "ScanConfig \<Rightarrow> MemoryRegion list \<Rightarrow> MemoryRegion list" where
  "scan_regions cfg rs = List.map_filter (clip_region cfg) (filter (region_selected cfg) rs)"

section \<open>Chunks\<close>

definition chunk_bytes :: "scan_env \<Rightarrow> nat" where
  "chunk_bytes env =
     (let byCache = (if 0 < se_l2cache env
                     then min (max (nat (se_l2cache env) div 2) 65536) 1048576 else 131072)
      in case se_chunkKb env of
           None \<Rightarrow> byCache
         | Some e \<Rightarrow> (case strtoull 10 e of
               None \<Rightarrow> byCache
             | Some (kb, rest, erange) \<Rightarrow> if 0 < kb then unat (kb * 1024) else byCache))"

definition skip_untouched :: "scan_env \<Rightarrow> ScanConfig \<Rightarrow> nat \<Rightarrow> nat \<Rightarrow> bool" where
  "skip_untouched env cfg alignment maxMatchSize =
     (let disabled = (se_pagemap env = Some ''off'' \<or> se_pagemap env = Some ''0'');
          cannotStraddle = (0 < se_pageSize env \<and> maxMatchSize \<le> alignment \<and>
                            nat (se_pageSize env) mod alignment = 0)
      in if \<not> disabled \<and> cannotStraddle \<and> cf_type cfg \<noteq> VCustom
         then let zeroWindow = replicate (max (maxMatchSize * 4) 64) 0 in
           scanRegion env cfg zeroWindow 0x1000 (length zeroWindow) = []
         else False)"

definition kPagemapMinRegion :: u64 where
  "kPagemapMinRegion = 256 * 1024"

definition region_ranges :: "bool \<Rightarrow> scan_proc \<Rightarrow> MemoryRegion \<Rightarrow> ranges" where
  "region_ranges skip proc r =
     (if skip \<and> r_type r = Private \<and> kPagemapMinRegion \<le> r_size r
      then sp_resident proc (r_base r) (r_size r)
      else [(r_base r, r_base r + r_size r)])"

section \<open>Threads\<close>

fun take_run :: "nat \<Rightarrow> bool \<Rightarrow> nat \<Rightarrow> Chunk list \<Rightarrow> Chunk list \<times> Chunk list" where
  "take_run perThread is_last acc [] = ([], [])"
| "take_run perThread is_last acc (c # cs) =
     (if acc < perThread \<or> is_last
      then (case take_run perThread is_last (acc + ch_owned c) cs of (run, rest) \<Rightarrow> (c # run, rest))
      else ([], c # cs))"

fun thread_runs :: "nat \<Rightarrow> nat \<Rightarrow> Chunk list \<Rightarrow> Chunk list list" where
  "thread_runs 0 perThread cs = []"
| "thread_runs (Suc k) perThread cs =
     (case take_run perThread (k = 0) 0 cs of (run, rest) \<Rightarrow> run # thread_runs k perThread rest)"

definition owned_total :: "Chunk list \<Rightarrow> nat" where
  "owned_total cs = sum_list (map ch_owned cs)"

definition partition_chunks :: "nat \<Rightarrow> Chunk list \<Rightarrow> Chunk list list" where
  "partition_chunks nThreads cs =
     (let perThread = (owned_total cs + nThreads - 1) div nThreads
      in thread_runs nThreads (if perThread = 0 then 1 else perThread) cs)"

definition chunk_hits :: "scan_env \<Rightarrow> ScanConfig \<Rightarrow> scan_proc \<Rightarrow> Chunk \<Rightarrow> hit list" where
  "chunk_hits env cfg proc c =
     (case sp_read proc (ch_base c) (ch_readLen c) of
        None \<Rightarrow> []
      | Some buf \<Rightarrow> if buf = [] then []
          else scanRegion env cfg buf (ch_base c) (min (length buf) (ch_owned c)))"

text \<open>\<open>cancelled ci\<close> is what the load of \<^verbatim>\<open>cancelled_\<close> in front of chunk \<open>ci\<close> gives.\<close>

fun worker_hits :: "scan_env \<Rightarrow> ScanConfig \<Rightarrow> scan_proc \<Rightarrow> (nat \<Rightarrow> bool) \<Rightarrow> nat \<Rightarrow> Chunk list \<Rightarrow> hit list" where
  "worker_hits env cfg proc cancelled ci [] = []"
| "worker_hits env cfg proc cancelled ci (c # cs) =
     (if cancelled ci then []
      else chunk_hits env cfg proc c @ worker_hits env cfg proc cancelled (Suc ci) cs)"

definition first_record :: "hit \<Rightarrow> record3" where
  "first_record h = (fst h, snd h, snd h)"

fun worker_records :: "scan_env \<Rightarrow> ScanConfig \<Rightarrow> scan_proc \<Rightarrow> (nat \<Rightarrow> bool) \<Rightarrow> nat \<Rightarrow> Chunk list list \<Rightarrow> record3 list list" where
  "worker_records env cfg proc cancelled ci [] = []"
| "worker_records env cfg proc cancelled ci (run # runs) =
     map first_record (worker_hits env cfg proc cancelled ci run) #
     worker_records env cfg proc cancelled (ci + length run) runs"

definition scan_ranges :: "scan_env \<Rightarrow> ScanConfig \<Rightarrow> scan_proc \<Rightarrow> nat \<Rightarrow> ranges" where
  "scan_ranges env cfg proc valueSize =
     concat (map (region_ranges (skip_untouched env cfg (max 1 (cf_alignment cfg)) (max 1 valueSize)) proc)
       (scan_regions cfg (sp_regions proc)))"

definition config_chunks :: "scan_env \<Rightarrow> ScanConfig \<Rightarrow> scan_proc \<Rightarrow> nat \<Rightarrow> Chunk list" where
  "config_chunks env cfg proc valueSize =
     scan_chunks (owned_len (chunk_bytes env) (max 1 (cf_alignment cfg))) (max 1 valueSize - 1)
       (scan_ranges env cfg proc valueSize)"

definition firstScan :: "scan_env \<Rightarrow> scan_proc \<Rightarrow> nat \<Rightarrow> (nat \<Rightarrow> bool) \<Rightarrow> string \<Rightarrow> ScanConfig \<Rightarrow> disk \<Rightarrow>
    string + disk \<times> ScanResult" where
  "firstScan env proc threadCount cancelled resultDir cfg d =
     (case first_scan_error cfg of
        Some e \<Rightarrow> Inl e
      | None \<Rightarrow>
        if sum_list (map r_size (scan_regions cfg (sp_regions proc))) = 0
        then Inr (empty_result d (resultDir @ ''/results'') False)
        else (case valueSizeForConfig (se_conv env) cfg of
            Inl e \<Rightarrow> Inl e
          | Inr valueSize \<Rightarrow>
              let chunks = config_chunks env cfg proc valueSize in
              if owned_total chunks = 0 then Inr (empty_result d (resultDir @ ''/results'') False)
              else
                let nThreads = min (if sp_concurrent proc then threadCount else 1) (max 1 (length chunks));
                    runs = partition_chunks nThreads chunks;
                    recss = worker_records env cfg proc cancelled 0 runs;
                    (d1, results) = open_results d False (map (thread_dir resultDir) [0..<nThreads]);
                    (d2, parts) = run_workers d1 (zip results recss)
                in Inr (assembleShardedResult d2 (resultDir @ ''/results'') parts)))"

section \<open>The partition over the threads\<close>

lemma take_run_append: "take_run per lst acc cs = (run, rest) \<Longrightarrow> run @ rest = cs"
  by (induction per lst acc cs arbitrary: run rest rule: take_run.induct) (auto split: if_splits prod.splits)

lemma take_run_last: "take_run per True acc cs = (run, rest) \<Longrightarrow> rest = []"
  by (induction per True acc cs arbitrary: run rest rule: take_run.induct) (auto split: prod.splits)

lemma thread_runs_concat: "0 < k \<Longrightarrow> concat (thread_runs k per cs) = cs \<and> length (thread_runs k per cs) = k"
proof (induction k per cs rule: thread_runs.induct)
  case (2 k per cs)
  obtain run rest where t: "take_run per (k = 0) 0 cs = (run, rest)" by fastforce
  show ?case
  proof (cases "k = 0")
    case True
    then show ?thesis using t take_run_append[OF t] take_run_last[of per 0 cs run rest] by simp
  next
    case False
    then show ?thesis using 2(1)[OF t[symmetric]] take_run_append[OF t] t by simp
  qed
qed simp

lemma partition_chunks_concat:
  "0 < k \<Longrightarrow> concat (partition_chunks k cs) = cs" "0 < k \<Longrightarrow> length (partition_chunks k cs) = k"
  by (simp_all add: partition_chunks_def Let_def thread_runs_concat)

lemma worker_hits_all:
  "\<forall>ci. \<not> cancelled ci \<Longrightarrow> worker_hits env cfg proc cancelled ci cs = concat (map (chunk_hits env cfg proc) cs)"
  by (induction cs arbitrary: ci) simp_all

lemma worker_records_all:
  "\<forall>ci. \<not> cancelled ci \<Longrightarrow> worker_records env cfg proc cancelled ci runs =
     map (\<lambda>run. map first_record (concat (map (chunk_hits env cfg proc) run))) runs"
  by (induction runs arbitrary: ci) (simp_all add: worker_hits_all)

section \<open>What the first scan finds\<close>

definition range_memory :: "(u64 \<Rightarrow> u8) \<Rightarrow> u64 \<times> u64 \<Rightarrow> bytes" where
  "range_memory mem rng = (case rng of (lo, hi) \<Rightarrow> map (\<lambda>i. mem (lo + of_nat i)) [0..<unat (hi - lo)])"

text \<open>The matches of a range: every offset of the grid whose window matches, in ascending order.\<close>

definition range_hits :: "scan_env \<Rightarrow> ScanConfig \<Rightarrow> nat \<Rightarrow> (u64 \<Rightarrow> u8) \<Rightarrow> u64 \<times> u64 \<Rightarrow> hit list" where
  "range_hits env cfg n mem rng = (case rng of (lo, hi) \<Rightarrow>
     if hi \<le> lo then []
     else plain_scan n (scan_grid cfg) (found_at env cfg n) (range_memory mem rng) lo (unat (hi - lo)))"

definition reads_memory :: "scan_proc \<Rightarrow> (u64 \<Rightarrow> u8) \<Rightarrow> u64 \<times> u64 \<Rightarrow> bool" where
  "reads_memory proc mem rng \<longleftrightarrow> (case rng of (lo, hi) \<Rightarrow>
     \<forall>i n. i + n \<le> unat (hi - lo) \<longrightarrow>
       sp_read proc (lo + of_nat i) n = Some (map (\<lambda>j. mem (lo + of_nat (i + j))) [0..<n]))"

lemma piece_range_memory:
  "i + n \<le> unat (hi - lo) \<Longrightarrow> piece i n (range_memory mem (lo, hi)) = map (\<lambda>j. mem (lo + of_nat (i + j))) [0..<n]"
  by (rule nth_equalityI) (simp_all add: piece_def range_memory_def)

lemma range_chunks_hits:
  assumes "local_scan (scanRegion env cfg) n (scan_grid cfg) (found_at env cfg n)"
    "0 < ownedLen" "scan_grid cfg dvd ownedLen" "reads_memory proc mem rng"
  shows "concat (map (chunk_hits env cfg proc) (range_chunks ownedLen (n - 1) rng)) = range_hits env cfg n mem rng"
proof -
  obtain lo hi where rng: "rng = (lo, hi)" by (cases rng)
  show ?thesis
  proof (cases "hi \<le> lo")
    case True
    then show ?thesis by (simp add: rng range_chunks_def range_hits_def)
  next
    case False
    let ?m = "range_memory mem (lo, hi)" and ?size = "unat (hi - lo)"
    have len: "length ?m = ?size" by (simp add: range_memory_def)
    have "chunk_hits env cfg proc \<lparr>ch_base = lo + of_nat ws, ch_owned = min ownedLen (?size - ws),
          ch_readLen = min (ownedLen + (n - 1)) (?size - ws)\<rparr> =
        scanRegion env cfg (piece ws (min (ownedLen + (n - 1)) (?size - ws)) ?m) (lo + of_nat ws) (min ownedLen (?size - ws))"
      if "ws \<in> set (strides ownedLen ?size 0)" for ws
    proof -
      have ws: "ws < ?size" using strides_less[OF that assms(2)] .
      let ?n = "min (ownedLen + (n - 1)) (?size - ws)"
      have fits: "ws + ?n \<le> ?size" using ws by auto
      have rd: "sp_read proc (lo + of_nat ws) ?n = Some (piece ws ?n ?m)"
        using assms(4) fits piece_range_memory[OF fits] by (simp add: reads_memory_def rng)
      have l: "length (piece ws ?n ?m) = ?n" using fits by (simp add: piece_def len)
      have "0 < ?n" using ws assms(2) by simp
      then have "piece ws ?n ?m \<noteq> []" using l by fastforce
      moreover have "min ?n (min ownedLen (?size - ws)) = min ownedLen (?size - ws)" by simp
      ultimately show ?thesis using rd l by (simp only: chunk_hits_def Chunk.simps option.case if_False)
    qed
    then have "concat (map (chunk_hits env cfg proc) (range_chunks ownedLen (n - 1) rng)) =
        concat (map (\<lambda>ws. scanRegion env cfg (piece ws (min (ownedLen + (n - 1)) (?size - ws)) ?m) (lo + of_nat ws)
          (min ownedLen (?size - ws))) (strides ownedLen ?size 0))"
      using False by (simp add: rng range_chunks_def Let_def comp_def cong: map_cong)
    also have "\<dots> = plain_scan n (scan_grid cfg) (found_at env cfg n) ?m lo ?size"
      using local_scan.chunks_report_all[OF assms(1-3), of ?m lo] by (simp only: len)
    finally show ?thesis using False by (simp add: rng range_hits_def)
  qed
qed

lemma owned_len_props: "0 < al \<Longrightarrow> 0 < owned_len k al" "0 < al \<Longrightarrow> al dvd owned_len k al"
  by (auto simp: owned_len_def Let_def)

text \<open>The only scan whose grid is not the alignment is the one for UTF-16 text.\<close>

definition grid_kept :: "scan_env \<Rightarrow> ScanConfig \<Rightarrow> bool" where
  "grid_kept env cfg \<longleftrightarrow>
     (cf_type cfg = VUnicodeString \<longrightarrow> even (owned_len (chunk_bytes env) (max 1 (cf_alignment cfg))))"

lemma grid_dvd_owned: "grid_kept env cfg \<Longrightarrow> scan_grid cfg dvd owned_len (chunk_bytes env) (max 1 (cf_alignment cfg))"
  using owned_len_props(2)[of "max 1 (cf_alignment cfg)"]
  by (auto simp: grid_kept_def scan_grid_def less_max_iff_disj split: ValueType.splits)

lemma config_chunks_hits:
  assumes "valueSizeForConfig (se_conv env) cfg = Inr n" "floats_ok env cfg" "grid_kept env cfg"
    "\<forall>rng \<in> set (scan_ranges env cfg proc n). reads_memory proc mem rng"
  shows "concat (map (chunk_hits env cfg proc) (config_chunks env cfg proc n)) =
    concat (map (range_hits env cfg n mem) (scan_ranges env cfg proc n))"
proof -
  let ?L = "owned_len (chunk_bytes env) (max 1 (cf_alignment cfg))"
  have n: "max 1 n - 1 = n - 1" by simp
  have L: "0 < ?L" using owned_len_props(1)[of "max 1 (cf_alignment cfg)"] by (simp add: less_max_iff_disj)
  have "concat (map (chunk_hits env cfg proc) (range_chunks ?L (n - 1) rng)) = range_hits env cfg n mem rng"
    if "rng \<in> set (scan_ranges env cfg proc n)" for rng
    using range_chunks_hits[OF scanRegion_local[OF assms(1,2)] L grid_dvd_owned[OF assms(3)]] assms(4) that by blast
  then show ?thesis
    unfolding config_chunks_def scan_chunks_def n concat_map_concat[symmetric]
    by (intro arg_cong[where f = concat] map_cong) simp_all
qed

lemma range_chunks_empty: "0 < ownedLen \<Longrightarrow> owned_total (range_chunks ownedLen ov rng) = 0 \<longleftrightarrow> snd rng \<le> fst rng"
  by (cases rng) (auto simp: range_chunks_def owned_total_def Let_def strides.simps[of _ _ 0] word_less_nat_alt unat_gt_0
      sum_list_eq_0_iff)

lemma no_chunks_no_hits:
  assumes "owned_total (config_chunks env cfg proc n) = 0"
  shows "concat (map (range_hits env cfg n mem) (scan_ranges env cfg proc n)) = []"
proof -
  let ?L = "owned_len (chunk_bytes env) (max 1 (cf_alignment cfg))"
  have L: "0 < ?L" using owned_len_props(1)[of "max 1 (cf_alignment cfg)"] by (simp add: less_max_iff_disj)
  have "owned_total (range_chunks ?L (max 1 n - 1) rng) = 0" if "rng \<in> set (scan_ranges env cfg proc n)" for rng
    using assms that by (auto simp: config_chunks_def scan_chunks_def owned_total_def sum_list_eq_0_iff)
  then have "snd rng \<le> fst rng" if "rng \<in> set (scan_ranges env cfg proc n)" for rng
    using that range_chunks_empty[OF L] by blast
  then show ?thesis by (auto simp: range_hits_def split: prod.splits)
qed

lemma clip_region_nonempty: "clip_region cfg r = Some r' \<Longrightarrow> r_size r' \<noteq> 0"
  by (auto simp: clip_region_def Let_def split: if_splits)

lemma no_regions:
  assumes "sum_list (map r_size (scan_regions cfg rs)) = 0" "sum_list (map (\<lambda>r. unat (r_size r)) (scan_regions cfg rs)) < 2 ^ 64"
  shows "scan_regions cfg rs = []"
proof (rule ccontr)
  let ?rs = "scan_regions cfg rs"
  have "unat (sum_list (map r_size xs)) = sum_list (map (\<lambda>r. unat (r_size r)) xs)"
    if "sum_list (map (\<lambda>r. unat (r_size r)) xs) < 2 ^ 64" for xs
    using that by (induction xs) (simp_all add: unat_word_ariths)
  from this[OF assms(2)] have z: "\<forall>r \<in> set ?rs. unat (r_size r) = 0" using assms(1) by (simp add: sum_list_eq_0_iff)
  assume "?rs \<noteq> []"
  then obtain r where r: "r \<in> set ?rs" by (cases ?rs) auto
  then obtain r0 where "clip_region cfg r0 = Some r" by (auto simp: scan_regions_def List.map_filter_def)
  from clip_region_nonempty[OF this] z r show False by (simp add: unat_eq_0)
qed

lemma first_hits_plain:
  assumes "valueSizeForConfig (se_conv env) cfg = Inr n" "h \<in> set (range_hits env cfg n mem rng)"
  shows "length (snd h) = n"
proof -
  have "length v = n" if "v \<in> set (found_at env cfg n w)" for v w
    using that assms(1)
    by (auto simp: found_at_def all_found_def window8_def Let_def valueSizeForConfig_def split: if_splits)
  then show ?thesis using assms(2) by (auto simp: range_hits_def plain_scan_def split: prod.splits if_splits)
qed

lemma fmt_dec_inj: "fmt_dec a = fmt_dec b \<Longrightarrow> a = b"
  using scan_digits_fmt_dec[of "[]" a] scan_digits_fmt_dec[of "[]" b] by (simp add: text_simps)

lemma thread_dirs: "distinct (map (thread_dir dir) is)" if "distinct is"
  using that fmt_dec_inj by (auto simp: distinct_map inj_on_def thread_dir_def)

definition scan_dir_ok :: "disk \<Rightarrow> string \<Rightarrow> bool" where
  "scan_dir_ok d dir \<longleftrightarrow> CHR 0x0A \<notin> set dir \<and> fresh d (dir @ ''/results'') \<and> (\<forall>t. fresh d (thread_dir dir t))"

lemma empty_result_holds:
  assumes "fresh d dir" "empty_result d dir sf = (d', r)" "\<not> sr_writeError r"
  shows "result_holds d' n r []"
  using write_result_result[OF assms(1), of sf "[]" d' r n] assms(2,3) by (simp add: write_result_def empty_result_def)

lemma first_scan_holds:
  assumes run: "firstScan env proc threads cancelled dir cfg d = Inr (d', r)" "\<not> sr_writeError r"
    and size_n: "valueSizeForConfig (se_conv env) cfg = Inr n" and ok: "floats_ok env cfg" "grid_kept env cfg"
    and mem: "\<forall>rng \<in> set (scan_ranges env cfg proc n). reads_memory proc mem rng"
    and live: "\<forall>ci. \<not> cancelled ci" "0 < threads" and dir: "scan_dir_ok d dir"
    and room: "sum_list (map (\<lambda>r. unat (r_size r)) (scan_regions cfg (sp_regions proc))) < 2 ^ 64"
      "length (concat (map (range_hits env cfg n mem) (scan_ranges env cfg proc n))) < 2 ^ 64"
  shows "result_holds d' n r (map first_record (concat (map (range_hits env cfg n mem) (scan_ranges env cfg proc n)))) \<and>
    (sr_count r \<noteq> 0 \<longrightarrow> result_loaded d' r \<and> sh_dir ` set (sr_shards r) \<subseteq> range (thread_dir dir))"
proof -
  let ?hits = "concat (map (range_hits env cfg n mem) (scan_ranges env cfg proc n))"
  let ?res = "dir @ ''/results''"
  have fr: "fresh d ?res" using dir by (simp add: scan_dir_ok_def)
  have noerr: "first_scan_error cfg = None" using run(1) by (cases "first_scan_error cfg") (simp_all add: firstScan_def)
  consider (none) "sum_list (map r_size (scan_regions cfg (sp_regions proc))) = 0"
    | (empty) "sum_list (map r_size (scan_regions cfg (sp_regions proc))) \<noteq> 0" "owned_total (config_chunks env cfg proc n) = 0"
    | (some) "sum_list (map r_size (scan_regions cfg (sp_regions proc))) \<noteq> 0" "owned_total (config_chunks env cfg proc n) \<noteq> 0"
    by blast
  then show ?thesis
  proof cases
    case none
    have e: "?hits = []" using no_regions[OF none room(1)] by (simp add: scan_ranges_def)
    show ?thesis unfolding e list.map using empty_result_holds[OF fr] none run noerr by (simp add: firstScan_def result_holds_def)
  next
    case empty
    have e: "?hits = []" using no_chunks_no_hits[OF empty(2)] .
    show ?thesis unfolding e list.map using empty_result_holds[OF fr] empty run noerr size_n by (simp add: firstScan_def result_holds_def)
  next
    case some
    let ?cs = "config_chunks env cfg proc n"
    define k where "k = min (if sp_concurrent proc then threads else 1) (max 1 (length ?cs))"
    define runs where "runs = partition_chunks k ?cs"
    define recss where "recss = worker_records env cfg proc cancelled 0 runs"
    let ?dirs = "map (thread_dir dir) [0..<k]"
    have k: "0 < k" using live(2) by (auto simp: k_def)
    obtain d1 rs where o: "open_results d False ?dirs = (d1, rs)" by fastforce
    obtain d2 parts where w: "run_workers d1 (zip rs recss) = (d2, parts)" by fastforce
    have a: "assembleShardedResult d2 ?res parts = (d', r)"
      using run(1) noerr some size_n o w by (simp add: firstScan_def Let_def k_def[symmetric] runs_def[symmetric] recss_def[symmetric] del: One_nat_def)
    have recss: "recss = map (\<lambda>run. map first_record (concat (map (chunk_hits env cfg proc) run))) runs"
      unfolding recss_def using worker_records_all[OF live(1)] by blast
    have "concat recss = map first_record (concat (map (chunk_hits env cfg proc) (concat runs)))"
      unfolding recss by (induction runs) simp_all
    then have all: "concat recss = map first_record ?hits"
      using partition_chunks_concat(1)[OF k] config_chunks_hits[OF size_n ok mem] by (simp add: runs_def)
    have lens: "length recss = length ?dirs" using partition_chunks_concat(2)[OF k] by (simp add: recss runs_def)
    have "plain_records n False recs" if "recs \<in> set recss" for recs
    proof -
      have "set recs \<subseteq> set (map first_record ?hits)" using that by (auto simp: all[symmetric])
      moreover have "length recs \<le> length (map first_record ?hits)"
        using that unfolding all[symmetric] length_concat by (intro member_le_sum_list) auto
      ultimately show ?thesis
        using room(2) first_hits_plain[OF size_n] by (fastforce simp: plain_records_def first_record_def)
    qed
    moreover have "\<forall>x \<in> set ?dirs. CHR 0x0A \<notin> set x"
      using dir fmt_dec_plain by (auto simp: scan_dir_ok_def thread_dir_def)
    moreover have "list_all2 (ready d1 False) rs ?dirs"
      using open_results_ready[OF o] thread_dirs[of "[0..<k]"] dir by (auto simp: scan_dir_ok_def)
    ultimately have parts: "list_all2 (part_holds d2 n) parts recss" "map sr_dir parts = ?dirs"
      using run_workers_parts[where sf = False and n = n, OF _ thread_dirs lens w] run_workers_errors[OF a run(2)] by auto
    have "sr_dir ` set parts = set ?dirs" unfolding parts(2)[symmetric] by simp
    then have "result_loaded d' r \<and> sh_dir ` set (sr_shards r) \<subseteq> range (thread_dir dir)"
      using assemble_loaded[OF parts(1) a run(2)] by auto
    with assemble_holds[OF parts(1) a run(2)] show ?thesis by (simp only: all) blast
  qed
qed

text \<open>
  C1: When a first scan completes without a write error, its result lists exactly the matches of the
  selected memory, each once and in the order of the ranges and of the addresses inside a range: for
  every range, every offset of the grid whose window satisfies the configuration, with the bytes
  found there. The split into chunks, the overlap between them, the threads and the shards on disk
  neither lose nor repeat a match. This supposes that the selected ranges are read completely
  (\<open>reads_memory\<close>), that the scan is not cancelled, that the result directories hold
  no earlier result and their files can be opened (\<open>scan_dir_ok\<close>), that a chunk owns an
  even number of bytes when UTF-16 text is scanned for (\<open>grid_kept\<close>), and for floating
  values the documented behaviour of \<open>pow10\<close> and a tolerance within the exact range
  (\<open>floats_ok\<close>); ranges and matches number less than \<open>2 ^ 64\<close>. Which
  ranges are selected and skipped (\<open>scan_ranges\<close>) is the subject of the theorems of the
  skipping theory.
\<close>

theorem first_scan_finds:
  assumes "firstScan env proc threads cancelled dir cfg d = Inr (d', r)" "\<not> sr_writeError r"
    "valueSizeForConfig (se_conv env) cfg = Inr n" "floats_ok env cfg" "grid_kept env cfg"
    "\<forall>rng \<in> set (scan_ranges env cfg proc n). reads_memory proc mem rng"
    "\<forall>ci. \<not> cancelled ci" "0 < threads" "scan_dir_ok d dir"
    "sum_list (map (\<lambda>r. unat (r_size r)) (scan_regions cfg (sp_regions proc))) < 2 ^ 64"
    "length (concat (map (range_hits env cfg n mem) (scan_ranges env cfg proc n))) < 2 ^ 64"
    "i < length (concat (map (range_hits env cfg n mem) (scan_ranges env cfg proc n)))"
  shows "sr_count r = length (concat (map (range_hits env cfg n mem) (scan_ranges env cfg proc n))) \<and>
    (result_address d' r i, result_value d' r i n buf) = concat (map (range_hits env cfg n mem) (scan_ranges env cfg proc n)) ! i \<and>
    result_firstValue d' r i n buf = result_value d' r i n buf"
proof -
  from first_scan_holds[OF assms(1-11), THEN conjunct1]
  have h: "result_holds d' n r (map first_record (concat (map (range_hits env cfg n mem) (scan_ranges env cfg proc n))))" .
  from result_index[OF h, of i] assms(12) h show ?thesis
    by (simp add: first_record_def result_holds_def prod_eq_iff)
qed

definition demo_env :: scan_env where
  "demo_env = \<lparr>se_mode = SSE2, se_pow10 = one_below, se_conv = (\<lambda>_ _. Inl ''iconv''), se_formula = (\<lambda>_ _ _ _. None),
     se_l2cache = 0, se_pageSize = 4096, se_chunkKb = None, se_pagemap = Some ''off''\<rparr>"

definition demo_mem :: "u64 \<Rightarrow> u8" where
  "demo_mem a = (if a = 0x1004 then 7 else 0)"

definition demo_proc :: scan_proc where
  "demo_proc = \<lparr>sp_regions = [\<lparr>r_base = 0x1000, r_size = 12, r_protection = ProtRead, r_type = Private, r_state = Committed,
     r_path = []\<rparr>], sp_resident = (\<lambda>b s. [(b, b + s)]), sp_concurrent = False,
     sp_read = (\<lambda>a n. Some (map (\<lambda>j. demo_mem (a + of_nat j)) [0..<n]))\<rparr>"

definition demo_cfg :: ScanConfig where
  "demo_cfg = default_config\<lparr>cf_int := 7\<rparr>"

lemma demo_regions: "scan_regions demo_cfg (sp_regions demo_proc) = sp_regions demo_proc"
  by code_simp

lemma demo_ranges: "scan_ranges demo_env demo_cfg demo_proc 4 = [(0x1000, 0x100C)]"
  unfolding scan_ranges_def demo_regions by (simp add: demo_proc_def demo_env_def region_ranges_def skip_untouched_def Let_def)

lemma demo_chunks: "config_chunks demo_env demo_cfg demo_proc 4 = [\<lparr>ch_base = 0x1000, ch_owned = 12, ch_readLen = 12\<rparr>]"
  unfolding config_chunks_def demo_ranges
  by (simp add: scan_chunks_def range_chunks_def owned_len_def chunk_bytes_def demo_env_def demo_cfg_def default_config_def
      strides.simps[of _ _ 0] strides.simps[of _ _ "131072"])

lemma demo_hits: "range_hits demo_env demo_cfg 4 demo_mem (0x1000, 0x100C) = [(0x1004, [7, 0, 0, 0])]"
  by code_simp

theorem first_scan_finds_witness:
  "\<exists>d' r. firstScan demo_env demo_proc 2 (\<lambda>_. False) ''s'' demo_cfg (empty_disk 1000) = Inr (d', r) \<and>
     sr_count r = 1 \<and> result_address d' r 0 = 0x1004 \<and> result_value d' r 0 4 [] = [7, 0, 0, 0]"
proof -
  let ?h = "concat (map (range_hits demo_env demo_cfg 4 demo_mem) (scan_ranges demo_env demo_cfg demo_proc 4))"
  let ?parts = "run_workers (fst (open_results (empty_disk 1000) False [''s/t0'']))
     (zip (snd (open_results (empty_disk 1000) False [''s/t0'']))
        [map first_record (chunk_hits demo_env demo_cfg demo_proc \<lparr>ch_base = 0x1000, ch_owned = 12, ch_readLen = 12\<rparr>)])"
  have h: "?h = [(0x1004, [7, 0, 0, 0])]" by (simp add: demo_ranges demo_hits)
  have cfg: "first_scan_error demo_cfg = None" "valueSizeForConfig (se_conv demo_env) demo_cfg = Inr 4"
    by (simp_all add: first_scan_error_def valueSizeForConfig_def demo_cfg_def default_config_def)
  have regions: "sum_list (map r_size (sp_regions demo_proc)) = 12" "sum_list (map (\<lambda>r. unat (r_size r)) (sp_regions demo_proc)) = 12"
    "\<not> sp_concurrent demo_proc"
    by (simp_all add: demo_proc_def)
  have parts: "partition_chunks 1 [c] = [[c]]" for c
    using partition_chunks_concat[of 1 "[c]"] by (auto simp: length_Suc_conv)
  have run: "firstScan demo_env demo_proc 2 (\<lambda>_. False) ''s'' demo_cfg (empty_disk 1000) =
      Inr (assembleShardedResult (fst ?parts) ''s/results'' (snd ?parts))"
    by (simp add: firstScan_def cfg demo_regions regions demo_chunks owned_total_def parts[simplified] thread_dir_def fmt_dec_zero
        case_prod_beta Let_def)
  have "\<not> dk_denied (fst ?parts) (''s/results'', ShardsTxt) \<and>
      \<not> snd (write_manifest ''s/results'' (snd ?parts) ((fst ?parts)\<lparr>dk_files := (dk_files (fst ?parts))((''s/results'', ShardsTxt) := Some [])\<rparr>, False))"
    by code_simp
  then have noerr: "\<not> sr_writeError (snd (assembleShardedResult (fst ?parts) ''s/results'' (snd ?parts)))"
    using assemble_writeError by blast
  have dir: "scan_dir_ok (empty_disk 1000) ''s''" by (simp add: scan_dir_ok_def empty_disk_fresh)
  have mem: "\<forall>rng \<in> set (scan_ranges demo_env demo_cfg demo_proc 4). reads_memory demo_proc demo_mem rng"
    by (simp add: reads_memory_def demo_proc_def add.assoc split: prod.splits)
  have other: "floats_ok demo_env demo_cfg" "grid_kept demo_env demo_cfg"
    by (simp_all add: floats_ok_def grid_kept_def demo_cfg_def default_config_def)
  obtain d' r where a: "assembleShardedResult (fst ?parts) ''s/results'' (snd ?parts) = (d', r)" by fastforce
  have run': "firstScan demo_env demo_proc 2 (\<lambda>_. False) ''s'' demo_cfg (empty_disk 1000) = Inr (d', r)"
    unfolding run a ..
  have "\<not> sr_writeError r" using noerr unfolding a by simp
  from first_scan_finds[OF run' this cfg(2) other mem _ _ dir, of 0 "[]"]
  show ?thesis unfolding h demo_regions regions using run' by simp
qed

end
