(* ===== verification/Scan_Skip.thy ===== *)
theory Scan_Skip
  imports Scan_First
begin

text \<open>
  Skipping pages that were never touched (\<^verbatim>\<open>skipNonResident\<close> of \<^verbatim>\<open>firstScan\<close>).  A page of an anonymous
  region that is neither resident nor swapped reads as zeros; the scan leaves such pages out when its
  probe finds no match in zeros and no value can straddle a page.  The theorem says that this loses
  no match for the scans whose grid is the alignment; the last lemmas show the two cases where the
  guard does not protect the scan.
\<close>

section \<open>The grid of a region and the grids of its ranges\<close>

fun ascending :: "nat \<Rightarrow> (nat \<times> nat) list \<Rightarrow> nat \<Rightarrow> bool" where
  "ascending p [] m = (p \<le> m)"
| "ascending p ((a, b) # rs) m = (p \<le> a \<and> a \<le> b \<and> b \<le> m \<and> ascending b rs m)"

definition in_some :: "(nat \<times> nat) list \<Rightarrow> nat \<Rightarrow> bool" where
  "in_some rs i = (\<exists>(a, b) \<in> set rs. a \<le> i \<and> i < b)"

lemma in_some_simps [simp]: "\<not> in_some [] i" "in_some ((a, b) # rs) i \<longleftrightarrow> (a \<le> i \<and> i < b) \<or> in_some rs i"
  by (auto simp: in_some_def)

lemma ascending_bounds: "ascending p rs m \<Longrightarrow> p \<le> m \<and> (\<forall>(a, b) \<in> set rs. p \<le> a \<and> a \<le> b \<and> b \<le> m)"
  by (induction p rs m rule: ascending.induct) force+

lemma in_some_ge: "ascending p rs m \<Longrightarrow> in_some rs i \<Longrightarrow> p \<le> i"
  using ascending_bounds[of p rs m] by (fastforce simp: in_some_def)

lemma strides_members: "0 < al \<Longrightarrow> al dvd p \<Longrightarrow> i \<in> set (strides al m p) \<Longrightarrow> p \<le> i \<and> i < m \<and> al dvd i"
  by (auto simp: strides_filter) (metis dvd_diffD dvd_eq_mod_eq_0)

lemma concat_map_Nil: "(\<And>x. x \<in> set xs \<Longrightarrow> f x = []) \<Longrightarrow> concat (map f xs) = []"
  by simp

lemma strides_ranges:
  assumes "0 < al"
  shows "ascending p rs m \<Longrightarrow> al dvd p \<or> p = m \<Longrightarrow> \<forall>(a, b) \<in> set rs. al dvd a \<and> (al dvd b \<or> b = m) \<Longrightarrow>
    (\<And>i. p \<le> i \<Longrightarrow> i < m \<Longrightarrow> al dvd i \<Longrightarrow> \<not> in_some rs i \<Longrightarrow> f i = []) \<Longrightarrow>
    concat (map f (strides al m p)) = concat (map (\<lambda>(a, b). concat (map (\<lambda>i. f (a + i)) (strides al (b - a) 0))) rs)"
proof (induction rs arbitrary: p)
  case Nil
  have "f i = []" if "i \<in> set (strides al m p)" for i
  proof (cases "p = m")
    case True
    then show ?thesis using that by (simp add: strides.simps)
  next
    case False
    then show ?thesis using Nil.prems(2,4) strides_members[OF assms _ that] by simp
  qed
  then show ?case by simp
next
  case (Cons r rs)
  obtain a b where r: "r = (a, b)" by (cases r)
  have asc: "p \<le> a" "a \<le> b" "b \<le> m" "ascending b rs m" using Cons.prems(1) by (simp_all add: r)
  have al: "al dvd a" "al dvd b \<or> b = m" using Cons.prems(3) by (simp_all add: r)
  have head: "concat (map f (strides al m p)) = concat (map f (strides al m a))"
  proof (cases "p = a")
    case False
    then have p: "al dvd p" "p \<noteq> m" using Cons.prems(2) asc by auto
    have "f i = []" if "i \<in> set (strides al a p)" for i
    proof -
      have i: "p \<le> i" "i < a" "al dvd i" using strides_members[OF assms p(1) that] by auto
      then have "\<not> in_some (r # rs) i" using in_some_ge[OF asc(4)] asc(2) by (fastforce simp: r)
      then show ?thesis using Cons.prems(4) i asc by simp
    qed
    then have "concat (map f (strides al a p)) = []" by (rule concat_map_Nil)
    moreover have "strides al m p = strides al a p @ strides al m a"
      using strides_append[OF assms, of "a - p" p m] p(1) al(1) asc by (simp add: min_absorb2)
    ultimately show ?thesis by simp
  qed simp
  have this_range: "strides al b a = map (\<lambda>i. a + i) (strides al (b - a) 0)"
    using strides_shift[OF assms, of a "b - a"] asc(2) by simp
  have tail: "strides al m a = strides al b a @ strides al m b"
  proof (cases "b = m")
    case True
    then show ?thesis by (simp add: strides.simps[of al m m])
  next
    case False
    then show ?thesis using strides_append[OF assms, of "b - a" a m] al asc by (simp add: min_absorb2)
  qed
  have "concat (map f (strides al m b)) = concat (map (\<lambda>(a, b). concat (map (\<lambda>i. f (a + i)) (strides al (b - a) 0))) rs)"
    using Cons.IH[OF asc(4) al(2)] Cons.prems(3,4) asc by (auto simp: r)
  then show ?case by (simp add: head tail this_range r comp_def)
qed

section \<open>No match is lost\<close>

definition probe_finds_nothing :: "scan_env \<Rightarrow> ScanConfig \<Rightarrow> nat \<Rightarrow> bool" where
  "probe_finds_nothing env cfg n = (found_at env cfg n (replicate n 0) = [])"

lemma skip_untouched_probe:
  assumes "skip_untouched env cfg al n" "valueSizeForConfig (se_conv env) cfg = Inr n" "floats_ok env cfg"
  shows "probe_finds_nothing env cfg n \<and> n \<le> al \<and> al dvd nat (se_pageSize env)"
proof -
  let ?z = "replicate (max (n * 4) 64) (0 :: u8)"
  note loc = scanRegion_local[OF assms(2,3)]
  have s: "scanRegion env cfg ?z 0x1000 (length ?z) = []" "n \<le> al" "nat (se_pageSize env) mod al = 0"
    using assms(1) by (auto simp: skip_untouched_def Let_def split: if_splits)
  have "strides (scan_grid cfg) (length ?z) 0 = 0 # strides (scan_grid cfg) (length ?z) (scan_grid cfg)"
    using local_scan.grid_pos[OF loc] by (simp add: strides.simps[of _ _ 0])
  then have "found_at env cfg n (piece 0 n ?z) = []"
    using s(1) local_scan.windows[OF loc, of "length ?z" ?z "0x1000"] local_scan.width[OF loc] by (simp add: plain_scan_def)
  moreover have "piece 0 n ?z = replicate n 0" by (simp add: piece_def min_def)
  ultimately show ?thesis using s by (simp add: probe_finds_nothing_def dvd_eq_mod_eq_0)
qed

text \<open>
  The resident ranges of a region, as offsets from its base: in order, cut at pages except where they
  are cut by the region, and everything else reads as zeros.
\<close>

definition resident_pages :: "nat \<Rightarrow> (u64 \<Rightarrow> u8) \<Rightarrow> u64 \<Rightarrow> nat \<Rightarrow> (nat \<times> nat) list \<Rightarrow> bool" where
  "resident_pages page mem base m rs \<longleftrightarrow>
     ascending 0 rs m \<and>
     (\<forall>(a, b) \<in> set rs. (a = 0 \<or> page dvd unat base + a) \<and> (b = m \<or> page dvd unat base + b)) \<and>
     (\<forall>i < m. \<not> in_some rs i \<longrightarrow> mem (base + of_nat i) = 0)"

lemma multiples_le: "al dvd a \<Longrightarrow> al dvd i \<Longrightarrow> a < i + al \<Longrightarrow> a \<le> (i :: nat)"
proof (elim dvdE)
  fix x y assume "a = al * x" "i = al * y" "a < i + al"
  then have "al * x < al * Suc y" by simp
  then have "x < Suc y" by (simp only: mult_less_cancel1)
  then show ?thesis using \<open>a = al * x\<close> \<open>i = al * y\<close> by simp
qed

lemma multiples_fit: "al dvd i \<Longrightarrow> al dvd m \<Longrightarrow> i < m \<Longrightarrow> i + al \<le> (m :: nat)"
proof (elim dvdE)
  fix x y assume e: "i = al * x" "m = al * y" "i < m"
  then have "Suc x \<le> y" by (simp only: mult_less_cancel1) simp
  then have "al * Suc x \<le> al * y" by (rule mult_le_mono2)
  then show ?thesis using e by simp
qed

lemma offset_diff: "a \<le> b \<Longrightarrow> b < 2 ^ 64 \<Longrightarrow> unat (lo + of_nat b - (lo + of_nat a) :: u64) = b - a"
proof -
  assume "a \<le> b" "b < 2 ^ 64"
  have "lo + of_nat b - (lo + of_nat a) = (of_nat (b - a) :: u64)" using of_nat_diff[OF \<open>a \<le> b\<close>, where 'a = "64 word"] by simp
  then show ?thesis using \<open>b < 2 ^ 64\<close> by (simp add: unat_u64_of_nat)
qed

lemma range_memory_part:
  "a \<le> b \<Longrightarrow> b \<le> unat (hi - lo) \<Longrightarrow> range_memory mem (lo + of_nat a, lo + of_nat b) = piece a (b - a) (range_memory mem (lo, hi))"
proof -
  assume "a \<le> b" "b \<le> unat (hi - lo)"
  then have "b < 2 ^ 64" using unat_u64_less[of "hi - lo"] by simp
  then have "unat (lo + of_nat b - (lo + of_nat a)) = b - a"
    using \<open>a \<le> b\<close> by (intro offset_diff)
  moreover have "a + i < unat (hi - lo)" if "i < b - a" for i using that \<open>b \<le> unat (hi - lo)\<close> by simp
  ultimately show ?thesis
    using \<open>a \<le> b\<close> \<open>b \<le> unat (hi - lo)\<close>
    by (intro nth_equalityI) (simp_all add: range_memory_def piece_def add.assoc)
qed

lemma skip_keeps_hits:
  assumes skip: "skip_untouched env cfg al n" "al = max 1 (cf_alignment cfg)" "scan_grid cfg = al"
    and cfg: "valueSizeForConfig (se_conv env) cfg = Inr n" "floats_ok env cfg"
    and region: "unat base + m < 2 ^ 64" "0 < m" "al dvd unat base"
    and pages: "resident_pages (nat (se_pageSize env)) mem base m rs"
  shows "concat (map (range_hits env cfg n mem) (map (\<lambda>(a, b). (base + of_nat a, base + of_nat b)) rs)) =
    range_hits env cfg n mem (base, base + of_nat m)"
proof -
  have probe: "found_at env cfg n (replicate n 0) = []" "n \<le> al" "al dvd nat (se_pageSize env)"
    using skip_untouched_probe[OF skip(1) cfg] by (simp_all add: probe_finds_nothing_def)
  have al: "0 < al" using skip(2) by simp
  have m: "unat (of_nat m :: u64) = m" using region(1) by (simp add: unat_u64_of_nat)
  let ?M = "range_memory mem (base, base + of_nat m)"
  have len: "length ?M = m" by (simp add: range_memory_def m)
  define f where "f off = map (\<lambda>v. (base + of_nat off, v)) (found_at env cfg n (piece off n ?M))" for off
  have asc: "ascending 0 rs m" using pages by (simp add: resident_pages_def)
  have ends: "al dvd a \<and> (al dvd b \<or> b = m)" if "(a, b) \<in> set rs" for a b
  proof -
    have "al dvd c" if "nat (se_pageSize env) dvd unat base + c" for c
      using dvd_trans[OF probe(3) that] region(3) by (metis dvd_add_right_iff)
    then show ?thesis using pages that by (fastforce simp: resident_pages_def)
  qed
  have untouched: "f i = []" if i: "i < m" "al dvd i" "\<not> in_some rs i" for i
  proof (cases "i + n \<le> m")
    case True
    have "mem (base + of_nat (i + j)) = 0" if "j < n" for j
    proof -
      have "\<not> in_some rs (i + j)"
      proof
        assume "in_some rs (i + j)"
        then obtain a b where ab: "(a, b) \<in> set rs" "a \<le> i + j" "i + j < b" by (auto simp: in_some_def)
        have "a < i + al" using ab(2) that probe(2) by simp
        then have "a \<le> i" using ends[OF ab(1)] i(2) multiples_le by blast
        then show False using ab i(3) by (auto simp: in_some_def)
      qed
      moreover have "i + j < m" using True that by simp
      moreover have "\<forall>i < m. \<not> in_some rs i \<longrightarrow> mem (base + of_nat i) = 0" using pages unfolding resident_pages_def by blast
      ultimately show ?thesis by blast
    qed
    moreover have "piece i n ?M = map (\<lambda>j. mem (base + of_nat (i + j))) [0..<n]"
      using piece_range_memory[of i n "base + of_nat m" base mem] True m by simp
    ultimately have "piece i n ?M = replicate n 0" by (simp add: list_eq_iff_nth_eq)
    then show ?thesis using probe(1) by (simp add: f_def)
  next
    case False
    have zeros: "piece i n ?M = replicate (m - i) 0" and short: "m - i \<le> n" "m - i \<noteq> n"
    proof -
      have "\<not> in_some rs (i + j)" if "j < m - i" for j
      proof
        assume "in_some rs (i + j)"
        then obtain a b where ab: "(a, b) \<in> set rs" "a \<le> i + j" "i + j < b" by (auto simp: in_some_def)
        have "a < i + al" using ab(2) that probe(2) False by simp
        then have "a \<le> i" using ends[OF ab(1)] i(2) multiples_le by blast
        then show False using ab i(3) by (auto simp: in_some_def)
      qed
      moreover have "\<forall>i < m. \<not> in_some rs i \<longrightarrow> mem (base + of_nat i) = 0" using pages unfolding resident_pages_def by blast
      ultimately have zero: "mem (base + of_nat (i + j)) = 0" if "j < m - i" for j
        using that by (metis add.commute less_diff_conv)
      have "piece i n ?M = drop i ?M" using False by (simp add: piece_def len)
      also have "\<dots> = replicate (m - i) 0"
      proof (rule nth_equalityI)
        fix j
        assume "j < length (drop i ?M)"
        then have j: "j < m - i" "i + j < m" by (simp_all add: len)
        then show "drop i ?M ! j = replicate (m - i) 0 ! j" using zero[OF j(1)] by (simp add: range_memory_def m)
      qed (simp add: len)
      finally show "piece i n ?M = replicate (m - i) 0" .
      show "m - i \<le> n" "m - i \<noteq> n" using False i(1) by simp_all
    qed
    show ?thesis
    proof (cases "cf_type cfg = VAll")
      case True
      then have "n = 8" using cfg(1) by (simp add: valueSizeForConfig_def)
      then show ?thesis using all_found_zeros[of "cf_int cfg" "cf_float cfg" "cf_cmp cfg" "m - i"] probe(1) short True
        unfolding f_def zeros by (simp add: found_at_def)
    qed (use short in \<open>simp add: f_def found_at_def zeros\<close>)
  qed
  have each_range: "range_hits env cfg n mem (base + of_nat a, base + of_nat b) =
      concat (map (\<lambda>i. f (a + i)) (strides al (b - a) 0))" if ab: "(a, b) \<in> set rs" for a b
  proof -
    have le: "a \<le> b" "b \<le> m" using ascending_bounds[OF asc] ab by auto
    have w: "unat (base + of_nat c) = unat base + c" if "c \<le> m" for c
      using that region(1) by (simp add: unat_word_ariths unat_u64_of_nat)
    have order: "base + of_nat b \<le> base + of_nat a \<longleftrightarrow> b \<le> a" using le w by (simp add: word_le_nat_alt)
    have sz: "unat (base + of_nat b - (base + of_nat a)) = b - a"
      using le region(1) by (intro offset_diff) simp_all
    have win: "piece i n (piece a (b - a) ?M) = piece (a + i) n ?M" if "i \<in> set (strides al (b - a) 0)" for i
    proof (rule piece_of_chunk)
      have i: "i < b - a" "al dvd i" using strides_members[OF al _ that] by auto
      show "i + n \<le> b - a \<or> length ?M \<le> a + (b - a)"
      proof (cases "b = m")
        case False
        then have "al dvd b - a" using ends[OF ab] by (simp add: dvd_diff_nat)
        then have "i + al \<le> b - a" using multiples_fit[OF i(2)] i(1) by blast
        then show ?thesis using probe(2) by simp
      qed (use le len in simp)
    qed
    have M: "range_memory mem (base + of_nat a, base + of_nat b) = piece a (b - a) ?M"
      using range_memory_part[OF le(1), of "base + of_nat m" base mem] le(2) m by simp
    show ?thesis
    proof (cases "b \<le> a")
      case True
      then show ?thesis using order by (simp add: range_hits_def strides.simps)
    next
      case False
      then show ?thesis
        unfolding range_hits_def M sz prod.case order skip(3) plain_scan_def
        by (simp add: f_def win add.assoc cong: map_cong)
    qed
  qed
  have "range_hits env cfg n mem (base, base + of_nat m) = concat (map f (strides al m 0))"
  proof -
    have "\<not> base + of_nat m \<le> base" using region by (simp add: word_le_nat_alt unat_word_ariths m)
    then show ?thesis by (simp add: range_hits_def skip(3) plain_scan_def f_def[abs_def] m)
  qed
  also have "\<dots> = concat (map (\<lambda>(a, b). concat (map (\<lambda>i. f (a + i)) (strides al (b - a) 0))) rs)"
    using strides_ranges[OF al asc, of f] ends untouched by auto
  finally show ?thesis using each_range by (auto intro!: arg_cong[where f = concat] map_cong)
qed

text \<open>
  C13: Leaving out the pages that were never touched loses no match and moves none, for the scans whose
  grid is the alignment (\<open>scan_grid\<close>: every value type but text and arrays of bytes, whose scans visit
  other offsets and do lose matches, as \<open>straddling_match_lost\<close> shows): when the guard of
  the scan holds, the alignment divides the base of the region and the pages left out read as zeros,
  the matches of the resident ranges are the matches of the whole region, in the same order.
\<close>

theorem skip_loses_nothing:
  assumes "skip_untouched env cfg (max 1 (cf_alignment cfg)) n" "scan_grid cfg = max 1 (cf_alignment cfg)"
    "valueSizeForConfig (se_conv env) cfg = Inr n" "floats_ok env cfg"
    "unat base + m < 2 ^ 64" "0 < m" "max 1 (cf_alignment cfg) dvd unat base"
    "resident_pages (nat (se_pageSize env)) mem base m rs"
  shows "concat (map (range_hits env cfg n mem) (map (\<lambda>(a, b). (base + of_nat a, base + of_nat b)) rs)) =
    range_hits env cfg n mem (base, base + of_nat m)"
  by (rule skip_keeps_hits[OF assms(1) refl assms(2-8)])

definition page_env :: scan_env where
  "page_env = demo_env\<lparr>se_pageSize := 4, se_pagemap := None\<rparr>"

theorem skip_loses_nothing_witness:
  "concat (map (range_hits page_env demo_cfg 4 demo_mem) (map (\<lambda>(a, b). (0x1000 + of_nat a, 0x1000 + of_nat b)) [(4, 8)])) =
     [(0x1004, [7, 0, 0, 0])]"
proof -
  have n: "valueSizeForConfig (se_conv page_env) demo_cfg = Inr 4" by (simp add: valueSizeForConfig_def demo_cfg_def default_config_def)
  have al: "max 1 (cf_alignment demo_cfg) = 4" "scan_grid demo_cfg = 4" "floats_ok page_env demo_cfg"
    by (simp_all add: demo_cfg_def default_config_def scan_grid_def floats_ok_def)
  have probe: "skip_untouched page_env demo_cfg 4 4" by code_simp
  have "demo_mem (0x1000 + of_nat i) = 0" if "i < 12" "i \<noteq> 4" for i :: nat
  proof -
    have "i \<in> set [0..<12]" using that by simp
    then show ?thesis using that(2) by (auto simp: demo_mem_def upt_rec)
  qed
  then have pages: "resident_pages (nat (se_pageSize page_env)) demo_mem 0x1000 12 [(4, 8)]"
    by (auto simp: resident_pages_def page_env_def)
  have "concat (map (range_hits page_env demo_cfg 4 demo_mem) (map (\<lambda>(a, b). (0x1000 + of_nat a, 0x1000 + of_nat b)) [(4, 8)])) =
      range_hits page_env demo_cfg 4 demo_mem (0x1000, 0x1000 + of_nat 12)"
    using skip_loses_nothing[of page_env demo_cfg 4 "0x1000" 12 demo_mem "[(4, 8)]"] probe al n pages by simp
  also have "\<dots> = [(0x1004, [7, 0, 0, 0])]" by code_simp
  finally show ?thesis .
qed

section \<open>Where the guard does not protect\<close>

text \<open>
  Array-of-bytes and text scans visit every byte, whatever the alignment of the configuration, but the
  guard only compares the alignment with the length of the value.  With the default alignment a
  pattern of four bytes counts as one that cannot straddle a page, and a match whose last two bytes
  are zeros of an untouched page is lost.
\<close>

definition straddle_cfg :: ScanConfig where
  "straddle_cfg = default_config\<lparr>cf_type := VByteArray, cf_bytes := [0x61, 0x62, 0, 0], cf_byteArrayMask := [0xFF, 0xFF, 0xFF, 0xFF]\<rparr>"

definition straddle_mem :: "u64 \<Rightarrow> u8" where
  "straddle_mem a = (if a = 0x1FFE then 0x61 else if a = 0x1FFF then 0x62 else 0)"

lemma straddling_match_lost:
  "skip_untouched (demo_env\<lparr>se_pagemap := None\<rparr>) straddle_cfg 4 4"
  "range_hits demo_env straddle_cfg 4 straddle_mem (0x1FF8, 0x2008) = [(0x1FFE, [0x61, 0x62, 0, 0])]"
  "range_hits demo_env straddle_cfg 4 straddle_mem (0x1FF8, 0x2000) = []"
  subgoal by (simp add: skip_untouched_def Let_def demo_env_def) code_simp
  subgoal by code_simp
  subgoal by code_simp
  done

text \<open>
  A start address that is not a multiple of the alignment: the scan of the whole region visits the
  addresses one past a multiple of four, the scan of a resident range visits the multiples of four.
\<close>

lemma shifted_grid_lost:
  "range_hits page_env demo_cfg 4 demo_mem (0x1001, 0x1009) = []"
  "range_hits page_env demo_cfg 4 demo_mem (0x1004, 0x1008) = [(0x1004, [7, 0, 0, 0])]"
  by code_simp+

end
