(* ===== verification/Scan_Next.thy ===== *)
theory Scan_Next
  imports Scan_First Process_Memory
begin

text \<open>
  \<^verbatim>\<open>MemoryScanner::nextScan\<close> (\<^verbatim>\<open>src/src/scanner/memory_scanner.cpp\<close>): the checks, the comparison of the
  current bytes with the previous and the first ones for every value type, the workers that read the
  previous result in batches and the memory with \<^verbatim>\<open>readMany\<close>, the slices of the threads and the
  assembled result.  The main theorem is that a next scan keeps exactly the records of the previous
  result that compare, with their new values and their first values.
\<close>

section \<open>The configuration is checked\<close>

definition next_compare_ok :: "ScanCompare \<Rightarrow> bool" where
  "next_compare_ok cmp = (cmp \<in> {Exact, Changed, Unchanged, SameAsFirst, Unknown})"

definition next_scan_error :: "ScanConfig \<Rightarrow> string option" where
  "next_scan_error cfg =
     (if cf_type cfg = VGrouped \<and> cf_terms cfg = []
      then Some ''ValueType::Grouped requires grouped terms (use parseGrouped)''
      else if cf_type cfg = VGrouped \<and> groupedValueSize cfg = 0
      then Some ''ValueType::Grouped has invalid grouped terms''
      else if cf_type cfg = VGrouped \<and> \<not> next_compare_ok (cf_cmp cfg)
      then Some ''ValueType::Grouped next scan supports exact/changed/unchanged/samefirst/unknown''
      else if cf_type cfg = VCustom \<and> cf_customSize cfg = 0
      then Some ''ValueType::Custom requires customValueSize > 0''
      else if cf_type cfg = VCustom \<and> cf_cmp cfg = Exact \<and> cf_formula cfg = []
      then Some ''ValueType::Custom exact next scan requires customFormula''
      else if cf_type cfg = VCustom \<and> \<not> next_compare_ok (cf_cmp cfg)
      then Some ''ValueType::Custom next scan supports exact/changed/unchanged/samefirst/unknown''
      else None)"

section \<open>The comparison\<close>

text \<open>
  The windows have the length of the value, so \<^verbatim>\<open>memcmp\<close> over that length is equality.
  \<open>bytes_next\<close> is the shared shape of the cases for text, bytes and bit patterns: \<open>exact\<close> is the
  test of the search value.
\<close>

definition bytes_next :: "ScanCompare \<Rightarrow> bytes \<Rightarrow> bytes \<Rightarrow> bytes \<Rightarrow> bool \<Rightarrow> bool" where
  "bytes_next cmp cur old first exact =
     (if cmp = SameAsFirst then cur = first
      else if Changed \<le> cmp then (cur \<noteq> old) = (cmp = Changed \<or> cmp = Increased \<or> cmp = Decreased)
      else if cmp = Exact then exact
      else cmp = Unknown)"

definition block_next :: "ScanCompare \<Rightarrow> bytes \<Rightarrow> bytes \<Rightarrow> bytes \<Rightarrow> bool \<Rightarrow> bool" where
  "block_next cmp cur old compareVal exact =
     (if cmp = Unknown then True
      else if cmp = Changed then cur \<noteq> old
      else if cmp = Unchanged \<or> cmp = SameAsFirst then cur = compareVal
      else if cmp = Exact then exact
      else False)"

definition nextScanCompare :: "scan_env \<Rightarrow> ScanConfig \<Rightarrow> nat \<Rightarrow> bytes \<Rightarrow> bytes \<Rightarrow> bytes \<Rightarrow> bytes \<Rightarrow> bytes \<Rightarrow> bool" where
  "nextScanCompare env cfg valueSize stringNeedle unicodeNeedle cur old first =
     (let cmp = cf_cmp cfg; compareVal = (if cmp = SameAsFirst then first else old);
          fps = (\<lambda>F. compareNextFloat (se_pow10 env) F cfg cur compareVal)
      in case cf_type cfg of
           VByte \<Rightarrow> compareNextInt uint8_t cfg cur compareVal
         | VInt16 \<Rightarrow> compareNextInt int16_t cfg cur compareVal
         | VInt32 \<Rightarrow> compareNextInt int32_t cfg cur compareVal
         | VInt64 \<Rightarrow> compareNextInt int64_t cfg cur compareVal
         | VPointer \<Rightarrow> compareNextInt uintptr_t cfg cur compareVal
         | VFloat \<Rightarrow> fps float_t
         | VDouble \<Rightarrow> fps double_t
         | VString \<Rightarrow> bytes_next cmp cur old first (length stringNeedle = valueSize \<and> cur = stringNeedle)
         | VUnicodeString \<Rightarrow> bytes_next cmp cur old first (length unicodeNeedle = valueSize \<and> cur = unicodeNeedle)
         | VByteArray \<Rightarrow> bytes_next cmp cur old first (compareMaskedBytes cur (cf_bytes cfg) (cf_byteArrayMask cfg))
         | VBinary \<Rightarrow> bytes_next cmp cur old first
             (cf_bytes cfg \<noteq> [] \<and> length (cf_byteMask cfg) = length (cf_bytes cfg) \<and>
              masked_eq cur (cf_bytes cfg) (cf_byteMask cfg))
         | VGrouped \<Rightarrow> block_next cmp cur old compareVal (groupedBlockMatches (se_pow10 env) cur valueSize cfg)
         | VCustom \<Rightarrow> block_next cmp cur old compareVal (custom_eval env cfg cur compareVal True)
         | VAll \<Rightarrow> if cmp = SameAsFirst then cur = first else (cur \<noteq> old) = (cmp = Changed))"

section \<open>Workers\<close>

record next_proc =
  np_concurrent :: bool
  np_readMany :: "u64 list \<Rightarrow> nat \<Rightarrow> bytes \<times> bool list"

definition next_batch :: "next_proc \<Rightarrow> nat \<Rightarrow> (bytes \<Rightarrow> bytes \<Rightarrow> bytes \<Rightarrow> bool) \<Rightarrow> record3 list \<Rightarrow> record3 list" where
  "next_batch proc valueSize keep recs =
     (case np_readMany proc (map rec_addr recs) valueSize of (curVals, okFlags) \<Rightarrow>
        each (\<lambda>i. okFlags ! i \<and> keep (slot valueSize i curVals) (rec_val (recs ! i)) (rec_first (recs ! i)))
          (\<lambda>i. (rec_addr (recs ! i), slot valueSize i curVals, rec_first (recs ! i))) [0..<length recs])"

definition next_batch_size :: nat where "next_batch_size = 4096"

text \<open>\<open>cancelled idx\<close> is what the load of \<^verbatim>\<open>cancelled_\<close> in front of the batch at \<open>idx\<close> gives.\<close>

function next_worker :: "next_proc \<Rightarrow> nat \<Rightarrow> (bytes \<Rightarrow> bytes \<Rightarrow> bytes \<Rightarrow> bool) \<Rightarrow> (nat \<Rightarrow> bool) \<Rightarrow> disk \<Rightarrow> reader \<Rightarrow>
    nat \<Rightarrow> nat \<Rightarrow> record3 list" where
  "next_worker proc valueSize keep cancelled d R idx end_ix =
     (if idx < end_ix \<and> \<not> cancelled idx then
        let n = min next_batch_size (end_ix - idx) in
        case reader_read d R idx n valueSize of
          None \<Rightarrow> []
        | Some recs \<Rightarrow> next_batch proc valueSize keep recs @ next_worker proc valueSize keep cancelled d R (idx + n) end_ix
      else [])"
  by pat_completeness auto
termination
  by (relation "measure (\<lambda>(_, _, _, _, _, _, idx, end_ix). end_ix - idx)") (auto simp: next_batch_size_def)

declare next_worker.simps [simp del]

definition worker_slice :: "next_proc \<Rightarrow> nat \<Rightarrow> (bytes \<Rightarrow> bytes \<Rightarrow> bytes \<Rightarrow> bool) \<Rightarrow> (nat \<Rightarrow> bool) \<Rightarrow> disk \<Rightarrow>
    (string \<times> nat) list \<Rightarrow> nat \<times> nat \<Rightarrow> record3 list" where
  "worker_slice proc valueSize keep cancelled d layout slc =
     (let R = ShardReader d layout in
      if \<not> rd_ok R then [] else next_worker proc valueSize keep cancelled d R (fst slc) (snd slc))"

section \<open>The scan\<close>

definition kMTFloor :: nat where "kMTFloor = 65536"

definition next_threads :: "bool \<Rightarrow> nat \<Rightarrow> nat \<Rightarrow> nat" where
  "next_threads concurrent threadCount cnt =
     (let n = (if cnt < kMTFloor \<or> \<not> concurrent then 1 else max 1 threadCount);
          m = min n (max 1 (cnt div next_batch_size))
      in if m < 1 then 1 else m)"

definition slices :: "nat \<Rightarrow> nat \<Rightarrow> (nat \<times> nat) list" where
  "slices cnt k =
     (let per = (cnt + k - 1) div k
      in map (\<lambda>t. let b = min cnt (t * per) in (b, min cnt (b + per))) [0..<k])"

definition next_needles :: "scan_env \<Rightarrow> ScanConfig \<Rightarrow> string + bytes \<times> bytes" where
  "next_needles env cfg =
     (let unicode = (if cf_type cfg = VUnicodeString then utf16LeBytes (cf_string cfg) else []) in
      if cf_type cfg = VString \<and> cf_cmp cfg = Exact
      then (case encodeStringBytes (se_conv env) (cf_string cfg) (cf_encoding cfg) of
              Inl e \<Rightarrow> Inl e | Inr needle \<Rightarrow> Inr (needle, unicode))
      else Inr ([], unicode))"

definition nextScan :: "scan_env \<Rightarrow> next_proc \<Rightarrow> nat \<Rightarrow> (nat \<Rightarrow> bool) \<Rightarrow> string \<Rightarrow> ScanConfig \<Rightarrow> ScanResult \<Rightarrow> disk \<Rightarrow>
    string + disk \<times> ScanResult" where
  "nextScan env proc threadCount cancelled resultDir cfg previous d =
     (case next_scan_error cfg of
        Some e \<Rightarrow> Inl e
      | None \<Rightarrow> (case valueSizeForConfig (se_conv env) cfg of
          Inl e \<Rightarrow> Inl e
        | Inr valueSize \<Rightarrow>
            if 0 < sr_count previous \<and> recordStride d previous \<noteq> 0 \<and> recordStride d previous \<noteq> valueSize
            then Inl (''next scan value size differs from the previous scan; '' @
                      ''the search length must stay constant across scans'')
            else (case next_needles env cfg of
                Inl e \<Rightarrow> Inl e
              | Inr (stringNeedle, unicodeNeedle) \<Rightarrow>
                  let cnt = sr_count previous in
                  if cnt = 0 then Inr (empty_result d (resultDir @ ''/results'') True)
                  else
                    let layout = shardLayout previous;
                        keep = nextScanCompare env cfg valueSize stringNeedle unicodeNeedle;
                        nThreads = next_threads (np_concurrent proc) threadCount cnt
                    in if nThreads = 1
                       then (case new_ScanResult d (resultDir @ ''/results'') True of (d1, r) \<Rightarrow>
                               (case add_all d1 r (worker_slice proc valueSize keep cancelled d1 layout (0, cnt)) of
                                  (d2, r2) \<Rightarrow> Inr (finalize d2 r2)))
                       else (case open_results d True (map (thread_dir resultDir) [0..<nThreads]) of (d1, results) \<Rightarrow>
                               (case run_workers d1 (zip results
                                       (map (worker_slice proc valueSize keep cancelled d1 layout) (slices cnt nThreads))) of
                                  (d2, parts) \<Rightarrow> Inr (assembleShardedResult d2 (resultDir @ ''/results'') parts))))))"

section \<open>Slices and batches\<close>

lemma slices_upto:
  "concat (map (\<lambda>(b, e). take (e - b) (drop b xs))
     (map (\<lambda>t. let b = min (length xs) (t * p) in (b, min (length xs) (b + p))) [0..<j])) = take (j * p) xs"
proof (induction j)
  case (Suc j)
  let ?b = "min (length xs) (j * p)"
  have "take (min (length xs) (?b + p) - ?b) (drop ?b xs) = take p (drop (j * p) xs)"
  proof (cases "j * p \<le> length xs")
    case True
    have "take (min (length xs) (j * p + p) - j * p) (drop (j * p) xs) = take p (drop (j * p) xs)"
    proof (cases "j * p + p \<le> length xs")
      case False
      then have "length (drop (j * p) xs) \<le> p" by simp
      then show ?thesis using False by (simp add: min_absorb1)
    qed (simp add: min_absorb2)
    then show ?thesis using True by (simp only: min_absorb2)
  qed simp
  moreover have "take (Suc j * p) xs = take (j * p) xs @ take p (drop (j * p) xs)"
    by (simp only: mult_Suc add.commute[of p] take_add)
  moreover have "map g [0..<Suc j] = map g [0..<j] @ [g j]" for g :: "nat \<Rightarrow> nat \<times> nat" by simp
  ultimately show ?case using Suc.IH by (simp only: map_append concat_append Let_def) simp
qed simp

lemma slices_concat:
  assumes "0 < k"
  shows "concat (map (\<lambda>(b, e). take (e - b) (drop b xs)) (slices (length xs) k)) = xs"
proof -
  let ?per = "(length xs + k - 1) div k"
  have "(length xs + k - 1) mod k < k" using assms by simp
  moreover have "k * ?per + (length xs + k - 1) mod k = length xs + k - 1" by simp
  ultimately have "length xs \<le> k * ?per" using assms by linarith
  then show ?thesis unfolding slices_def Let_def[of ?per] slices_upto by simp
qed

definition kept_record :: "memory \<Rightarrow> nat \<Rightarrow> (bytes \<Rightarrow> bytes \<Rightarrow> bytes \<Rightarrow> bool) \<Rightarrow> record3 \<Rightarrow> record3 list" where
  "kept_record mem n keep rec =
     (if slot_ok mem (rec_addr rec) n \<and> keep (slot_val mem (rec_addr rec) n) (rec_val rec) (rec_first rec)
      then [(rec_addr rec, slot_val mem (rec_addr rec) n, rec_first rec)] else [])"

definition reads_many :: "next_proc \<Rightarrow> memory \<Rightarrow> nat \<Rightarrow> bool" where
  "reads_many proc mem n \<longleftrightarrow> (\<forall>addrs. \<forall>j < length addrs. delivered mem addrs n (np_readMany proc addrs n) j)"

lemma next_batch_kept:
  assumes "reads_many proc mem n"
  shows "next_batch proc n keep recs = concat (map (kept_record mem n keep) recs)"
proof -
  obtain cv ok where r: "np_readMany proc (map rec_addr recs) n = (cv, ok)" by fastforce
  have d: "ok ! i = slot_ok mem (rec_addr (recs ! i)) n"
    "slot_ok mem (rec_addr (recs ! i)) n \<Longrightarrow> slot n i cv = slot_val mem (rec_addr (recs ! i)) n" if "i < length recs" for i
    using assms that r unfolding reads_many_def delivered_def
    by (metis (no_types, lifting) fst_conv length_map nth_map snd_conv)+
  have "next_batch proc n keep recs = concat (map (\<lambda>i. kept_record mem n keep (recs ! i)) [0..<length recs])"
    unfolding next_batch_def r prod.case each_def
    by (intro arg_cong[where f = concat] map_cong refl) (auto simp: kept_record_def d)
  also have "\<dots> = concat (map (kept_record mem n keep) (map (\<lambda>i. recs ! i) [0..<length recs]))" by (simp add: comp_def)
  finally show ?thesis by (simp only: map_nth)
qed

lemma next_worker_kept:
  assumes "reads_many proc mem n" "\<forall>idx. \<not> cancelled idx" "shards_hold d n 0 (rd_shards R) recs"
  shows "idx \<le> end_ix \<Longrightarrow> end_ix \<le> length recs \<Longrightarrow>
    next_worker proc n keep cancelled d R idx end_ix = concat (map (kept_record mem n keep) (take (end_ix - idx) (drop idx recs)))"
proof (induction "end_ix - idx" arbitrary: idx rule: less_induct)
  case less
  show ?case
  proof (cases "idx < end_ix")
    case True
    define m where "m = min next_batch_size (end_ix - idx)"
    have m: "0 < m" "idx + m \<le> end_ix" using True by (auto simp: m_def next_batch_size_def)
    have "reader_read d R idx m n = Some (take m (drop idx recs))"
      using reader_read_slice[OF assms(3), of idx m] m less.prems by simp
    then have "next_worker proc n keep cancelled d R idx end_ix =
        concat (map (kept_record mem n keep) (take m (drop idx recs))) @ next_worker proc n keep cancelled d R (idx + m) end_ix"
      using True assms(2) by (subst next_worker.simps) (simp add: Let_def m_def[symmetric] next_batch_kept[OF assms(1)])
    also have "next_worker proc n keep cancelled d R (idx + m) end_ix =
        concat (map (kept_record mem n keep) (take (end_ix - (idx + m)) (drop (idx + m) recs)))"
      using less.hyps[of "idx + m"] m less.prems by simp
    also have "concat (map (kept_record mem n keep) (take m (drop idx recs))) @ \<dots> =
        concat (map (kept_record mem n keep) (take (m + (end_ix - (idx + m))) (drop idx recs)))"
      by (simp only: take_add drop_drop map_append concat_append add.commute[of idx])
    also have "m + (end_ix - (idx + m)) = end_ix - idx" using m(2) by simp
    finally show ?thesis .
  next
    case False
    then show ?thesis by (simp add: next_worker.simps)
  qed
qed

section \<open>The previous result is read back\<close>

lemma shard_holds_kept: "others_kept d dirs d' \<Longrightarrow> sh_dir s \<notin> dirs \<Longrightarrow> shard_holds d' v s recs = shard_holds d v s recs"
  by (simp add: shard_holds_def others_kept_def)

lemma shards_hold_kept:
  "others_kept d dirs d' \<Longrightarrow> \<forall>s \<in> set ss. sh_dir s \<notin> dirs \<Longrightarrow> shards_hold d' v cum ss recs = shards_hold d v cum ss recs"
  by (induction ss arbitrary: cum recs) (simp_all add: shard_holds_kept)

lemma layout_shards:
  "shards_hold d v cum ss recs \<Longrightarrow> \<forall>s \<in> set ss. sh_frames s = loadFrames d' (sh_dir s) \<Longrightarrow>
    add_shards d' (map (\<lambda>s. (sh_count s, sh_dir s)) ss) cum = ss"
  by (induction ss arbitrary: cum recs) auto

lemma shards_hold_members:
  "shards_hold d v cum ss recs \<Longrightarrow> s \<in> set ss \<Longrightarrow>
    dk_files d (sh_dir s, OffsetsBin) \<noteq> None \<and> dk_files d (sh_dir s, ValuesBin) \<noteq> None"
  by (induction ss arbitrary: cum recs) (auto simp: shard_holds_def)

lemma shards_hold_lengths:
  "shards_hold d v cum ss recs \<Longrightarrow> r \<in> set recs \<Longrightarrow> length (rec_val r) = v \<and> length (rec_first r) = v"
proof (induction ss arbitrary: cum recs)
  case (Cons s ss)
  have "r \<in> set (take (sh_count s) recs) \<or> r \<in> set (drop (sh_count s) recs)"
    using Cons.prems(2) by (metis Un_iff append_take_drop_id set_append)
  then show ?case using Cons by (auto simp: shard_holds_def)
qed simp

lemma reader_of_result:
  assumes "result_holds d v prev recs" "result_loaded d prev" "others_kept d dirs d1"
    "\<forall>s \<in> set (sr_shards prev). sh_dir s \<notin> dirs" "recs \<noteq> []"
  shows "shards_hold d1 v 0 (rd_shards (ShardReader d1 (shardLayout prev))) recs \<and> rd_ok (ShardReader d1 (shardLayout prev))"
proof -
  have ss: "shards_hold d v 0 (sr_shards prev) recs" using assms(1) by (simp add: result_holds_def)
  then have ne: "sr_shards prev \<noteq> []" using assms(5) by auto
  have s1: "shards_hold d1 v 0 (sr_shards prev) recs" using ss shards_hold_kept[OF assms(3,4)] by simp
  have "loadFrames d1 dir = loadFrames d dir" if "dir \<notin> dirs" for dir
    using assms(3) that by (simp add: others_kept_def loadFrames_def)
  then have "add_shards d1 (map (\<lambda>s. (sh_count s, sh_dir s)) (sr_shards prev)) 0 = sr_shards prev"
    using layout_shards[OF s1] assms(2,4) by (simp add: result_loaded_def)
  then have "rd_shards (ShardReader d1 (shardLayout prev)) = sr_shards prev"
    using ne by (simp add: ShardReader_def shardLayout_def comp_def)
  moreover have "rd_ok (ShardReader d1 (shardLayout prev))"
    using shards_hold_members[OF s1] ne by (auto simp: ShardReader_def shardLayout_def list_all_iff)
  ultimately show ?thesis using s1 by simp
qed

section \<open>What the next scan keeps\<close>

definition next_records :: "memory \<Rightarrow> nat \<Rightarrow> (bytes \<Rightarrow> bytes \<Rightarrow> bytes \<Rightarrow> bool) \<Rightarrow> record3 list \<Rightarrow> record3 list" where
  "next_records mem n keep recs = concat (map (kept_record mem n keep) recs)"

lemma length_next_records: "length (next_records mem n keep recs) \<le> length recs"
  by (induction recs) (simp_all add: next_records_def kept_record_def)

lemma next_records_append: "next_records mem n keep (xs @ ys) = next_records mem n keep xs @ next_records mem n keep ys"
  by (simp add: next_records_def)

lemma next_records_plain:
  assumes "\<forall>r \<in> set recs. length (rec_val r) = n \<and> length (rec_first r) = n" "length recs < 2 ^ 64"
  shows "plain_records n True (next_records mem n keep recs)"
  using assms length_next_records[of mem n keep recs]
  by (auto simp: plain_records_def next_records_def kept_record_def slot_val_def range_addrs_def split: if_splits)

lemma worker_slice_kept:
  assumes "reads_many proc mem n" "\<forall>idx. \<not> cancelled idx" "b \<le> e" "e \<le> length recs"
    "shards_hold d1 n 0 (rd_shards (ShardReader d1 layout)) recs \<and> rd_ok (ShardReader d1 layout)"
  shows "worker_slice proc n keep cancelled d1 layout (b, e) = next_records mem n keep (take (e - b) (drop b recs))"
  using next_worker_kept[OF assms(1,2)] assms(3-5) by (simp add: worker_slice_def Let_def next_records_def)

lemma next_records_slices:
  "concat (map (\<lambda>(b, e). next_records mem n keep (take (e - b) (drop b recs))) bs) =
     next_records mem n keep (concat (map (\<lambda>(b, e). take (e - b) (drop b recs)) bs))"
  by (induction bs) (auto simp: next_records_append next_records_def)

definition apart :: "string \<Rightarrow> ScanResult \<Rightarrow> bool" where
  "apart dir prev \<longleftrightarrow> (\<forall>s \<in> set (sr_shards prev). sh_dir s \<noteq> dir @ ''/results'' \<and> sh_dir s \<notin> range (thread_dir dir))"

lemma next_scan_single:
  assumes ok: "next_scan_error cfg = None" "valueSizeForConfig (se_conv env) cfg = Inr n" "next_needles env cfg = Inr (sn, un)"
      "recordStride d prev = 0 \<or> recordStride d prev = n"
    and prev: "result_holds d n prev recs" "result_loaded d prev" "recs \<noteq> []"
    and mem: "reads_many proc mem n" and live: "\<forall>idx. \<not> cancelled idx"
    and dir: "scan_dir_ok d dir" "apart dir prev" and one: "next_threads (np_concurrent proc) threads (length recs) = 1"
  shows "nextScan env proc threads cancelled dir cfg prev d =
    Inr (write_result d (dir @ ''/results'') True (next_records mem n (nextScanCompare env cfg n sn un) recs))"
proof -
  let ?keep = "nextScanCompare env cfg n sn un" and ?res = "dir @ ''/results''"
  have cnt: "sr_count prev = length recs" using prev(1) by (simp add: result_holds_def)
  obtain d1 r1 where nw: "new_ScanResult d ?res True = (d1, r1)" by fastforce
  have fr: "fresh d ?res" using dir by (simp add: scan_dir_ok_def)
  have "others_kept d {?res} d1" using new_inv[OF fr nw] by (simp add: untouched_def others_kept_def)
  moreover have "\<forall>s \<in> set (sr_shards prev). sh_dir s \<notin> {?res}" using dir(2) by (simp add: apart_def)
  ultimately have "worker_slice proc n ?keep cancelled d1 (shardLayout prev) (0, length recs) = next_records mem n ?keep recs"
    using worker_slice_kept[OF mem live le0 le_refl reader_of_result[OF prev(1,2) _ _ prev(3)]] by simp
  then show ?thesis
    using ok prev(3) cnt one nw by (auto simp: nextScan_def write_result_def Let_def split: prod.splits)
qed

lemma next_scan_holds:
  assumes run: "nextScan env proc threads cancelled dir cfg prev d = Inr (d', r)" "\<not> sr_writeError r"
    and cfg: "valueSizeForConfig (se_conv env) cfg = Inr n" "next_needles env cfg = Inr (sn, un)"
    and prev: "result_holds d n prev recs" "result_loaded d prev" "length recs < 2 ^ 64"
    and mem: "reads_many proc mem n" and live: "\<forall>idx. \<not> cancelled idx"
    and dir: "scan_dir_ok d dir" "apart dir prev"
  shows "result_holds d' n r (next_records mem n (nextScanCompare env cfg n sn un) recs)"
proof -
  let ?keep = "nextScanCompare env cfg n sn un" and ?res = "dir @ ''/results''" and ?layout = "shardLayout prev"
  have cnt: "sr_count prev = length recs" using prev(1) by (simp add: result_holds_def)
  have fr: "fresh d ?res" using dir by (simp add: scan_dir_ok_def)
  have noerr: "next_scan_error cfg = None" using run(1) by (cases "next_scan_error cfg") (simp_all add: nextScan_def)
  have stride: "(0 < sr_count prev \<and> recordStride d prev \<noteq> 0 \<and> recordStride d prev \<noteq> n) = False"
    using run(1) noerr cfg(1) by (auto simp: nextScan_def simp del: neq0_conv split: if_splits)
  note scan = run(1)[unfolded nextScan_def noerr option.case cfg sum.case stride if_False prod.case Let_def, unfolded cnt]
  have lens: "\<forall>r \<in> set recs. length (rec_val r) = n \<and> length (rec_first r) = n"
    using shards_hold_lengths prev(1) unfolding result_holds_def by blast
  show ?thesis
  proof (cases "recs = []")
    case True
    have "empty_result d ?res True = (d', r)" using scan True by simp
    then show ?thesis using empty_result_holds[OF fr _ run(2)] True by (simp add: next_records_def)
  next
    case False
    define k where "k = next_threads (np_concurrent proc) threads (length recs)"
    have k: "0 < k" by (simp add: k_def next_threads_def Let_def)
    show ?thesis
    proof (cases "k = 1")
      case True
      have "recordStride d prev = 0 \<or> recordStride d prev = n" using stride cnt False by auto
      from next_scan_single[OF noerr cfg this prev(1,2) False mem live dir, of threads]
      have wr: "write_result d ?res True (next_records mem n ?keep recs) = (d', r)" using run(1) True by (simp add: k_def)
      then show ?thesis
        using write_result_result[OF fr wr run(2), of n] next_records_plain[OF lens prev(3)]
        by (simp add: plain_records_def)
    next
      case many: False
      let ?dirs = "map (thread_dir dir) [0..<k]"
      obtain d1 rs where o: "open_results d True ?dirs = (d1, rs)" by fastforce
      let ?recss = "map (worker_slice proc n ?keep cancelled d1 ?layout) (slices (length recs) k)"
      obtain d2 parts where w: "run_workers d1 (zip rs ?recss) = (d2, parts)" by fastforce
      have a: "assembleShardedResult d2 ?res parts = (d', r)"
        using scan[folded k_def] False many o w by simp
      have dist: "distinct ?dirs" using thread_dirs[of "[0..<k]"] by simp
      have opened: "list_all2 (ready d1 True) rs ?dirs" "others_kept d (set ?dirs) d1"
        using open_results_ready[OF o dist] dir(1) by (auto simp: scan_dir_ok_def)
      have "\<forall>s \<in> set (sr_shards prev). sh_dir s \<notin> set ?dirs" using dir(2) by (auto simp: apart_def)
      note rd = reader_of_result[OF prev(1,2) opened(2) this False]
      have sl: "b \<le> e \<and> e \<le> length recs" if "(b, e) \<in> set (slices (length recs) k)" for b e
        using that by (auto simp: slices_def Let_def)
      have each: "worker_slice proc n ?keep cancelled d1 ?layout (b, e) = next_records mem n ?keep (take (e - b) (drop b recs))"
        if "(b, e) \<in> set (slices (length recs) k)" for b e
        using worker_slice_kept[OF mem live _ _ rd] sl[OF that] by blast
      have recss: "?recss = map (\<lambda>(b, e). next_records mem n ?keep (take (e - b) (drop b recs))) (slices (length recs) k)"
        using each by (intro map_cong) auto
      have all: "concat ?recss = next_records mem n ?keep recs"
        unfolding recss next_records_slices slices_concat[OF k] ..
      have "plain_records n True ks" if "ks \<in> set ?recss" for ks
      proof -
        obtain b e where "ks = next_records mem n ?keep (take (e - b) (drop b recs))" using \<open>ks \<in> set ?recss\<close> unfolding recss by auto
        moreover have "\<forall>r \<in> set (take (e - b) (drop b recs)). length (rec_val r) = n \<and> length (rec_first r) = n"
          using lens by (meson in_set_dropD in_set_takeD)
        moreover have "length (take (e - b) (drop b recs)) < 2 ^ 64" using prev(3) by simp
        ultimately show ?thesis using next_records_plain by blast
      qed
      moreover have "\<forall>x \<in> set ?dirs. CHR 0x0A \<notin> set x"
        using dir fmt_dec_plain by (auto simp: scan_dir_ok_def thread_dir_def)
      moreover have "length ?recss = length ?dirs" by (simp add: slices_def Let_def)
      ultimately have "list_all2 (part_holds d2 n) parts ?recss"
        using run_workers_parts[where sf = True and n = n, OF opened(1) dist _ w] run_workers_errors[OF a run(2)] by auto
      from assemble_holds[OF this a run(2)] show ?thesis by (simp only: all)
    qed
  qed
qed

text \<open>
  C2: When a next scan completes without a write error, its result holds exactly the records of the
  previous result whose bytes can still be read and compare: in the same order, with the address, the
  bytes just read and the value of the first scan.  Batches, thread slices and the number of threads
  make no difference.  "Compare" is the comparison of the code, whose cases the comparison lemmas give.
  This supposes that the result directories hold no earlier result, that their files can be opened
  (\<open>scan_dir_ok\<close>) and that they are not those of the previous result (\<open>apart\<close>), that the previous result is
  on disk (\<open>result_loaded\<close>), that the batch read delivers what can be read (\<open>reads_many\<close>) and that
  the scan is not cancelled.
\<close>

theorem next_scan_keeps:
  assumes "nextScan env proc threads cancelled dir cfg prev d = Inr (d', r)" "\<not> sr_writeError r"
    "valueSizeForConfig (se_conv env) cfg = Inr n" "next_needles env cfg = Inr (sn, un)"
    "result_holds d n prev recs" "result_loaded d prev" "length recs < 2 ^ 64"
    "reads_many proc mem n" "\<forall>idx. \<not> cancelled idx" "scan_dir_ok d dir" "apart dir prev"
    "i < length (next_records mem n (nextScanCompare env cfg n sn un) recs)"
  shows "sr_count r = length (next_records mem n (nextScanCompare env cfg n sn un) recs) \<and>
    (result_address d' r i, result_value d' r i n buf, result_firstValue d' r i n buf) =
      next_records mem n (nextScanCompare env cfg n sn un) recs ! i"
proof -
  note h = next_scan_holds[OF assms(1-11)]
  from result_index[OF h assms(12)] h show ?thesis by (simp add: result_holds_def prod_eq_iff)
qed

lemma default_reads_many:
  assumes "readv_law mem rv" "0 < n"
    "\<And>addrs. np_readMany proc addrs n = readMany_default (linux_read rv) addrs n (replicate (length addrs * n) 0, replicate (length addrs) False)"
  shows "reads_many proc mem n"
proof -
  have "delivered mem addrs n (np_readMany proc addrs n) j" if "j < length addrs" for addrs j
    using readMany_loop_delivers[OF assms(1,2), of 0 addrs "replicate (length addrs * n) 0" "replicate (length addrs) False"] that
    by (simp add: assms(3) readMany_default_def Let_def)
  then show ?thesis by (simp add: reads_many_def)
qed

definition later_mem :: memory where
  "later_mem a = Some (if a = 0x1000 then 1 else if a = 0x1001 then 2 else if a = 0x700000001000 then 9 else 6)"

definition later_readv :: readv where
  "later_readv iovs = (let got = readable_prefix later_mem (iov_addrs iovs) in
     if got = [] \<and> iov_addrs iovs \<noteq> [] then None else Some got)"

definition later_proc :: next_proc where
  "later_proc = \<lparr>np_concurrent = True, np_readMany = (\<lambda>addrs n. readMany_default (linux_read later_readv) addrs n
     (replicate (length addrs * n) 0, replicate (length addrs) False))\<rparr>"

definition changed_cfg :: ScanConfig where
  "changed_cfg = default_config\<lparr>cf_type := VInt16, cf_cmp := Changed\<rparr>"

theorem next_scan_keeps_witness:
  "case write_result (empty_disk 1000) ''r'' True demo_records of (d, prev) \<Rightarrow>
     \<exists>d' r. nextScan demo_env later_proc 4 (\<lambda>_. False) ''n'' changed_cfg prev d = Inr (d', r) \<and>
       sr_count r = 1 \<and> result_address d' r 0 = 0x700000001000 \<and> result_value d' r 0 2 [] = [9, 6] \<and>
       result_firstValue d' r 0 2 [] = [7, 8]"
proof -
  obtain d prev where w: "write_result (empty_disk 1000) ''r'' True demo_records = (d, prev)" by fastforce
  have ok: "case write_result (empty_disk 1000) ''r'' True demo_records of (d, prev) \<Rightarrow> \<not> sr_writeError prev" by code_simp
  have fr: "fresh (empty_disk 1000) ''r''" by (rule empty_disk_fresh)
  have recs: "\<forall>r \<in> set demo_records. length (rec_val r) = 2 \<and> length (rec_first r) = 2" "length demo_records < 2 ^ 64"
    by (simp_all add: demo_records_def)
  have noerr: "\<not> sr_writeError prev" using ok w by simp
  have prev: "result_holds d 2 prev demo_records" "result_loaded d prev"
    using write_result_result[OF fr w noerr recs(1)] write_result_part(2)[OF fr w noerr recs(1) _ recs(2)] by simp_all
  have dirs: "untouched (empty_disk 1000) ''r'' d" "\<forall>s \<in> set (sr_shards prev). sh_dir s = ''r''"
    using write_result_holds[OF fr w noerr, of 2] recs by auto
  have dir: "scan_dir_ok d ''n''"
    using dirs(1) by (auto simp: scan_dir_ok_def fresh_def no_results_def data_opens_def empty_disk_def untouched_def thread_dir_def)
  have ap: "apart ''n'' prev" using dirs(2) by (auto simp: apart_def thread_dir_def)
  have cfg: "valueSizeForConfig (se_conv demo_env) changed_cfg = Inr 2" "next_needles demo_env changed_cfg = Inr ([], [])"
    by (simp_all add: valueSizeForConfig_def next_needles_def changed_cfg_def default_config_def)
  have mem: "reads_many later_proc later_mem 2"
    by (rule default_reads_many[of _ later_readv]) (simp_all add: readv_law_def later_readv_def later_proc_def)
  have kept: "next_records later_mem 2 (nextScanCompare demo_env changed_cfg 2 [] []) demo_records =
      [(0x700000001000, [9, 6], [7, 8])]"
    by code_simp
  have stride: "case write_result (empty_disk 1000) ''r'' True demo_records of (d, prev) \<Rightarrow> recordStride d prev = 2" by code_simp
  have "nextScan demo_env later_proc 4 (\<lambda>_. False) ''n'' changed_cfg prev d =
      Inr (write_result d ''n/results'' True [(0x700000001000, [9, 6], [7, 8])])"
    using next_scan_single[OF _ cfg _ prev _ mem _ dir ap, of "\<lambda>_. False" 4] stride w unfolding kept
    by (simp add: next_scan_error_def changed_cfg_def default_config_def next_threads_def kMTFloor_def later_proc_def demo_records_def)
  moreover have "case write_result (empty_disk 1000) ''r'' True demo_records of (d, prev) \<Rightarrow>
      \<not> sr_writeError (snd (write_result d ''n/results'' True [(0x700000001000, [9, 6], [7, 8])]))"
    by code_simp
  ultimately obtain d' r where run: "nextScan demo_env later_proc 4 (\<lambda>_. False) ''n'' changed_cfg prev d = Inr (d', r)" "\<not> sr_writeError r"
    using w by (cases "write_result d ''n/results'' True [(0x700000001000, [9, 6], [7, 8])]") auto
  from next_scan_keeps[OF run cfg prev recs(2) mem _ dir ap, of 0 "[]"] show ?thesis
    using run(1) unfolding w kept by simp
qed

end
