(* ===== verification/Scan_Parse.thy ===== *)
theory Scan_Parse
  imports Scan_Config
begin

text \<open>
  The parsers of search patterns (\<^verbatim>\<open>src/src/scanner/memory_scanner.cpp\<close>): arrays of bytes with
  wildcards, bit patterns, and the terms of a grouped scan.  A \<^verbatim>\<open>std::string\<close> handed to a C function
  ends at its first null character.  \<^verbatim>\<open>std::from_chars\<close> rounds the exact decimal value to nearest; a
  value too large for a \<^verbatim>\<open>double\<close>, or not zero and too small for one, is its range error.
\<close>

section \<open>Tokens\<close>

text \<open>The words \<^verbatim>\<open>ss >> token\<close> reads, and the parts \<^verbatim>\<open>std::getline\<close> reads.\<close>

function tokens :: "string \<Rightarrow> string list" where
  "tokens s =
     (let s' = dropWhile is_space s in
      if s' = [] then []
      else takeWhile (\<lambda>c. \<not> is_space c) s' # tokens (dropWhile (\<lambda>c. \<not> is_space c) s'))"
  by pat_completeness auto
termination
proof (relation "measure length", simp)
  fix s s' :: string
  assume s': "s' = dropWhile is_space s" "s' \<noteq> []"
  then have "\<not> is_space (hd s')" using hd_dropWhile[of is_space s] by simp
  then have "dropWhile (\<lambda>c. \<not> is_space c) s' = dropWhile (\<lambda>c. \<not> is_space c) (tl s')" using s'(2) by (cases s') simp_all
  then have "length (dropWhile (\<lambda>c. \<not> is_space c) s') \<le> length (tl s')" by (simp only: length_dropWhile_le)
  also have "\<dots> < length s'" using s'(2) by simp
  also have "\<dots> \<le> length s" by (simp add: s'(1) length_dropWhile_le)
  finally show "(dropWhile (\<lambda>c. \<not> is_space c) s', s) \<in> measure length" by simp
qed

declare tokens.simps [simp del]

definition split_last :: "char \<Rightarrow> string \<Rightarrow> (string \<times> string) option" where
  "split_last c s = map_option (\<lambda>(b, a). (rev a, rev b)) (split_first c (rev s))"

definition unquoteCopy :: "string \<Rightarrow> string" where
  "unquoteCopy txt =
     (let trimmed = trimCopy txt in
      if 2 \<le> length trimmed \<and>
         (hd trimmed = CHR 0x22 \<and> last trimmed = CHR 0x22 \<or> hd trimmed = CHR 0x27 \<and> last trimmed = CHR 0x27)
      then take (length trimmed - 2) (drop 1 trimmed) else trimmed)"

section \<open>Numbers\<close>

definition c_end :: "string \<Rightarrow> bool" where
  "c_end rest = (rest = [] \<or> hd rest = CHR 0x00)"

text \<open>
  \<^verbatim>\<open>strtoll\<close>, as \<open>strtoull\<close>: the value as a 64-bit word, the text at \<^verbatim>\<open>end\<close>, and whether \<^verbatim>\<open>errno\<close> is
  \<^verbatim>\<open>ERANGE\<close>.
\<close>

definition strtoll :: "nat \<Rightarrow> string \<Rightarrow> (u64 \<times> string \<times> bool) option" where
  "strtoll base s =
     (let (neg, s1) = strip_sign (dropWhile is_space s);
          (b, s2) = number_base base s1 in
      if \<not> starts_digit b s2 then None
      else let (v, rest) = scan_digits b 0 s2 in
        if neg \<and> 2 ^ 63 < v then Some (0x8000000000000000, rest, True)
        else if \<not> neg \<and> 2 ^ 63 \<le> v then Some (0x7FFFFFFFFFFFFFFF, rest, True)
        else Some (if neg then - of_nat v else of_nat v, rest, False))"

definition parseInt64Token :: "string \<Rightarrow> u64 option" where
  "parseInt64Token txt =
     (let token = trimCopy txt in
      if token = [] then None
      else (case strtoll 0 token of
          None \<Rightarrow> None
        | Some (v, rest, erange) \<Rightarrow> if erange \<or> \<not> c_end rest then None else Some v))"

definition parseSizeToken :: "string \<Rightarrow> nat option" where
  "parseSizeToken txt =
     (let token = trimCopy txt in
      if token = [] then None
      else (case strtoull 0 token of
          None \<Rightarrow> None
        | Some (v, rest, erange) \<Rightarrow> if erange \<or> \<not> c_end rest then None else Some (unat v)))"

definition dec_value :: "string \<Rightarrow> nat" where
  "dec_value ds = fst (scan_digits 10 0 ds)"

definition dec_exponent :: "string \<Rightarrow> int \<times> string" where
  "dec_exponent s =
     (case s of
        [] \<Rightarrow> (0, s)
      | c # cs \<Rightarrow>
          if c = CHR ''e'' \<or> c = CHR ''E''
          then let (neg, ds) = strip_sign cs in
            if starts_digit 10 ds
            then let n = int (dec_value (takeWhile is_digit ds)) in
              (if neg then - n else n, dropWhile is_digit ds)
            else (0, s)
          else (0, s))"

definition scale10 :: "nat \<Rightarrow> int \<Rightarrow> rat" where
  "scale10 n e = (if 0 \<le> e then of_nat n * 10 ^ nat e else of_nat n / 10 ^ nat (- e))"

definition inf_nan :: "bool \<Rightarrow> string \<Rightarrow> (fp \<times> string) option" where
  "inf_nan neg s =
     (let l = lowerText s in
      if take 8 l = ''infinity'' then Some (Infinite neg, drop 8 s)
      else if take 3 l = ''inf'' then Some (Infinite neg, drop 3 s)
      else if take 3 l = ''nan''
      then Some (NaN, (case drop 3 s of
             [] \<Rightarrow> []
           | c # cs \<Rightarrow>
               (let w = (\<lambda>x. digit_val x \<noteq> None \<or> x = CHR ''_'') in
                if c = CHR ''('' \<and> dropWhile w cs \<noteq> [] \<and> hd (dropWhile w cs) = CHR '')''
                then tl (dropWhile w cs) else c # cs)))
      else None)"

definition from_chars_double :: "string \<Rightarrow> (fp \<times> string) option" where
  "from_chars_double s =
     (let neg = (s \<noteq> [] \<and> hd s = CHR ''-'');
          s1 = (if neg then tl s else s);
          ip = takeWhile is_digit s1; r1 = dropWhile is_digit s1;
          point = (r1 \<noteq> [] \<and> hd r1 = CHR ''.'');
          fr = (if point then takeWhile is_digit (tl r1) else []);
          r2 = (if point then dropWhile is_digit (tl r1) else r1)
      in case inf_nan neg s1 of
           Some r \<Rightarrow> Some r
         | None \<Rightarrow>
             if ip = [] \<and> fr = [] then None
             else
               let (e, rest) = dec_exponent r2;
                   x = scale10 (dec_value (ip @ fr)) (e - int (length fr));
                   v = fp_round binary64 (if neg then - x else x)
               in if x \<noteq> 0 \<and> (v = Fin 0 \<or> \<not> fp_finite v) then None else Some (v, rest))"

definition parseDoubleToken :: "string \<Rightarrow> fp option" where
  "parseDoubleToken txt =
     (let token = map (\<lambda>c. if c = CHR '','' then CHR ''.'' else c) (trimCopy txt) in
      if token = [] then None
      else (case from_chars_double (if hd token = CHR ''+'' then tl token else token) of
          None \<Rightarrow> None
        | Some (v, rest) \<Rightarrow> if rest = [] then Some v else None))"

section \<open>Arrays of bytes\<close>

text \<open>A digit of a pattern: its value, its mask, and whether it is valid.\<close>

definition nib :: "char \<Rightarrow> u8 \<times> u8 \<times> bool" where
  "nib c =
     (if c = CHR ''?'' \<or> c = CHR ''*'' then (0, 0, True)
      else if is_xdigit c then (of_nat (the (digit_val c)), 0xF, True)
      else (0, 0, False))"

definition aob_token :: "string \<Rightarrow> u8 \<times> u8 \<times> bool" where
  "aob_token token =
     (if token = ''??'' \<or> token = ''?'' \<or> token = ''*'' then (0, 0, True)
      else if length token = 2
      then let (hv, hm, hok) = nib (token ! 0); (lv, lm, lok) = nib (token ! 1) in
        (push_bit 4 hv OR lv, push_bit 4 hm OR lm, hok \<and> lok)
      else (case strtoull 16 token of None \<Rightarrow> 0 | Some (v, _) \<Rightarrow> ucast v, 0xFF, list_all is_xdigit token))"

definition parseAOB :: "string \<Rightarrow> ScanConfig \<Rightarrow> ScanConfig \<times> bool" where
  "parseAOB pattern cfg =
     (let ts = map aob_token (tokens pattern);
          bs = map fst ts
      in (cfg\<lparr>cf_bytes := bs, cf_byteArrayMask := map (fst \<circ> snd) ts\<rparr>,
          list_all (snd \<circ> snd) ts \<and> bs \<noteq> []))"

section \<open>Bit patterns\<close>

fun binary_bytes :: "string \<Rightarrow> u8 \<Rightarrow> u8 \<Rightarrow> nat \<Rightarrow> (u8 \<times> u8) list" where
  "binary_bytes [] cb cm n = (if 0 < n then [(push_bit (8 - n) cb, push_bit (8 - n) cm)] else [])"
| "binary_bytes (c # cs) cb cm n =
     (if c = CHR ''0'' \<or> c = CHR ''1'' \<or> c = CHR ''?'' \<or> c = CHR ''*''
      then
        let cb' = push_bit 1 cb OR (if c = CHR ''1'' then 1 else 0);
            cm' = push_bit 1 cm OR (if c = CHR ''1'' \<or> c = CHR ''0'' then 1 else 0)
        in if n + 1 = 8 then (cb', cm') # binary_bytes cs 0 0 0 else binary_bytes cs cb' cm' (n + 1)
      else binary_bytes cs cb cm n)"

definition parseBinary :: "string \<Rightarrow> ScanConfig \<Rightarrow> ScanConfig" where
  "parseBinary pattern cfg =
     (let ps = binary_bytes pattern 0 0 0 in
      cfg\<lparr>cf_bytes := map fst ps, cf_byteMask := map snd ps, cf_binary := pattern, cf_byteArrayMask := map snd ps\<rparr>)"

section \<open>Grouped expressions\<close>

text \<open>The value of a term; \<open>Inl\<close> is the message of \<^verbatim>\<open>fail\<close>.\<close>

definition grouped_value :: "string \<Rightarrow> string \<Rightarrow> string \<Rightarrow> GroupedTerm \<Rightarrow> string + GroupedTerm" where
  "grouped_value typeToken valueToken ix term =
     (let of_type = (\<lambda>names. typeToken \<in> set names);
          int_term = (\<lambda>t name. case parseInt64Token valueToken of
              None \<Rightarrow> Inl (''invalid '' @ name @ '' value in grouped term '' @ ix)
            | Some v \<Rightarrow> Inr (term\<lparr>gt_type := t, gt_int := v\<rparr>));
          fp_term = (\<lambda>t name. case parseDoubleToken valueToken of
              None \<Rightarrow> Inl (''invalid '' @ name @ '' value in grouped term '' @ ix)
            | Some v \<Rightarrow> Inr (term\<lparr>gt_type := t, gt_float := v\<rparr>));
          string_term = (\<lambda>t name. let s = unquoteCopy valueToken in
              if s = [] then Inl (''empty '' @ name @ '' in grouped term '' @ ix)
              else Inr (term\<lparr>gt_type := t, gt_string := s\<rparr>))
      in if of_type [''byte'', ''i8'', ''int8'', ''1''] then int_term VByte ''byte''
         else if of_type [''i16'', ''int16'', ''short'', ''word'', ''2''] then int_term VInt16 ''i16''
         else if of_type [''i32'', ''int32'', ''dword'', ''int'', ''4''] then int_term VInt32 ''i32''
         else if of_type [''i64'', ''int64'', ''long'', ''qword'', ''8''] then int_term VInt64 ''i64''
         else if of_type [''pointer'', ''ptr''] then int_term VPointer ''pointer''
         else if of_type [''float'', ''single''] then fp_term VFloat ''float''
         else if of_type [''double''] then fp_term VDouble ''double''
         else if of_type [''string'', ''str''] then string_term VString ''string''
         else if of_type [''unicode'', ''utf16'', ''wstring''] then string_term VUnicodeString ''unicode string''
         else if of_type [''aob'', ''bytearray'']
         then let temp = fst (parseAOB valueToken default_config) in
           if cf_bytes temp = [] then Inl (''empty AOB pattern in grouped term '' @ ix)
           else Inr (term\<lparr>gt_type := VByteArray, gt_bytes := cf_bytes temp, gt_byteArrayMask := cf_byteArrayMask temp\<rparr>)
         else if of_type [''binary'', ''bin'']
         then let temp = parseBinary valueToken default_config in
           if cf_bytes temp = [] then Inl (''empty binary pattern in grouped term '' @ ix)
           else Inr (term\<lparr>gt_type := VBinary, gt_bytes := cf_bytes temp, gt_byteMask := cf_byteMask temp,
             gt_byteArrayMask := cf_byteArrayMask temp\<rparr>)
         else Inl (''unknown grouped value type '' @ [CHR 0x27] @ typeToken @ [CHR 0x27] @ '' in term '' @ ix))"

definition grouped_term :: "string \<Rightarrow> string \<Rightarrow> string + GroupedTerm" where
  "grouped_term termText ix =
     (case split_last (CHR ''@'') termText of
        None \<Rightarrow> Inl (''missing @offset in grouped term '' @ ix)
      | Some (left, right) \<Rightarrow>
          let lhs = trimCopy left in
          (case parseSizeToken (trimCopy right) of
             None \<Rightarrow> Inl (''invalid offset in grouped term '' @ ix)
           | Some offs \<Rightarrow>
               (case split_first (CHR '':'') lhs of
                  None \<Rightarrow> Inl (''missing type:value in grouped term '' @ ix)
                | Some (t, v) \<Rightarrow>
                    let typeToken = lowerText (trimCopy t); valueToken = trimCopy v in
                    if valueToken = [] then Inl (''missing value in grouped term '' @ ix)
                    else (case grouped_value typeToken valueToken ix (new_term\<lparr>gt_offset := offs\<rparr>) of
                        Inl e \<Rightarrow> Inl e
                      | Inr term \<Rightarrow>
                          let termSize = groupedTermValueSize term in
                          if termSize = 0 then Inl (''unsupported grouped value type in term '' @ ix)
                          else if size_max - termSize < gt_offset term
                          then Inl (''offset overflow in grouped term '' @ ix)
                          else Inr term))))"

fun grouped_terms :: "string list \<Rightarrow> nat \<Rightarrow> string + GroupedTerm list" where
  "grouped_terms [] termIndex = Inr []"
| "grouped_terms (rawTerm # rest) termIndex =
     (let termText = trimCopy rawTerm in
      if termText = [] then grouped_terms rest termIndex
      else (case grouped_term termText (fmt_dec (termIndex + 1)) of
          Inl e \<Rightarrow> Inl e
        | Inr t \<Rightarrow> (case grouped_terms rest (termIndex + 1) of Inl e \<Rightarrow> Inl e | Inr ts \<Rightarrow> Inr (t # ts))))"

text \<open>The configuration afterwards, and the message of a failure.\<close>

definition parseGrouped :: "string \<Rightarrow> ScanConfig \<Rightarrow> ScanConfig \<times> string option" where
  "parseGrouped expression cfg =
     (let cfg0 = cfg\<lparr>cf_terms := [], cf_grouped := expression\<rparr>;
          expr = trimCopy expression
      in if expr = [] then (cfg0, Some ''grouped expression is empty'')
         else (case grouped_terms (getlines (CHR '';'') expr) 0 of
             Inl e \<Rightarrow> (cfg0, Some e)
           | Inr ts \<Rightarrow>
               if ts = [] then (cfg0, Some ''grouped expression produced no terms'')
               else (cfg0\<lparr>cf_terms := ts\<rparr>, None)))"

section \<open>Facts\<close>

lemma tokens_word:
  assumes "t \<noteq> []" "list_all (\<lambda>c. \<not> is_space c) t" "s = [] \<or> is_space (hd s)"
  shows "tokens (t @ s) = t # tokens s"
proof -
  have "dropWhile is_space (t @ s) = t @ s" using assms(1,2) by (cases t) simp_all
  moreover have "takeWhile (\<lambda>c. \<not> is_space c) (t @ s) = t" "dropWhile (\<lambda>c. \<not> is_space c) (t @ s) = s"
    using assms(2,3) by (cases s; simp add: list_all_iff takeWhile_append dropWhile_append)+
  ultimately show ?thesis using assms(1) by (subst tokens.simps) (simp add: Let_def)
qed

lemma tokens_space: "tokens (CHR '' '' # s) = tokens s"
  by (subst (1 2) tokens.simps) (simp add: is_space_def char_code_def)

lemma tokens_Nil [simp]: "tokens [] = []"
  by (simp add: tokens.simps)

lemma grouped_size_ge:
  "blockSize \<le> size_max \<Longrightarrow> \<forall>t \<in> set ts. 0 < groupedTermValueSize t \<and> gt_offset t + groupedTermValueSize t \<le> size_max \<Longrightarrow>
    blockSize \<le> grouped_size ts blockSize \<and> grouped_size ts blockSize \<le> size_max \<and>
    (\<forall>t \<in> set ts. gt_offset t + groupedTermValueSize t \<le> grouped_size ts blockSize)"
proof (induction ts arbitrary: blockSize)
  case (Cons t ts)
  let ?b = "max blockSize (gt_offset t + groupedTermValueSize t)"
  have b: "?b \<le> size_max" using Cons.prems by simp
  have "\<not> size_max - groupedTermValueSize t < gt_offset t" "groupedTermValueSize t \<noteq> 0" using Cons.prems(2) by auto
  then have "grouped_size (t # ts) blockSize = grouped_size ts ?b" by (simp add: Let_def)
  then show ?case using Cons.IH[OF b] Cons.prems(2) by auto
qed simp

lemma length_trimCopy: "length (trimCopy s) \<le> length s"
proof -
  have "length (trimCopy s) \<le> length (dropWhile is_space s)" by (simp add: trimCopy_def rtrim_def length_dropWhile_le[of _ "rev _", simplified])
  then show ?thesis using length_dropWhile_le[of is_space s] by linarith
qed

lemma length_tokens: "length (tokens s) \<le> length s"
proof (induction s rule: tokens.induct)
  case (1 s)
  let ?s = "dropWhile is_space s"
  show ?case
  proof (cases "?s = []")
    case False
    let ?r = "dropWhile (\<lambda>c. \<not> is_space c) ?s"
    have "length ?r < length ?s" using False hd_dropWhile[OF False] length_dropWhile_le[of "\<lambda>c. \<not> is_space c" "tl ?s"]
      by (cases ?s) auto
    moreover have "length ?s \<le> length s" by (simp add: length_dropWhile_le)
    moreover have "length (tokens ?r) \<le> length ?r" using 1[OF refl False] .
    ultimately show ?thesis using False by (subst tokens.simps) (simp add: Let_def)
  qed (simp add: tokens.simps)
qed

lemma length_binary_bytes: "length (binary_bytes s cb cm n) \<le> length s + (if 0 < n then 1 else 0)"
proof (induction s arbitrary: cb cm n)
  case (Cons c s)
  have "length (binary_bytes s x y m) \<le> Suc (length s)" for x y m using Cons[of x y m] by (simp split: if_splits)
  moreover have "length (binary_bytes s x y 0) \<le> length s" for x y using Cons[of x y 0] by simp
  ultimately show ?case by (simp add: Let_def le_SucI)
qed simp

lemma length_unquoteCopy: "length (unquoteCopy s) \<le> length s"
  using length_trimCopy[of s] by (auto simp: unquoteCopy_def Let_def)

lemma grouped_value_size:
  "grouped_value ty v ix term0 = Inr t \<Longrightarrow>
     gt_offset t = gt_offset term0 \<and> 0 < groupedTermValueSize t \<and> groupedTermValueSize t \<le> max 8 (2 * length v)"
  using length_tokens[of v] length_binary_bytes[of v 0 0 0] length_unquoteCopy[of v]
  by (auto simp: grouped_value_def Let_def groupedTermValueSize_def parseAOB_def parseBinary_def
      simp del: list.set split: option.splits if_split_asm)

lemma length_split_first: "split_first c s = Some (a, b) \<Longrightarrow> length a < length s \<and> length b < length s"
  by (auto dest: split_first_Some)

lemma grouped_term_fits:
  assumes "grouped_term termText ix = Inr t" "length termText < 2 ^ 62"
  shows "0 < groupedTermValueSize t \<and> gt_offset t + groupedTermValueSize t \<le> size_max"
proof -
  obtain left right offs ty v where *: "split_last (CHR ''@'') termText = Some (left, right)"
    "split_first (CHR '':'') (trimCopy left) = Some (ty, v)"
    "grouped_value (lowerText (trimCopy ty)) (trimCopy v) ix (new_term\<lparr>gt_offset := offs\<rparr>) = Inr t"
    "\<not> size_max - groupedTermValueSize t < gt_offset t"
    using assms(1) by (auto simp: grouped_term_def Let_def split: option.splits sum.splits if_splits prod.splits)
  have "length left < length termText" using *(1) length_split_first by (fastforce simp: split_last_def)
  then have "length (trimCopy v) < 2 ^ 62"
    using length_split_first[OF *(2)] length_trimCopy[of left] length_trimCopy[of v] assms(2) by linarith
  then have "max 8 (2 * length (trimCopy v)) \<le> size_max" by (simp add: size_max_def)
  then have "groupedTermValueSize t \<le> size_max" using grouped_value_size[OF *(3)] by linarith
  then show ?thesis using grouped_value_size[OF *(3)] *(4) by linarith
qed

lemma length_getlines: "l \<in> set (getlines c s) \<Longrightarrow> length l \<le> length s"
proof (induction c s rule: getlines.induct)
  case (1 c s)
  show ?case
  proof (cases "split_first c s")
    case (Some p)
    obtain x rest where p: "p = (x, rest)" by fastforce
    have "s \<noteq> []" using Some by auto
    then have "l = x \<or> l \<in> set (getlines c rest)" using 1(2) Some p by (simp add: getlines.simps[of c s])
    then show ?thesis using 1(1)[OF \<open>s \<noteq> []\<close> Some p[symmetric]] length_split_first[of c s x rest] Some p by auto
  qed (use 1(2) in \<open>simp add: getlines.simps[of c s] split: if_splits\<close>)
qed

lemma grouped_terms_fit:
  "grouped_terms ls i = Inr ts \<Longrightarrow> \<forall>l \<in> set ls. length l < 2 ^ 62 \<Longrightarrow> t \<in> set ts \<Longrightarrow>
     0 < groupedTermValueSize t \<and> gt_offset t + groupedTermValueSize t \<le> size_max"
proof (induction ls i arbitrary: ts rule: grouped_terms.induct)
  case (2 l ls i)
  have "length (trimCopy l) < 2 ^ 62" using 2(4) length_trimCopy[of l] by simp
  then show ?case
    using 2 grouped_term_fits by (auto simp: Let_def split: if_splits sum.splits)
qed simp

text \<open>
  C23: A grouped expression that is accepted gives at least one term, and a block that every term
  fits into without wrapping around: the scans that follow neither reject its size nor look for a
  term outside of the block.  A rejected expression leaves no terms behind.
\<close>

theorem parse_grouped_block:
  assumes "parseGrouped expression cfg = (cfg', err)" "length expression < 2 ^ 62"
  shows "if err = None
    then cf_terms cfg' \<noteq> [] \<and> groupedValueSize cfg' \<le> size_max \<and>
      (\<forall>t \<in> set (cf_terms cfg'). 0 < groupedTermValueSize t \<and> gt_offset t + groupedTermValueSize t \<le> groupedValueSize cfg')
    else cf_terms cfg' = []"
proof (cases err)
  case None
  then obtain ts where ts: "grouped_terms (getlines (CHR '';'') (trimCopy expression)) 0 = Inr ts" "ts \<noteq> []" "cf_terms cfg' = ts"
    using assms(1) by (auto simp: parseGrouped_def Let_def split: if_splits sum.splits)
  have "\<forall>l \<in> set (getlines (CHR '';'') (trimCopy expression)). length l < 2 ^ 62"
    using length_getlines length_trimCopy[of expression] assms(2) by fastforce
  then have "\<forall>t \<in> set ts. 0 < groupedTermValueSize t \<and> gt_offset t + groupedTermValueSize t \<le> size_max"
    using grouped_terms_fit[OF ts(1)] by blast
  then show ?thesis using grouped_size_ge[of 0 ts] ts None by (auto simp: groupedValueSize_def)
qed (use assms(1) in \<open>auto simp: parseGrouped_def Let_def split: if_splits sum.splits\<close>)

text \<open>
  A grouped expression of integers is read back to the terms it was written from.
\<close>

fun int_name :: "ValueType \<Rightarrow> string" where
  "int_name VByte = ''byte''"
| "int_name VInt16 = ''i16''"
| "int_name VInt32 = ''i32''"
| "int_name VInt64 = ''i64''"
| "int_name VPointer = ''pointer''"
| "int_name _ = []"

definition term_text :: "ValueType \<times> u64 \<times> nat \<Rightarrow> string" where
  "term_text = (\<lambda>(t, v, off). int_name t @ CHR '':'' # fmt_int (sint v) @ CHR ''@'' # fmt_dec off)"

definition grouped_text :: "(ValueType \<times> u64 \<times> nat) list \<Rightarrow> string" where
  "grouped_text ts = concat (map (\<lambda>t. term_text t @ [CHR '';'']) ts)"

definition int_term :: "ValueType \<times> u64 \<times> nat \<Rightarrow> GroupedTerm" where
  "int_term = (\<lambda>(t, v, off). new_term\<lparr>gt_offset := off, gt_type := t, gt_int := v\<rparr>)"

lemma trimCopy_id: "list_all (\<lambda>c. \<not> is_space c) s \<Longrightarrow> trimCopy s = s"
  by (cases s) (auto simp: trimCopy_def intro!: rtrim_id simp: list_all_iff split: if_splits)

lemma fmt_plain:
  "c \<in> set (fmt_dec n) \<Longrightarrow> \<not> is_space c \<and> c \<noteq> CHR ''@'' \<and> c \<noteq> CHR '':'' \<and> c \<noteq> CHR '';''"
  "c \<in> set (fmt_int i) \<Longrightarrow> \<not> is_space c \<and> c \<noteq> CHR ''@'' \<and> c \<noteq> CHR '':'' \<and> c \<noteq> CHR '';''"
proof -
  have d: "\<not> is_space (hex_lower d) \<and> hex_lower d \<noteq> CHR ''@'' \<and> hex_lower d \<noteq> CHR '':'' \<and> hex_lower d \<noteq> CHR '';''" if "d < 10" for d
    using less_16_cases[of d] that by (auto simp: hex_lower_def is_space_def char_code_def)
  show dec: "c \<in> set (fmt_dec n) \<Longrightarrow> \<not> is_space c \<and> c \<noteq> CHR ''@'' \<and> c \<noteq> CHR '':'' \<and> c \<noteq> CHR '';''" for n
    using fmt_dec_set d by fastforce
  show "c \<in> set (fmt_int i) \<Longrightarrow> \<not> is_space c \<and> c \<noteq> CHR ''@'' \<and> c \<noteq> CHR '':'' \<and> c \<noteq> CHR '';''"
    using dec by (auto simp: fmt_int_def is_space_def char_code_def split: if_splits)
qed

lemma number_base_dec: "n \<noteq> 0 \<Longrightarrow> number_base 0 (fmt_dec n) = (10, fmt_dec n)"
proof -
  assume n: "n \<noteq> 0"
  obtain d ds where d: "fmt_dec n = hex_lower d # ds" "d < 10" "d = 0 \<longrightarrow> n = 0" using fmt_dec_Cons by blast
  have "strip_0x (fmt_dec n) = None" using fmt_dec_set[of _ n] by (intro strip_0x_digits) force
  then show ?thesis using d n hex_lower_zero[of d] by (simp add: number_base_def)
qed

lemma scan_fmt_dec: "n \<noteq> 0 \<Longrightarrow> starts_digit 10 (fmt_dec n) \<and> scan_digits 10 0 (fmt_dec n) = (n, [])"
  using fmt_dec_Cons[of n] scan_digits_fmt_dec[of "[]" n] by (auto simp: starts_digit_def)

lemma strtoll_fmt_int:
  assumes "- (2 ^ 63) \<le> i" "i < 2 ^ 63"
  shows "strtoll 0 (fmt_int i) = Some (of_int i, [], False)"
proof -
  consider "i = 0" | "0 < i" | "i < 0" by linarith
  then show ?thesis
  proof cases
    case 1
    then show ?thesis
      by (simp add: fmt_int_def fmt_dec_zero strtoll_def is_space_def char_code_def number_base_def starts_digit_def digit_val_def)
  next
    case 2
    obtain d ds where d: "fmt_dec (nat i) = hex_lower d # ds" "d < 10" using fmt_dec_Cons by blast
    then have "strip_sign (dropWhile is_space (fmt_dec (nat i))) = (False, fmt_dec (nat i))" by (simp add: hex_lower_plain)
    then show ?thesis
      using 2 assms number_base_dec[of "nat i"] scan_fmt_dec[of "nat i"]
      by (simp add: strtoll_def fmt_int_def nat_less_iff not_le)
  next
    case 3
    have "strip_sign (dropWhile is_space (CHR ''-'' # fmt_dec (nat (- i)))) = (True, fmt_dec (nat (- i)))"
      by (simp add: is_space_def char_code_def)
    then show ?thesis
      using 3 assms number_base_dec[of "nat (- i)"] scan_fmt_dec[of "nat (- i)"]
      by (simp add: strtoll_def fmt_int_def nat_le_iff not_less)
  qed
qed

lemma parseInt64_printed: "parseInt64Token (fmt_int (sint v)) = Some v" for v :: u64
proof -
  have "fmt_int (sint v) \<noteq> []" by (simp add: fmt_int_def fmt_dec_def)
  moreover have "trimCopy (fmt_int (sint v)) = fmt_int (sint v)" using fmt_plain(2) by (auto intro!: trimCopy_id simp: list_all_iff)
  moreover have "- (2 ^ 63) \<le> sint v" "sint v < 2 ^ 63" using sint_range_size[of v] by (simp_all add: word_size)
  ultimately show ?thesis using strtoll_fmt_int[of "sint v"] by (simp add: parseInt64Token_def c_end_def)
qed

lemma parseSize_printed: "n < 2 ^ 64 \<Longrightarrow> parseSizeToken (fmt_dec n) = Some n"
proof -
  assume n: "n < 2 ^ 64"
  have "fmt_dec n \<noteq> []" by (simp add: fmt_dec_def)
  moreover have "trimCopy (fmt_dec n) = fmt_dec n" using fmt_plain(1) by (auto intro!: trimCopy_id simp: list_all_iff)
  ultimately show ?thesis using strtoull_dec[of n 0 "[]"] n by (simp add: parseSizeToken_def c_end_def unat_of_nat)
qed

lemma int_name_plain:
  "int_name t \<noteq> [] \<Longrightarrow> list_all (\<lambda>c. \<not> is_space c \<and> c \<noteq> CHR '':'' \<and> c \<noteq> CHR '';'') (int_name t) \<and> lowerText (int_name t) = int_name t"
  by (cases t) (simp_all add: is_space_def char_code_def lowerText_def lower_char_def)

lemma grouped_value_int:
  "int_name t \<noteq> [] \<Longrightarrow> parseInt64Token v = Some n \<Longrightarrow>
    grouped_value (int_name t) v ix term0 = Inr (term0\<lparr>gt_type := t, gt_int := n\<rparr>) \<and>
    groupedTermValueSize (term0\<lparr>gt_type := t, gt_int := n\<rparr>) = valueSizeFor t"
  by (cases t) (simp_all add: grouped_value_def groupedTermValueSize_def)

lemma term_text_plain:
  "int_name (fst p) \<noteq> [] \<Longrightarrow> c \<in> set (term_text p) \<Longrightarrow> \<not> is_space c \<and> c \<noteq> CHR '';''"
  using int_name_plain[of "fst p"] fmt_plain
  by (fastforce simp: term_text_def list_all_iff is_space_def char_code_def split: prod.splits)

lemma grouped_term_printed:
  assumes "int_name t \<noteq> []" "off + valueSizeFor t \<le> size_max"
  shows "grouped_term (term_text (t, v, off)) ix = Inr (int_term (t, v, off))"
proof -
  let ?left = "int_name t @ CHR '':'' # fmt_int (sint v)"
  have "CHR ''@'' \<notin> set (fmt_dec off)" using fmt_plain(1) by blast
  then have at_sign: "split_last (CHR ''@'') (term_text (t, v, off)) = Some (?left, fmt_dec off)"
    using split_first_append[of "CHR ''@''" "rev (fmt_dec off)" "rev ?left"] by (simp add: split_last_def term_text_def)
  have "list_all (\<lambda>c. \<not> is_space c) ?left"
    using int_name_plain[OF assms(1)] fmt_plain(2) by (auto simp: list_all_iff is_space_def char_code_def)
  then have left: "trimCopy ?left = ?left" by (rule trimCopy_id)
  have colon: "split_first (CHR '':'') ?left = Some (int_name t, fmt_int (sint v))"
    using int_name_plain[OF assms(1)] by (auto intro!: split_first_append simp: list_all_iff)
  have trims: "trimCopy (fmt_dec off) = fmt_dec off" "trimCopy (fmt_int (sint v)) = fmt_int (sint v)"
    "lowerText (trimCopy (int_name t)) = int_name t" "fmt_int (sint v) \<noteq> []"
    using fmt_plain int_name_plain[OF assms(1)]
    by (auto intro!: trimCopy_id simp: list_all_iff fmt_int_def fmt_dec_def trimCopy_id)
  have "off < 2 ^ 64" using assms(2) by (simp add: size_max_def)
  moreover have "valueSizeFor t \<noteq> 0" "\<not> size_max - valueSizeFor t < off" using assms(2) by (cases t; simp)+
  moreover have "groupedTermValueSize (int_term (t, v, off)) = valueSizeFor t" "gt_offset (int_term (t, v, off)) = off"
    using grouped_value_int[OF assms(1) parseInt64_printed[of v]] by (simp_all add: int_term_def)
  moreover have "grouped_value (int_name t) (fmt_int (sint v)) ix (new_term\<lparr>gt_offset := off\<rparr>) = Inr (int_term (t, v, off))"
    using grouped_value_int[OF assms(1) parseInt64_printed[of v]] by (simp add: int_term_def)
  ultimately show ?thesis
    unfolding grouped_term_def at_sign option.case prod.case Let_def left colon trims
    by (simp only: parseSize_printed option.case trims if_False sum.case)
qed

lemma grouped_terms_printed:
  "\<forall>(t, v, off) \<in> set ps. int_name t \<noteq> [] \<and> off + valueSizeFor t \<le> size_max \<Longrightarrow>
    grouped_terms (getlines (CHR '';'') (grouped_text ps)) i = Inr (map int_term ps)"
proof (induction ps arbitrary: i)
  case (Cons p ps)
  obtain t v off where p: "p = (t, v, off)" by (cases p) auto
  have ok: "int_name t \<noteq> []" "off + valueSizeFor t \<le> size_max" using Cons.prems p by auto
  have "CHR '';'' \<notin> set (term_text p)" using term_text_plain[of p] ok p by auto
  then have "getlines (CHR '';'') (grouped_text (p # ps)) = term_text p # getlines (CHR '';'') (grouped_text ps)"
    using getlines_Cons by (simp add: grouped_text_def)
  moreover have "trimCopy (term_text p) = term_text p"
    using term_text_plain[of p] ok p by (auto intro!: trimCopy_id simp: list_all_iff)
  moreover have "term_text p \<noteq> []" by (simp add: term_text_def p)
  ultimately show ?case using Cons grouped_term_printed[OF ok] by (simp add: p)
qed (simp add: grouped_text_def)

lemma parse_grouped_ints:
  assumes "ps \<noteq> []" "\<forall>(t, v, off) \<in> set ps. int_name t \<noteq> [] \<and> off + valueSizeFor t \<le> size_max"
  shows "parseGrouped (grouped_text ps) cfg =
    (cfg\<lparr>cf_terms := map int_term ps, cf_grouped := grouped_text ps\<rparr>, None)"
proof -
  have "\<not> is_space c" if "c \<in> set (grouped_text ps)" for c
  proof -
    have "\<exists>p \<in> set ps. c \<in> set (term_text p @ [CHR '';''])"
      using that by (simp only: grouped_text_def set_concat set_map image_image UN_iff)
    then obtain p where "p \<in> set ps" "c \<in> set (term_text p) \<or> c = CHR '';''" by (simp only: set_append) force
    moreover have "\<not> is_space (CHR '';'')" by (simp add: is_space_def char_code_def)
    moreover have "int_name (fst p) \<noteq> []" if "p \<in> set ps" using assms(2) that by fastforce
    ultimately show ?thesis using term_text_plain[of p c] by blast
  qed
  then have "trimCopy (grouped_text ps) = grouped_text ps" by (auto intro!: trimCopy_id simp: list_all_iff)
  moreover have "grouped_text ps \<noteq> []" using assms(1) by (cases ps) (simp_all add: grouped_text_def)
  ultimately show ?thesis using grouped_terms_printed[OF assms(2)] assms(1) by (simp add: parseGrouped_def)
qed

theorem parse_grouped_block_witness:
  "let e = ''i32:123@16;byte:-5@0;'' in
     \<exists>cfg'. parseGrouped e default_config = (cfg', None) \<and>
       (\<forall>t \<in> set (cf_terms cfg'). gt_offset t + groupedTermValueSize t \<le> groupedValueSize cfg')"
proof -
  have e: "grouped_text [(VInt32, 123, 16), (VByte, - 5, 0)] = ''i32:123@16;byte:-5@0;''" by code_simp
  have p: "parseGrouped ''i32:123@16;byte:-5@0;'' default_config =
      (default_config\<lparr>cf_terms := map int_term [(VInt32, 123, 16), (VByte, - 5, 0)],
        cf_grouped := ''i32:123@16;byte:-5@0;''\<rparr>, None)"
    using parse_grouped_ints[of "[(VInt32, 123, 16), (VByte, - 5, 0)]" default_config] unfolding e by (simp add: size_max_def)
  have "length ''i32:123@16;byte:-5@0;'' < 2 ^ 62" by simp
  from parse_grouped_block[OF p this] p show ?thesis by simp
qed

end
