(* ===== verification/Signature.thy ===== *)
theory Signature
  imports Code_Hooks Scan_Parse Scan_Patterns "HOL-Library.Sublist"
begin

text \<open>
  Signatures of code (\<^verbatim>\<open>src/src/analysis/signature.cpp\<close>): an array-of-bytes pattern that is extended
  instruction by instruction until it occurs once in the region, with the bytes that relocation
  changes left open.  The disassembler is a parameter.  The main result takes the text of a signature
  through the pattern parser and the array-of-bytes scan of the memory scanner.
\<close>

record DecodedInstruction = Instruction +
  in_bytes :: bytes
  in_dispOffset :: u8
  in_dispSize :: u8
  in_immOffset :: u8
  in_immSize :: u8

record PatByte =
  pb_value :: u8
  pb_wild :: bool

record SignatureResult =
  sg_pattern :: string
  sg_length :: nat
  sg_unique :: bool

section \<open>Matching and printing\<close>

definition pat_matches :: "PatByte list \<Rightarrow> bytes \<Rightarrow> nat \<Rightarrow> bool" where
  "pat_matches pat region p =
     list_all (\<lambda>j. pb_wild (pat ! j) \<or> region ! (p + j) = pb_value (pat ! j)) [0..<length pat]"

text \<open>The loop stops at the second match; \<open>firstPos\<close> keeps its value when there is none.\<close>

fun count_from :: "(nat \<Rightarrow> bool) \<Rightarrow> nat list \<Rightarrow> nat \<Rightarrow> nat \<Rightarrow> nat \<times> nat" where
  "count_from m [] cnt firstPos = (cnt, firstPos)"
| "count_from m (p # ps) cnt firstPos =
     (if m p
      then let fp = (if cnt = 0 then p else firstPos) in
        if 1 < cnt + 1 then (cnt + 1, fp) else count_from m ps (cnt + 1) fp
      else count_from m ps cnt firstPos)"

definition countMatches :: "PatByte list \<Rightarrow> bytes \<Rightarrow> nat \<times> nat" where
  "countMatches pat region =
     (let pl = length pat in
      if pl = 0 \<or> length region < pl then (0, 0)
      else count_from (pat_matches pat region) [0..<length region - pl + 1] 0 0)"

definition trimmed :: "PatByte list \<Rightarrow> PatByte list" where
  "trimmed pat = rev (dropWhile pb_wild (rev pat))"

definition pat_token :: "PatByte \<Rightarrow> string" where
  "pat_token b = (if pb_wild b then ''??'' else fmt_02X (pb_value b))"

definition toAob :: "PatByte list \<Rightarrow> string" where
  "toAob pat = (case trimmed pat of
       [] \<Rightarrow> []
     | b # bs \<Rightarrow> pat_token b @ concat (map (\<lambda>b. CHR '' '' # pat_token b) bs))"

section \<open>Building a signature\<close>

definition imm_value :: "DecodedInstruction \<Rightarrow> u64" where
  "imm_value ins = foldl (\<lambda>v b. v OR push_bit (8 * b) (ucast (in_bytes ins ! (unat (in_immOffset ins) + b)))) 0
     [0..<min 8 (unat (in_immSize ins))]"

definition wild_byte :: "DecodedInstruction \<Rightarrow> nat \<Rightarrow> bool" where
  "wild_byte ins k =
     (in_ripTarget ins \<noteq> 0 \<and> in_dispSize ins \<noteq> 0 \<and> unat (in_dispOffset ins) \<le> k \<and>
        k < unat (in_dispOffset ins) + unat (in_dispSize ins) \<or>
      4 \<le> in_immSize ins \<and> unat (in_immOffset ins) \<le> k \<and> k < unat (in_immOffset ins) + unat (in_immSize ins) \<and>
        0x10000 \<le> imm_value ins \<and> imm_value ins \<le> 0x7FFFFFFFFFFF)"

definition insn_pattern :: "DecodedInstruction \<Rightarrow> PatByte list" where
  "insn_pattern ins = map (\<lambda>k. \<lparr>pb_value = in_bytes ins ! k, pb_wild = wild_byte ins k\<rparr>) [0..<length (in_bytes ins)]"

definition found_here :: "PatByte list \<Rightarrow> bytes \<Rightarrow> u64 \<Rightarrow> u64 \<Rightarrow> bool" where
  "found_here pat region regionBase address =
     (case countMatches pat region of (cnt, firstPos) \<Rightarrow> cnt = 1 \<and> regionBase + of_nat firstPos = address)"

fun extend_pattern :: "bytes \<Rightarrow> u64 \<Rightarrow> u64 \<Rightarrow> nat \<Rightarrow> DecodedInstruction list \<Rightarrow> PatByte list \<Rightarrow> PatByte list \<times> bool" where
  "extend_pattern region regionBase address maxBytes [] pat = (pat, False)"
| "extend_pattern region regionBase address maxBytes (ins # rest) pat =
     (let pat' = pat @ insn_pattern ins in
      case countMatches pat' region of (cnt, firstPos) \<Rightarrow>
        if cnt = 1 then (pat', regionBase + of_nat firstPos = address)
        else if maxBytes \<le> length pat' then (pat', False)
        else extend_pattern region regionBase address maxBytes rest pat')"

definition region_cap :: nat where "region_cap = 128 * 1024 * 1024"

definition no_signature :: SignatureResult where
  "no_signature = \<lparr>sg_pattern = [], sg_length = 0, sg_unique = False\<rparr>"

definition makeSignature :: "(bool \<Rightarrow> u64 \<Rightarrow> bytes \<Rightarrow> DecodedInstruction list) \<Rightarrow> 's process \<Rightarrow> 's \<Rightarrow>
    u64 \<Rightarrow> u64 \<Rightarrow> u64 \<Rightarrow> nat \<Rightarrow> SignatureResult" where
  "makeSignature dis P s address regionBase regionSize maxBytes =
     (if regionSize = 0 \<or> address < regionBase \<or> regionBase + regionSize \<le> address then no_signature
      else (case pr_read P s regionBase (min (unat regionSize) region_cap) of
          None \<Rightarrow> no_signature
        | Some region \<Rightarrow>
            if region = [] then no_signature
            else
              let codeOff = unat (address - regionBase) in
              if length region \<le> codeOff then no_signature
              else
                let codeLen = min (length region - codeOff) (maxBytes + 16);
                    insns = dis (pr_runs32 P) address (take codeLen (drop codeOff region));
                    (pat, unique) = extend_pattern region regionBase address maxBytes insns []
                in \<lparr>sg_pattern = toAob pat, sg_length = length pat,
                    sg_unique = unique \<or> found_here pat region regionBase address\<rparr>))"

text \<open>With the mapping that contains the address; \<open>query\<close> stands for \<^verbatim>\<open>queryRegion\<close>.\<close>

definition makeSignatureHere :: "(bool \<Rightarrow> u64 \<Rightarrow> bytes \<Rightarrow> DecodedInstruction list) \<Rightarrow> 's process \<Rightarrow>
    ('s \<Rightarrow> u64 \<Rightarrow> MemoryRegion option) \<Rightarrow> 's \<Rightarrow> u64 \<Rightarrow> nat \<Rightarrow> SignatureResult" where
  "makeSignatureHere dis P query s address maxBytes =
     (case query s address of
        None \<Rightarrow> no_signature
      | Some r \<Rightarrow> makeSignature dis P s address (r_base r) (r_size r) maxBytes)"

section \<open>Counting\<close>

lemma count_from_one: "count_from m ps (Suc 0) fp =
    (case filter m ps of [] \<Rightarrow> (1, fp) | _ \<Rightarrow> (2, fp))"
  by (induction ps) (auto split: list.splits)

lemma count_from_zero: "count_from m ps 0 fp =
    (case filter m ps of [] \<Rightarrow> (0, fp) | [p] \<Rightarrow> (1, p) | p # _ \<Rightarrow> (2, p))"
  by (induction ps) (auto simp: count_from_one split: list.splits)

definition match_list :: "PatByte list \<Rightarrow> bytes \<Rightarrow> nat list" where
  "match_list pat region = filter (pat_matches pat region) [0..<length region + 1 - length pat]"

lemma found_here_iff:
  assumes "pat \<noteq> []" "length pat \<le> length region"
  shows "found_here pat region base address \<longleftrightarrow> (\<exists>p. match_list pat region = [p] \<and> base + of_nat p = address)"
proof -
  have "length region - length pat + 1 = length region + 1 - length pat" using assms(2) by simp
  then show ?thesis
    using assms by (auto simp: found_here_def countMatches_def count_from_zero match_list_def Let_def split: list.splits)
qed

lemma extend_pattern_found:
  "extend_pattern region base address maxBytes insns pat = (pat', u) \<Longrightarrow>
     (u \<longrightarrow> found_here pat' region base address) \<and>
     (\<exists>n. pat' = pat @ concat (map insn_pattern (take n insns)))"
proof (induction insns arbitrary: pat)
  case (Cons ins rest)
  show ?case
  proof (cases "extend_pattern region base address maxBytes rest (pat @ insn_pattern ins) = (pat', u) \<and>
      fst (countMatches (pat @ insn_pattern ins) region) \<noteq> 1 \<and> \<not> maxBytes \<le> length (pat @ insn_pattern ins)")
    case True
    then obtain n where "pat' = pat @ insn_pattern ins @ concat (map insn_pattern (take n rest))"
      "u \<longrightarrow> found_here pat' region base address"
      using Cons.IH[of "pat @ insn_pattern ins"] by auto
    then show ?thesis by (intro conjI exI[of _ "Suc n"]) simp_all
  next
    case False
    then have "pat' = pat @ insn_pattern ins \<and> (u \<longrightarrow> found_here pat' region base address)"
      using Cons.prems by (auto simp: Let_def found_here_def split: prod.splits if_splits)
    then show ?thesis by (auto intro!: exI[of _ "Suc 0"])
  qed
qed (auto intro: exI[of _ 0])

lemma map_value_pattern: "map pb_value (insn_pattern ins) = in_bytes ins"
  by (simp add: insn_pattern_def comp_def map_nth)

lemma values_of_insns: "map pb_value (concat (map insn_pattern insns)) = concat (map in_bytes insns)"
  by (induction insns) (simp_all add: map_value_pattern)

lemma pat_matches_own: "length pat + off \<le> length region \<Longrightarrow> take (length pat) (drop off region) = map pb_value pat \<Longrightarrow>
    pat_matches pat region off"
  unfolding pat_matches_def list_all_iff
  by (metis atLeastLessThan_iff set_upt nth_drop nth_map nth_take add_leD2)

section \<open>The text of a signature is read back\<close>

lemma hex_upper_plain: "d < 16 \<Longrightarrow> \<not> is_space (hex_upper d) \<and> hex_upper d \<noteq> CHR ''?'' \<and> hex_upper d \<noteq> CHR ''*''"
  by (drule less_16_cases) (auto simp: hex_upper_def is_space_def char_code_def)

lemma nib_hex_upper: "d < 16 \<Longrightarrow> nib (hex_upper d) = (of_nat d, 0xF, True)"
  using hex_upper_plain[of d] by (simp add: nib_def)

lemma two_digits: "push_bit 4 (of_nat (unat v div 16)) OR of_nat (unat v mod 16) = (v :: u8)"
proof -
  have "unat v div 16 = unat (drop_bit 4 v)" "unat v mod 16 = unat (take_bit 4 v)"
    by (simp_all add: unat_div_distrib unat_mod_distrib drop_bit_eq_div take_bit_eq_mod)
  then have "of_nat (unat v div 16) = drop_bit 4 v" "of_nat (unat v mod 16) = take_bit 4 v" by simp_all
  then show ?thesis by (auto intro!: bit_word_eqI simp: bit_simps)
qed

lemma aob_token_pat: "aob_token (pat_token b) = (if pb_wild b then 0 else pb_value b, if pb_wild b then 0 else 0xFF, True)"
proof (cases "pb_wild b")
  case False
  have d: "unat (pb_value b) div 16 < 16" "unat (pb_value b) mod 16 < 16" using unat_u8_less[of "pb_value b"] by simp_all
  then show ?thesis
    using False hex_upper_plain[OF d(1)] by (simp add: pat_token_def aob_token_def fmt_02X_def nib_hex_upper two_digits)
qed (simp add: pat_token_def aob_token_def)

lemma pat_token_word: "pat_token b \<noteq> [] \<and> list_all (\<lambda>c. \<not> is_space c) (pat_token b)"
proof -
  have "unat (pb_value b) div 16 < 16" "unat (pb_value b) mod 16 < 16" using unat_u8_less[of "pb_value b"] by simp_all
  then show ?thesis by (simp add: pat_token_def fmt_02X_def hex_upper_plain) (simp add: is_space_def char_code_def)
qed

lemma tokens_rest: "tokens (concat (map (\<lambda>b. CHR '' '' # pat_token b) bs)) = map pat_token bs"
proof (induction bs)
  case (Cons b bs)
  let ?r = "concat (map (\<lambda>b. CHR '' '' # pat_token b) bs)"
  have "?r = [] \<or> is_space (hd ?r)" by (cases bs) (simp_all add: is_space_def char_code_def)
  then have "tokens (pat_token b @ ?r) = pat_token b # tokens ?r" using pat_token_word[of b] by (intro tokens_word) blast+
  then show ?case using Cons by (simp add: tokens_space)
qed simp

lemma tokens_toAob: "tokens (toAob pat) = map pat_token (trimmed pat)"
proof (cases "trimmed pat")
  case (Cons b bs)
  let ?r = "concat (map (\<lambda>b. CHR '' '' # pat_token b) bs)"
  have "?r = [] \<or> is_space (hd ?r)" by (cases bs) (simp_all add: is_space_def char_code_def)
  then have "tokens (pat_token b @ ?r) = pat_token b # tokens ?r" using pat_token_word[of b] by (intro tokens_word) blast+
  then show ?thesis using Cons by (simp add: toAob_def tokens_rest)
qed (simp add: toAob_def)

lemma parse_toAob:
  "parseAOB (toAob pat) cfg = (cfg\<lparr>cf_bytes := map (\<lambda>b. if pb_wild b then 0 else pb_value b) (trimmed pat),
     cf_byteArrayMask := map (\<lambda>b. if pb_wild b then 0 else 0xFF) (trimmed pat)\<rparr>, trimmed pat \<noteq> [])"
  by (simp add: parseAOB_def tokens_toAob aob_token_pat comp_def list_all_iff)

section \<open>The scan for a signature\<close>

lemma pat_matches_trimmed: "pat_matches (trimmed pat) region p = pat_matches pat region p"
proof -
  let ?w = "rev (takeWhile pb_wild (rev pat))"
  have pat: "pat = trimmed pat @ ?w" unfolding trimmed_def by (metis rev_append rev_rev_ident takeWhile_dropWhile_id)
  have "pb_wild b" if "b \<in> set ?w" for b using that by (auto dest: set_takeWhileD)
  then have "pb_wild (pat ! j)" if "length (trimmed pat) \<le> j" "j < length pat" for j
    using that nth_mem[of "j - length (trimmed pat)" ?w] pat
    by (metis (no_types, lifting) add_diff_inverse_nat leD length_append nat_add_left_cancel_less nth_append)
  moreover have "trimmed pat ! j = pat ! j" if "j < length (trimmed pat)" for j using pat that by (metis nth_append)
  moreover have "length (trimmed pat) \<le> length pat" using pat by (metis le_add1 length_append)
  ultimately show ?thesis by (fastforce simp: pat_matches_def list_all_iff not_less)
qed

definition scan_pattern :: "SimdMode \<Rightarrow> bytes \<Rightarrow> u64 \<Rightarrow> string \<Rightarrow> u64 list" where
  "scan_pattern mode region base txt =
     (let cfg = fst (parseAOB txt default_config)
      in map fst (scanBufferAOB mode region base (cf_bytes cfg) (cf_byteArrayMask cfg)))"

lemma scan_signature:
  assumes "trimmed pat \<noteq> []" "length (trimmed pat) \<le> length region"
  shows "scan_pattern mode region base (toAob pat) =
    map (\<lambda>off. base + of_nat off) (filter (pat_matches pat region) [0..<length region - length (trimmed pat) + 1])"
proof -
  let ?t = "trimmed pat"
  let ?bs = "map (\<lambda>b. if pb_wild b then 0 else pb_value b) ?t" and ?m = "map (\<lambda>b. if pb_wild b then 0 else 0xFF :: u8) ?t"
  have "list_all (\<lambda>j. region ! (off + j) AND ?m ! j = ?bs ! j AND ?m ! j) [0..<length ?bs] = pat_matches pat region off" for off
    unfolding pat_matches_trimmed[symmetric, of pat] by (auto simp: pat_matches_def list_all_iff u8_and_255)
  then show ?thesis
    using aob_scan_filter[of ?bs ?m region mode base] assms
    by (simp add: scan_pattern_def parse_toAob emitAt_def comp_def)
qed

lemma filter_upt_le: "m \<le> n \<Longrightarrow> filter (\<lambda>off. off < m \<and> P off) [0..<n] = filter P [0..<m]"
proof -
  assume "m \<le> n"
  then have "[0..<n] = [0..<m] @ [m..<n]" using upt_add_eq_append[of 0 m "n - m"] by simp
  then show ?thesis by (auto simp: filter_empty_conv intro!: filter_cong)
qed

text \<open>
  C11: The text of a signature, parsed as an array-of-bytes pattern and scanned for, finds the address
  it was made for; the signature is reported unique exactly when no other match of the scan
  leaves room in the region for all the bytes the signature covers; and when no trailing wildcards
  were left out of its text (it has a token per covered byte), it is reported unique exactly when the
  scan finds nothing else.  With trailing wildcards a signature reported unique may have a second match
  at the end of the region (\<open>signature_tail_gap\<close>).  The instructions' bytes are those of the code decoded.
\<close>

theorem signature_locates:
  assumes "makeSignature dis P s address base n maxBytes = r" "sg_pattern r \<noteq> []"
    "pr_read P s base (min (unat n) region_cap) = Some region" "length region \<le> region_cap"
    "\<forall>code. prefix (concat (map in_bytes (dis (pr_runs32 P) address code))) code"
  shows "address \<in> set (scan_pattern mode region base (sg_pattern r)) \<and>
    (sg_unique r \<longleftrightarrow>
       filter (\<lambda>a. unat (a - base) + sg_length r \<le> length region) (scan_pattern mode region base (sg_pattern r)) = [address]) \<and>
    (length (tokens (sg_pattern r)) = sg_length r \<longrightarrow>
       (sg_unique r \<longleftrightarrow> scan_pattern mode region base (sg_pattern r) = [address]))"
proof -
  let ?off = "unat (address - base)"
  let ?code = "take (min (length region - ?off) (maxBytes + 16)) (drop ?off region)"
  obtain pat u where ex: "extend_pattern region base address maxBytes (dis (pr_runs32 P) address ?code) [] = (pat, u)" by fastforce
  have r: "r = \<lparr>sg_pattern = toAob pat, sg_length = length pat, sg_unique = u \<or> found_here pat region base address\<rparr>"
      "?off < length region"
    using assms(1-3) ex by (auto simp: makeSignature_def no_signature_def Let_def split: if_splits)
  note found = extend_pattern_found[OF ex]
  obtain k where k: "map pb_value pat = concat (map in_bytes (take k (dis (pr_runs32 P) address ?code)))"
    using found by (auto simp: values_of_insns)
  have "prefix (map pb_value pat) (concat (map in_bytes (dis (pr_runs32 P) address ?code)))"
    unfolding k by (metis append_take_drop_id concat_append map_append prefixI)
  then have "prefix (map pb_value pat) ?code" using assms(5) prefix_order.trans by blast
  then obtain zs where code: "?code = map pb_value pat @ zs" by (auto simp: prefix_def)
  then have "length ?code = length pat + length zs" by (simp only: length_append length_map)
  moreover have "length ?code = min (length region - ?off) (maxBytes + 16)" by simp
  ultimately have len: "length pat \<le> min (length region - ?off) (maxBytes + 16)" by linarith
  have "take (length pat) (drop ?off region) = take (length pat) ?code" using len by (simp add: min_absorb1)
  also have "\<dots> = map pb_value pat" unfolding code by simp
  finally have same: "take (length pat) (drop ?off region) = map pb_value pat" .
  have "length pat \<le> length region - ?off" using len by simp
  then have room: "length pat + ?off \<le> length region" using r(2) by linarith
  then have own: "pat_matches pat region ?off" "?off + length pat \<le> length region"
    using pat_matches_own[OF room same] by simp_all
  have t: "trimmed pat \<noteq> []" using assms(2) r(1) by (auto simp: toAob_def)
  then have "pat \<noteq> []" by (auto simp: trimmed_def)
  have le: "length (trimmed pat) \<le> length pat" using length_dropWhile_le[of pb_wild "rev pat"] by (simp add: trimmed_def)
  let ?hits = "scan_pattern mode region base (sg_pattern r)"
  have hits: "?hits = map (\<lambda>off. base + of_nat off) (filter (pat_matches pat region) [0..<length region - length (trimmed pat) + 1])"
    using scan_signature[OF t] own(2) le r(1) by simp
  have unat_off: "unat (of_nat off :: u64) = off" if "off \<le> length region" for off
    using that assms(4) by (simp add: unat_u64_of_nat region_cap_def)
  have "filter (\<lambda>a. unat (a - base) + length pat \<le> length region) ?hits =
      map (\<lambda>off. base + of_nat off) (filter (\<lambda>off. off < length region + 1 - length pat \<and> pat_matches pat region off)
        [0..<length region - length (trimmed pat) + 1])"
    unfolding hits filter_map filter_filter comp_def
    by (intro arg_cong[where f = "map _"] filter_cong refl) (use unat_off own(2) in auto)
  also have "\<dots> = map (\<lambda>off. base + of_nat off) (match_list pat region)"
    unfolding match_list_def by (subst filter_upt_le) (use le own(2) in auto)
  finally have "(filter (\<lambda>a. unat (a - base) + length pat \<le> length region) ?hits = [address]) =
      found_here pat region base address"
    using own(2) found_here_iff[OF \<open>pat \<noteq> []\<close>, of region base address] by (auto simp: map_eq_Cons_conv)
  moreover have "?off < length region - length (trimmed pat) + 1" using own(2) le by linarith
  then have "?off \<in> set (filter (pat_matches pat region) [0..<length region - length (trimmed pat) + 1])"
    using own(1) by (simp del: upt_Suc)
  then have "base + of_nat ?off \<in> set ?hits" unfolding hits set_map by (rule imageI)
  moreover have "filter (\<lambda>a. unat (a - base) + length pat \<le> length region) ?hits = ?hits"
    if "length (tokens (sg_pattern r)) = sg_length r"
  proof -
    have "length (trimmed pat) = length pat" using that r(1) by (simp add: tokens_toAob)
    then show ?thesis unfolding hits using unat_off own(2) by (auto simp del: upt_Suc intro!: filter_True)
  qed
  ultimately show ?thesis using found r(1) by auto
qed

text \<open>One 6-byte instruction with a 4-byte displacement relative to the program counter.\<close>

definition jmp_code :: "bool \<Rightarrow> u64 \<Rightarrow> bytes \<Rightarrow> DecodedInstruction list" where
  "jmp_code m a code =
     (if length code < 6 then []
      else [\<lparr>in_mnemonic = ''jmp'', in_size = 6, in_ripRelative = True, in_ripTarget = a + 7,
        in_bytes = take 6 code, in_dispOffset = 2, in_dispSize = 4, in_immOffset = 0, in_immSize = 0\<rparr>])"

definition stored_at :: "bytes \<Rightarrow> memory" where
  "stored_at bs = store_bytes (\<lambda>_. None) 0x1000 bs"

lemma stored_read: "length bs = 8 \<Longrightarrow> pr_read (flat_process [] []) (stored_at bs) 0x1000 8 = Some bs"
  using flat_read_stored[of bs] by (simp add: stored_at_def)

lemma jmp_signature:
  assumes "length bs = 8" "a = 0x1000 \<or> a = 0x1001"
  shows "makeSignature jmp_code (flat_process [] []) (stored_at bs) a 0x1000 8 64 =
    (case extend_pattern bs 0x1000 a 64 (jmp_code False a (drop (unat (a - 0x1000)) bs)) [] of
       (pat, u) \<Rightarrow> \<lparr>sg_pattern = toAob pat, sg_length = length pat, sg_unique = u \<or> found_here pat bs 0x1000 a\<rparr>)"
proof -
  have "pr_read (flat_process [] []) (stored_at bs) 0x1000 8 = Some bs"
    using stored_read assms by blast
  moreover have "pr_runs32 (flat_process [] []) = False" by (simp add: flat_process_def)
  moreover have "take 8 (drop 0 bs) = bs" "take 7 (drop 1 bs) = drop 1 bs" "bs \<noteq> []" using assms(1) by auto
  ultimately show ?thesis using assms by (auto simp: makeSignature_def region_cap_def Let_def)
qed

lemma jmp_code_prefix: "prefix (concat (map in_bytes (jmp_code m a code))) code"
  by (simp add: jmp_code_def take_is_prefix)

theorem signature_locates_witness:
  "let r = makeSignature jmp_code (flat_process [] []) (stored_at [0x90, 0xFF, 0x25, 1, 0, 0, 0, 0xC3]) 0x1001 0x1000 8 64
   in sg_unique r \<and> 0x1001 \<in> set (scan_pattern AVX2 [0x90, 0xFF, 0x25, 1, 0, 0, 0, 0xC3] 0x1000 (sg_pattern r))"
proof -
  let ?bs = "[0x90, 0xFF, 0x25, 1, 0, 0, 0, 0xC3] :: bytes"
  have r: "makeSignature jmp_code (flat_process [] []) (stored_at ?bs) 0x1001 0x1000 8 64 =
      \<lparr>sg_pattern = ''FF 25'', sg_length = 6, sg_unique = True\<rparr>"
    unfolding jmp_signature[of ?bs "0x1001", simplified] by code_simp
  have rd: "pr_read (flat_process [] []) (stored_at ?bs) 0x1000 (min (unat (8 :: u64)) region_cap) = Some ?bs"
    using stored_read[of ?bs] by (simp add: region_cap_def)
  show ?thesis
    using signature_locates[OF r _ rd, of AVX2] jmp_code_prefix r by (simp add: region_cap_def)
qed

text \<open>
  The wildcards at the end of a signature are not printed.  A signature that was reported unique then
  matches a second time where fewer bytes remain than it covers.
\<close>

lemma signature_tail_gap:
  "let bs = [0xFF, 0x25, 1, 0, 0, 0, 0xFF, 0x25];
       r = makeSignature jmp_code (flat_process [] []) (stored_at bs) 0x1000 0x1000 8 64
   in sg_unique r \<and> scan_pattern Scalar bs 0x1000 (sg_pattern r) = [0x1000, 0x1006]"
proof -
  let ?bs = "[0xFF, 0x25, 1, 0, 0, 0, 0xFF, 0x25] :: bytes"
  have r: "makeSignature jmp_code (flat_process [] []) (stored_at ?bs) 0x1000 0x1000 8 64 =
      \<lparr>sg_pattern = ''FF 25'', sg_length = 6, sg_unique = True\<rparr>"
    unfolding jmp_signature[of ?bs "0x1000", simplified] by code_simp
  have "toAob [\<lparr>pb_value = 0xFF, pb_wild = False\<rparr>, \<lparr>pb_value = 0x25, pb_wild = False\<rparr>] = ''FF 25''" by code_simp
  then have "scan_pattern Scalar ?bs 0x1000 ''FF 25'' = [0x1000, 0x1006]"
    using scan_signature[of "[\<lparr>pb_value = 0xFF, pb_wild = False\<rparr>, \<lparr>pb_value = 0x25, pb_wild = False\<rparr>]" ?bs Scalar "0x1000"]
    by (simp add: trimmed_def pat_matches_def upt_rec)
  with r show ?thesis by simp
qed

end
