(* ===== verification/Table_Text.thy ===== *)
theory Table_Text
  imports Scan_Parse Value_Transform Bin_Format
begin

text \<open>
  The text formats of cheat tables (\<^verbatim>\<open>src/src/core/ct_file.cpp\<close>): the address expression of a pointer
  record and its inverse, the escaping of XML text, and the obfuscated table file with its password
  check.  The JSON document inside of such a file is a text here; the temporary file it passes through
  is left out.  The negation of the smallest \<^verbatim>\<open>int64_t\<close> wraps around.
\<close>

section \<open>Pointer expressions\<close>

definition offset_text :: "u64 \<Rightarrow> string" where
  "offset_text off =
     (if 0 \<le> sint off then CHR 0x5D # CHR ''+'' # fmt_hex (unat off)
      else CHR 0x5D # CHR ''-'' # fmt_hex (unat (- off)))"

definition buildPointerExpression :: "string \<Rightarrow> u64 list \<Rightarrow> string" where
  "buildPointerExpression base offs = foldr (\<lambda>off expr. CHR 0x5B # expr @ offset_text off) offs base"

definition parseSignedHexOffset :: "string \<Rightarrow> u64 option" where
  "parseSignedHexOffset s =
     (if s = [] then None
      else
        let neg = (hd s = CHR ''-'');
            s1 = (if hd s = CHR ''+'' \<or> hd s = CHR ''-'' then tl s else s);
            s2 = (if 2 \<le> length s1 \<and> s1 ! 0 = CHR ''0'' \<and> (s1 ! 1 = CHR ''x'' \<or> s1 ! 1 = CHR ''X'') then drop 2 s1 else s1)
        in if s2 = [] then None
           else map_option (\<lambda>val. if neg then - val else val) (parse_int_digits 16 0 s2))"

function pointer_levels :: "string \<Rightarrow> (string \<times> u64 list) option" where
  "pointer_levels e =
     (if e \<noteq> [] \<and> hd e = CHR 0x5B
      then (case split_last (CHR 0x5D) e of
          None \<Rightarrow> None
        | Some (left, right) \<Rightarrow>
            let tail = trim_blank right in
            (case (if tail = [] then Some 0 else parseSignedHexOffset tail) of
               None \<Rightarrow> None
             | Some off \<Rightarrow> map_option (\<lambda>(base, offs). (base, off # offs)) (pointer_levels (trim_blank (tl left)))))
      else if e = [] then None else Some (e, []))"
  by pat_completeness auto
termination
proof (relation "measure length", simp)
  fix e left right tail :: string and p off
  assume "split_last (CHR 0x5D) e = Some p" "(left, right) = p"
  then have "length left < length e" using length_split_first[of "CHR 0x5D" "rev e"] by (auto simp: split_last_def)
  then show "(trim_blank (tl left), e) \<in> measure length" using length_trim_blank[of "tl left"] by simp
qed

declare pointer_levels.simps [simp del]

definition parsePointerExpression :: "string \<Rightarrow> (string \<times> u64 list) option" where
  "parsePointerExpression expr =
     (let e = trim_blank expr in if e = [] \<or> hd e \<noteq> CHR 0x5B then None else pointer_levels e)"

section \<open>Escaped text\<close>

fun xml_char :: "char \<Rightarrow> string" where
  "xml_char c =
     (if c = CHR ''&'' then ''&amp;'' else if c = CHR ''<'' then ''&lt;''
      else if c = CHR ''>'' then ''&gt;'' else if c = CHR 0x22 then ''&quot;'' else [c])"

definition xmlEscape :: "string \<Rightarrow> string" where
  "xmlEscape s = concat (map xml_char s)"

function xmlUnescape :: "string \<Rightarrow> string" where
  "xmlUnescape [] = []"
| "xmlUnescape (c # cs) =
     (if c = CHR ''&''
      then if take 3 cs = ''lt;'' then CHR ''<'' # xmlUnescape (drop 3 cs)
        else if take 3 cs = ''gt;'' then CHR ''>'' # xmlUnescape (drop 3 cs)
        else if take 4 cs = ''amp;'' then CHR ''&'' # xmlUnescape (drop 4 cs)
        else if take 5 cs = ''quot;'' then CHR 0x22 # xmlUnescape (drop 5 cs)
        else if take 5 cs = ''apos;'' then CHR 0x27 # xmlUnescape (drop 5 cs)
        else c # xmlUnescape cs
      else c # xmlUnescape cs)"
  by pat_completeness auto
termination
  by (relation "measure length") auto

section \<open>Protected files\<close>

definition kFnvOffset :: u64 where "kFnvOffset = 1469598103934665603"
definition kFnvPrime :: u64 where "kFnvPrime = 1099511628211"

definition fnv1a :: "string \<Rightarrow> u64" where
  "fnv1a txt = foldl (\<lambda>hash c. (hash XOR of_nat (char_code c)) * kFnvPrime) kFnvOffset txt"

definition xorshift64 :: "u64 \<Rightarrow> u64" where
  "xorshift64 state =
     (let s1 = state XOR push_bit 13 state; s2 = s1 XOR drop_bit 7 s1 in s2 XOR push_bit 17 s2)"

fun xor_stream :: "u64 \<Rightarrow> bytes \<Rightarrow> bytes" where
  "xor_stream state [] = []"
| "xor_stream state (b # bs) = (let state' = xorshift64 state in (b XOR ucast (state' AND 0xFF)) # xor_stream state' bs)"

definition key_state :: "string \<Rightarrow> u64" where
  "key_state password = fnv1a (if password = [] then ''cecore'' else password)"

definition xorCrypt :: "string \<Rightarrow> string \<Rightarrow> bytes" where
  "xorCrypt input password = xor_stream (key_state password) (name_bytes input)"

definition xorDecrypt :: "bytes \<Rightarrow> string \<Rightarrow> string" where
  "xorDecrypt input password = bytes_name (xor_stream (key_state password) input)"

text \<open>The file \<^verbatim>\<open>saveProtected\<close> writes for a JSON document, and the document \<^verbatim>\<open>loadProtected\<close> hands on.\<close>

definition saveProtected :: "string \<Rightarrow> string \<Rightarrow> bytes option" where
  "saveProtected json password =
     (if json = [] then None
      else Some (name_bytes (''CETRAINER1'' @ [CHR 0x0A] @ fmt_dec (unat (fnv1a password)) @ [CHR 0x0A]) @
             xorCrypt json password))"

definition read_line :: "string \<Rightarrow> (string \<times> string) option" where
  "read_line s =
     (if s = [] then None
      else (case split_first (CHR 0x0A) s of None \<Rightarrow> Some (s, []) | Some (l, rest) \<Rightarrow> Some (l, rest)))"

definition loadProtected :: "bytes \<Rightarrow> string \<Rightarrow> string option" where
  "loadProtected payload password =
     (if 64 * 1024 * 1024 < length payload then None
      else (case read_line (bytes_name payload) of
          None \<Rightarrow> None
        | Some (magic, rest1) \<Rightarrow>
            (case read_line rest1 of
               None \<Rightarrow> None
             | Some (hashLine, encrypted) \<Rightarrow>
                 if magic \<noteq> ''CETRAINER1'' then None
                 else (case stoull 10 hashLine of
                     None \<Rightarrow> None
                   | Some expectedHash \<Rightarrow>
                       if expectedHash \<noteq> fnv1a password then None
                       else Some (xorDecrypt (name_bytes encrypted) password)))))"

section \<open>Round trips\<close>

lemma hex_lower_not_blank: "d < 16 \<Longrightarrow> \<not> is_blank (hex_lower d) \<and> hex_lower d \<noteq> CHR 0x0A"
  by (drule less_16_cases) (auto simp: hex_lower_def is_blank_def)

lemma fmt_hex_char:
  "c \<in> set (fmt_hex n) \<Longrightarrow> \<not> is_blank c \<and> c \<noteq> CHR 0x5D \<and> c \<noteq> CHR ''x'' \<and> c \<noteq> CHR ''X''"
  using fmt_hex_set[of c n] hex_lower_not_blank hex_lower_plain by metis

lemma printed_hex_not_Nil: "fmt_hex n \<noteq> []"
  by (simp add: fmt_hex_def)

lemma parse_signed_hex:
  "parseSignedHexOffset (CHR ''+'' # fmt_hex n) = Some (of_nat n)"
  "parseSignedHexOffset (CHR ''-'' # fmt_hex n) = Some (- of_nat n)"
proof -
  have "fmt_hex n ! 1 \<noteq> CHR ''x'' \<and> fmt_hex n ! 1 \<noteq> CHR ''X''" if "2 \<le> length (fmt_hex n)"
    using fmt_hex_char[of "fmt_hex n ! 1" n] nth_mem[of 1 "fmt_hex n"] that by simp
  then show "parseSignedHexOffset (CHR ''+'' # fmt_hex n) = Some (of_nat n)"
    "parseSignedHexOffset (CHR ''-'' # fmt_hex n) = Some (- of_nat n)"
    using printed_hex_not_Nil[of n] by (auto simp: parseSignedHexOffset_def Let_def parse_int_hex)
qed

definition plain_base :: "string \<Rightarrow> bool" where
  "plain_base base = (base \<noteq> [] \<and> hd base \<noteq> CHR 0x5B \<and> \<not> is_blank (hd base) \<and> \<not> is_blank (last base))"

lemma split_last_append: "c \<notin> set b \<Longrightarrow> split_last c (a @ c # b) = Some (a, b)"
  using split_first_append[of c "rev b" "rev a"] by (simp add: split_last_def)

lemma offset_text_parts:
  "\<exists>sfx. offset_text off = CHR 0x5D # sfx \<and> CHR 0x5D \<notin> set sfx \<and> trim_blank sfx = sfx \<and> sfx \<noteq> [] \<and>
     \<not> is_blank (last sfx) \<and> parseSignedHexOffset sfx = Some off"
proof -
  have plain: "CHR 0x5D \<notin> set (s # fmt_hex n) \<and> trim_blank (s # fmt_hex n) = s # fmt_hex n \<and> \<not> is_blank (last (s # fmt_hex n))"
    if "s = CHR ''+'' \<or> s = CHR ''-''" for s n
  proof -
    have s: "\<not> is_blank s" "s \<noteq> CHR 0x5D" using that by (auto simp: is_blank_def)
    have "last (fmt_hex n) \<in> set (fmt_hex n)" by (rule last_in_set[OF printed_hex_not_Nil])
    from fmt_hex_char[OF this] have l: "\<not> is_blank (last (s # fmt_hex n))" using printed_hex_not_Nil[of n] by simp
    have "CHR 0x5D \<notin> set (s # fmt_hex n)" using fmt_hex_char[of "CHR 0x5D" n] s(2) by auto
    then show ?thesis using l s(1) trim_blank_id[of "s # fmt_hex n"] by simp
  qed
  show ?thesis
  proof (cases "0 \<le> sint off")
    case True
    then show ?thesis using plain[of "CHR ''+''" "unat off"] parse_signed_hex(1)[of "unat off"] by (auto simp: offset_text_def)
  next
    case False
    then show ?thesis using plain[of "CHR ''-''" "unat (- off)"] parse_signed_hex(2)[of "unat (- off)"] by (auto simp: offset_text_def)
  qed
qed

lemma built_ends:
  assumes "plain_base base"
  shows "buildPointerExpression base offs \<noteq> [] \<and> \<not> is_blank (hd (buildPointerExpression base offs)) \<and>
    \<not> is_blank (last (buildPointerExpression base offs))"
proof (cases offs)
  case (Cons off offs')
  obtain sfx where "offset_text off = CHR 0x5D # sfx" "sfx \<noteq> []" "\<not> is_blank (last sfx)" using offset_text_parts by blast
  then show ?thesis by (simp add: Cons buildPointerExpression_def is_blank_def)
qed (use assms in \<open>simp add: buildPointerExpression_def plain_base_def\<close>)

lemma pointer_levels_built:
  assumes "plain_base base"
  shows "pointer_levels (buildPointerExpression base offs) = Some (base, offs)"
proof (induction offs)
  case Nil
  then show ?case using assms by (subst pointer_levels.simps) (simp add: buildPointerExpression_def plain_base_def)
next
  case (Cons off offs)
  let ?inner = "buildPointerExpression base offs"
  obtain sfx where sfx: "offset_text off = CHR 0x5D # sfx" "CHR 0x5D \<notin> set sfx" "trim_blank sfx = sfx" "sfx \<noteq> []"
    "parseSignedHexOffset sfx = Some off" using offset_text_parts by blast
  have e: "buildPointerExpression base (off # offs) = (CHR 0x5B # ?inner) @ CHR 0x5D # sfx"
    by (simp add: buildPointerExpression_def sfx(1))
  have "trim_blank ?inner = ?inner" using built_ends[OF assms, of offs] by (intro trim_blank_id) blast
  then show ?case
    unfolding e by (subst pointer_levels.simps) (simp only: split_last_append[OF sfx(2)], simp add: sfx(3-5) Cons.IH)
qed

text \<open>
  C18: Parsing the expression that was built for a base and a chain of offsets gives the base and the
  chain back, for every number of offsets of either sign and every base that is not itself bracketed
  or surrounded by blanks.
\<close>

theorem pointer_expression_roundtrip:
  assumes "plain_base base" "offs \<noteq> []"
  shows "parsePointerExpression (buildPointerExpression base offs) = Some (base, offs)"
proof -
  have "trim_blank (buildPointerExpression base offs) = buildPointerExpression base offs"
    using built_ends[OF assms(1), of offs] by (intro trim_blank_id) blast
  moreover have "hd (buildPointerExpression base offs) = CHR 0x5B"
    using assms(2) by (cases offs) (simp_all add: buildPointerExpression_def)
  ultimately show ?thesis
    using pointer_levels_built[OF assms(1), of offs] built_ends[OF assms(1), of offs] by (simp add: parsePointerExpression_def)
qed

theorem pointer_expression_roundtrip_witness:
  "parsePointerExpression (buildPointerExpression ''game.exe+1C'' [0x10, - 8]) = Some (''game.exe+1C'', [0x10, - 8])"
  by (rule pointer_expression_roundtrip) (simp_all add: plain_base_def is_blank_def)

text \<open>A base that is itself a chain comes back as a longer chain.\<close>

lemma bracketed_base_split:
  "parsePointerExpression (buildPointerExpression ''[a]+0'' [8]) = Some (''a'', [8, 0])"
  by code_simp

text \<open>
  Unescaping escaped text gives the text back, whatever markup or entities it contains.
\<close>

theorem xml_escape_roundtrip: "xmlUnescape (xmlEscape s) = s"
proof (induction s)
  case (Cons c s)
  have "xmlUnescape (xml_char c @ rest) = c # xmlUnescape rest" for rest by simp
  then show ?case using Cons by (simp add: xmlEscape_def del: xml_char.simps)
qed (simp add: xmlEscape_def)

lemma name_bytes_name [simp]: "name_bytes (bytes_name bs) = bs"
  using unat_u8_less by (induction bs) (simp_all add: name_bytes_def bytes_name_def)

lemma xor_stream_twice: "xor_stream st (xor_stream st bs) = bs"
  by (induction bs arbitrary: st) (simp_all add: Let_def xor.assoc)

lemma fmt_dec_newline: "CHR 0x0A \<notin> set (fmt_dec n)"
proof
  assume "CHR 0x0A \<in> set (fmt_dec n)"
  then obtain d where "d < 10" "CHR 0x0A = hex_lower d" using fmt_dec_set by blast
  then show False using hex_lower_not_blank[of d] by simp
qed

text \<open>
  C33: A protected file is opened with its password to the document it was made from, and refused for
  every password with another hash.
\<close>

theorem protected_roundtrip:
  assumes "saveProtected json password = Some payload" "length payload \<le> 64 * 1024 * 1024"
  shows "loadProtected payload password = Some json \<and>
    (fnv1a other \<noteq> fnv1a password \<longrightarrow> loadProtected payload other = None)"
proof -
  let ?h = "fmt_dec (unat (fnv1a password))"
  have app: "bytes_name (xs @ ys) = bytes_name xs @ bytes_name ys" for xs ys by (simp add: bytes_name_def)
  have parts: "bytes_name payload = ''CETRAINER1'' @ CHR 0x0A # ?h @ CHR 0x0A # bytes_name (xorCrypt json password)"
    using assms(1) app by (auto simp: saveProtected_def split: if_splits)
  have l1: "read_line (bytes_name payload) = Some (''CETRAINER1'', ?h @ CHR 0x0A # bytes_name (xorCrypt json password))"
    unfolding parts read_line_def by (subst split_first_append) simp_all
  have l2: "read_line (?h @ CHR 0x0A # bytes_name (xorCrypt json password)) = Some (?h, bytes_name (xorCrypt json password))"
    unfolding read_line_def by (subst split_first_append[OF fmt_dec_newline]) simp
  have h: "stoull 10 ?h = Some (fnv1a password)"
    using strtoull_dec[of "unat (fnv1a password)" 10 "[]"] unat_u64_less[of "fnv1a password"] by (simp add: stoull_def)
  have "loadProtected payload pw = (if fnv1a password \<noteq> fnv1a pw then None else Some (xorDecrypt (xorCrypt json password) pw))" for pw
    using assms(2) by (simp add: loadProtected_def l1 l2 h)
  moreover have "xorDecrypt (xorCrypt json password) password = json"
    by (simp add: xorDecrypt_def xorCrypt_def xor_stream_twice)
  ultimately show ?thesis by simp
qed

theorem protected_roundtrip_witness:
  "\<exists>payload. saveProtected ''{}'' ''pw'' = Some payload \<and> loadProtected payload ''pw'' = Some ''{}''"
proof -
  obtain payload where f: "saveProtected ''{}'' ''pw'' = Some payload" by (simp add: saveProtected_def)
  have "length (fmt_dec (unat (fnv1a ''pw''))) \<le> 20"
    using nat_digits_length[of "unat (fnv1a ''pw'')" 10 20] unat_u64_less[of "fnv1a ''pw''"] by (simp add: fmt_dec_def)
  moreover have "length (xor_stream st bs) = length bs" for st bs by (induction bs arbitrary: st) (simp_all add: Let_def)
  ultimately have "length payload \<le> 64 * 1024 * 1024" using f by (auto simp: saveProtected_def xorCrypt_def)
  from protected_roundtrip[OF f this] f show ?thesis by blast
qed

end
