(* ===== verification/Spec2Isabelle.thy ===== *)
theory Spec2Isabelle
  imports Value_Codec Core_Types Cpu_Flags Value_Transform Address_Rows Simple_Address_List Breakpoint_Manager
    Process_Memory Process_Api Linux_Process Remote_Syscall Guest_View Expression Snapshot Pointer_Paths Gdb_Remote Code_Hooks Structure_Tools Scan_Skip Scan_Next Signature Table_Text
begin

text \<open>
  A verification development for the core library of Cheat Engine for Linux.  All file names below
  are relative to \<^verbatim>\<open>src/src\<close> of the repository; function names are those of the C++ code.

  \<^bold>\<open>The program.\<close>  The library attaches to another process, reads and writes its memory, and offers on
  top of that: scans for values and patterns, narrowed by further scans; a table of found addresses
  that can be frozen and displayed in several encodings; pointer scans that explain how a dynamic
  address is reached from a module; a debugger with breakpoints; code patches and hooks; and a
  dissector for data structures.  The components meet in the process interface (\<^verbatim>\<open>ProcessHandle\<close> of
  \<^verbatim>\<open>platform/process_api.hpp\<close>): each of them only sees its reads, writes and lists of regions and
  modules.

  \<^bold>\<open>Conventions.\<close>  Addresses and fixed-width integers are machine words that wrap around as in the code.
  Sizes and loop counters (\<^verbatim>\<open>size_t\<close>) are natural numbers; where the code tests them against their
  maximum, the test is written out.  A \<^verbatim>\<open>std::string\<close> is a list of 8-bit characters, a
  \<^verbatim>\<open>std::vector\<close> a list.  State is passed explicitly: an operation takes the record of its component
  and gives the new one.  Errors are values: \<open>None\<close>, or \<open>Inl\<close> with the message of the exception.
  Code outside of the repository is an argument of the definitions that use it: system calls, the
  disassembler, \<^verbatim>\<open>iconv\<close>, \<^verbatim>\<open>std::pow\<close>, the Lua interpreter, the symbol resolver.  What is assumed of it
  is a named law (\<open>readv_law\<close>, \<open>read_law\<close>, \<open>write_law\<close>, \<open>writable_law\<close>, \<open>ptrace_laws\<close>, \<open>stop_laws\<close>,
  \<open>noreplace_law\<close>, \<open>reads_many\<close>, and so on), and each law is proved for a concrete instance where a
  property is applied.  The laws hold of failures too: a write may be short, a request may be refused.

  \<^bold>\<open>Foundations.\<close>
  \<^item> \<open>Cheat_Prelude\<close>: machine words, little-endian bytes, facts on lists shared by all theories.
  \<^item> \<open>Text_Format\<close>: \<^verbatim>\<open>strtoull\<close>, \<^verbatim>\<open>snprintf\<close> conversions, members of \<^verbatim>\<open>std::string\<close>; printed numbers
    are read back.
  \<^item> \<open>Float_Bits\<close>: \<^verbatim>\<open>float\<close> and \<^verbatim>\<open>double\<close> with exact values and rounding to nearest.
  \<^item> \<open>Bin_Format\<close>: the locale \<open>record_codec\<close> for records in binary files, with its counted arrays;
    interpreted for the entries, modules, paths and regions that the scanners save.
  \<^item> \<open>Id_Store\<close>: the locale \<open>id_records\<close> for vectors of records with growing ids; interpreted for the
    cheat table and for the breakpoints.

  \<^bold>\<open>Values and tables.\<close>
  \<^item> \<open>Core_Types\<close> (\<^verbatim>\<open>core/types.hpp\<close>, \<^verbatim>\<open>types.cpp\<close>, \<^verbatim>\<open>memview_nav.hpp\<close>), \<open>Cpu_Flags\<close>
    (\<^verbatim>\<open>arch/cpu_flags.hpp\<close>): the shared types, the module-relative text of an address, the jump predictor.
  \<^item> \<open>Value_Codec\<close> (\<^verbatim>\<open>core/value_codec.hpp\<close>): disguised values; decoding inverts encoding on every
    width (locale \<open>reversible\<close>).
  \<^item> \<open>Value_Transform\<close> (\<^verbatim>\<open>core/value_transform.hpp\<close>): scalars as bytes and as text, with round trips.
  \<^item> \<open>Address_Rows\<close> (\<^verbatim>\<open>core/address_list.hpp\<close>): hiding, moving, deleting and grouping rows of a table
    against specifications by indentation.
  \<^item> \<open>Simple_Address_List\<close> (\<^verbatim>\<open>core/simple_address_list.hpp\<close>): the table behaves as a finite map from ids
    to entries, for every sequence of calls.
  \<^item> \<open>Table_Text\<close> (\<^verbatim>\<open>core/ct_file.cpp\<close>): pointer expressions, escaped text and protected files are read
    back to what they were made from.

  \<^bold>\<open>The target process.\<close>
  \<^item> \<open>Process_Api\<close> (\<^verbatim>\<open>platform/process_api.hpp\<close>): the interface as a record, its laws, and the typed
    accesses (locale \<open>scalar_type\<close>).
  \<^item> \<open>Process_Memory\<close> (\<^verbatim>\<open>platform/linux/linux_process.cpp\<close>): the scatter read \<^verbatim>\<open>readMany\<close>; its span and
    batched paths deliver what a read per address delivers.
  \<^item> \<open>Linux_Process\<close>: the memory map, resident pages, allocation inside a gap near a preferred address.
  \<^item> \<open>Remote_Syscall\<close>: a system call executed in a stopped thread restores it on every path on which the
    thread is not lost in the step; the other paths are spelled out.
  \<^item> \<open>Guest_View\<close> (\<^verbatim>\<open>core/guest_view.hpp\<close>): emulated memory with its own byte order and its scans.
  \<^item> \<open>Expression\<close> (\<^verbatim>\<open>core/expression.cpp\<close>): address expressions.  The recursion cap of the code is
    the fuel of \<open>parseImpl\<close>: depth \<open>d\<close> has fuel \<open>65 - d\<close>, so the fuel runs out exactly where the code gives up.
  \<^item> \<open>Breakpoint_Manager\<close> (\<^verbatim>\<open>debug/breakpoint_manager.cpp\<close>): a step relation over the calls and the two
    critical sections of a hit, with an invariant by rule induction.
  \<^item> \<open>Gdb_Remote\<close> (\<^verbatim>\<open>debug/gdb_remote.cpp\<close>): packets, escapes, run lengths, checksums.
  \<^item> \<open>Code_Hooks\<close> (\<^verbatim>\<open>debug/patch.cpp\<close>, \<^verbatim>\<open>core/simple_hook.cpp\<close>): patches and detours and their undo, with
    writes that stop short and protection changes that are refused, on 64-bit and 32-bit targets.
  \<^item> \<open>Structure_Tools\<close> (\<^verbatim>\<open>analysis/structure_tools.cpp\<close>): export as C++, detection of fields, chains.
  \<^item> \<open>Signature\<close> (\<^verbatim>\<open>analysis/signature.cpp\<close>): a generated pattern is parsed (\<open>Scan_Parse\<close>) and scanned for
    (\<open>Scan_Patterns\<close>), and finds its address.

  \<^bold>\<open>Pointer scans\<close> (\<^verbatim>\<open>scanner/pointer_scanner.cpp\<close>, \<^verbatim>\<open>scanner/snapshot.cpp\<close>).
  \<^item> \<open>Pointer_Map\<close>, \<open>Pointer_Build\<close>: the snapshot of all pointer-shaped words holds exactly those words.
  \<^item> \<open>Pointer_Scan\<close>: the breadth-first search equals a reference search; it is sound, complete up to its
    depth and cap, and its shards partition the result.
  \<^item> \<open>Pointer_Paths\<close>: text, files, rescans and merging of paths.
  \<^item> \<open>Snapshot\<close>: capture, difference, restore and file of memory snapshots.

  \<^bold>\<open>The memory scanner\<close> (\<^verbatim>\<open>scanner/memory_scanner.cpp\<close>), in the order a scan goes through it.
  \<^item> \<open>Scan_Config\<close>, \<open>Scan_Parse\<close>: the configuration, the sizes of records, the parsers of patterns.
  \<^item> \<open>Scan_Compare\<close>: the comparisons of integers, floating point numbers, bytes and groups.
  \<^item> \<open>Scan_Buffers\<close>, \<open>Scan_Floats\<close>, \<open>Scan_Patterns\<close>: the scans of one buffer; the AVX2 and SSE2 loops are
    modelled lane by lane and proved equal to the comparison at every offset of the grid.
  \<^item> \<open>Scan_Values\<close>, \<open>Scan_Chunks\<close>: the dispatch on the value type, and the locale \<open>local_scan\<close>: a scan whose
    matches only depend on their own bytes may be split into overlapping chunks.  A custom formula is a
    function of the bytes it is asked about.
  \<^item> \<open>Scan_Store\<close>, \<open>Scan_Store_Facts\<close>, \<open>Scan_Results\<close>: the files of a result, with frames of 32-bit
    offsets, shards and a manifest, on a disk with limited room and files that cannot be opened.  The
    invariant \<open>store_inv\<close> relates the buffers and files of an open result to the records added so far.
  \<^item> \<open>Scan_Workers\<close>: the results the worker threads write, one after the other.
  \<^item> \<open>Scan_First\<close>, \<open>Scan_Skip\<close>: \<^verbatim>\<open>firstScan\<close> lists exactly the matches in the selected memory, in order,
    for every number of threads and size of chunks; skipping untouched pages loses no match under the
    stated conditions, and examples show what happens without them.
  \<^item> \<open>Scan_Next\<close>: \<^verbatim>\<open>nextScan\<close> keeps exactly the records of the previous result that compare.

  \<^bold>\<open>Bounds and fuel.\<close>  Loops are recursive functions with measures, so every modelled operation returns.
  Fuel occurs in \<open>parseImpl\<close> (above) and in \<open>residentRanges\<close>, whose property assumes fuel for every
  block of pagemap entries of the range.  Properties over results assume fewer than \<open>2 ^ 64\<close> records.

  \<^bold>\<open>Simplifications.\<close>  Worker threads of a scan share only the room on the disk and the cancel flag; they
  run one after the other.  Progress counters and log messages are left out, \<^verbatim>\<open>std::sort\<close> is the stable
  sort, ids do not overflow.  A write that fails for want of room, a frame table and a manifest that cannot
  be opened set the error flag the code has, and the properties say what holds without it.  Data files
  that cannot be opened are ignored as the code ignores them: no flag is set, and the properties over
  results suppose that they could be opened (\<open>data_opens\<close>, \<open>scan_dir_ok\<close>); \<open>unopened_files_unreported\<close>
  shows what happens otherwise.  Exceptions inside a scan worker, which the code swallows together with the
  rest of the worker's range, and the directory of the probe for untouched pages, which is removed again,
  are left out.  The Lua formula of a custom scan is a pure function; the code keeps one Lua state per
  worker, so a formula that assigns globals sees what it left there.

  \<^bold>\<open>Not modelled.\<close>  The graphical interface, the command line and the Lua bindings, which call the
  operations above; the auto assembler and the wrappers of Keystone and Capstone; the XML and JSON
  documents of whole cheat tables; debug sessions, tracing, ptrace and code injection, which are sequences of
  kernel calls; the network protocols of ceserver and of the Mono debugger; the readers of ELF, DWARF,
  PE and IL2CPP files; trainers, plugins, target profiles, the Vulkan overlay, the search on a graphics
  card.  The manifest lists each of them with its files.
\<close>

end
